(* ===== verification/Prelude.thy ===== *)
theory Prelude
  imports Main "HOL-Library.Word" "HOL-Library.Char_ord" "HOL-Library.List_Lexorder"
    "HOL-Library.Product_Lexorder"
begin

text \<open>
  Shared vocabulary of the Dserver development: the ways a C++ call can fail to return
  (\<open>fault\<close>) and the result type that carries them, \<open>size_t\<close> arithmetic with its
  wrap-around written out, bounded reads and writes of arrays, the C and C++ library routines
  the sources call (\<open>std::find\<close>, \<open>std::search\<close>, C strings, decimal printing), and the
  automation collections the component theories extend.
\<close>

named_theorems res_simps "unfolding of the result monad"
named_theorems size_simps "size_t arithmetic that does not wrap"

section \<open>Faults and results\<close>

text \<open>
  A call either returns or does not: an \<open>assert\<close> fails, memory outside an object is touched
  (undefined behaviour), a container throws, a fatal log line or an uncaught exception aborts the
  process, or a loop never ends.
\<close>

datatype fault =
    AssertFailed
  | OutOfBounds
  | LengthError
  | OutOfRange
  | FatalLog
  | UseAfterFree
  | BadAlloc
  | Diverges
  | Aborts

type_synonym 'a res = "fault + 'a"

fun rbind :: "'a res \<Rightarrow> ('a \<Rightarrow> 'b res) \<Rightarrow> 'b res" where
  "rbind (Inl e) f = Inl e"
| "rbind (Inr x) f = f x"

definition assertm :: "bool \<Rightarrow> 'a res \<Rightarrow> 'a res" where
  "assertm P m = (if P then m else Inl AssertFailed)"

fun rfold :: "('a \<Rightarrow> 's \<Rightarrow> 's res) \<Rightarrow> 'a list \<Rightarrow> 's \<Rightarrow> 's res" where
  "rfold f [] s = Inr s"
| "rfold f (x # xs) s = rbind (f x s) (rfold f xs)"

lemma rbind_Inr_iff [res_simps]: "rbind m f = Inr y \<longleftrightarrow> (\<exists>x. m = Inr x \<and> f x = Inr y)"
  by (cases m) auto

lemma rbind_Inl_iff: "rbind m f = Inl e \<longleftrightarrow> m = Inl e \<or> (\<exists>x. m = Inr x \<and> f x = Inl e)"
  by (cases m) auto

lemma rbind_assoc: "rbind (rbind m f) g = rbind m (\<lambda>x. rbind (f x) g)"
  by (cases m) auto

lemma assertm_True [simp]: "P \<Longrightarrow> assertm P m = m"
  by (simp add: assertm_def)

lemma assertm_False [simp]: "\<not> P \<Longrightarrow> assertm P m = Inl AssertFailed"
  by (simp add: assertm_def)

lemma assertm_Inr_iff [res_simps]: "assertm P m = Inr y \<longleftrightarrow> P \<and> m = Inr y"
  by (simp add: assertm_def)

lemma rfold_append: "rfold f (xs @ ys) s = rbind (rfold f xs s) (rfold f ys)"
proof (induction xs arbitrary: s)
  case (Cons x xs)
  then show ?case by (cases "f x s") auto
qed simp

text \<open>An invariant that every iteration keeps, and under which none faults, survives the loop.\<close>

lemma rfold_invariant:
  assumes "I s" and "\<And>x s. x \<in> set xs \<Longrightarrow> I s \<Longrightarrow> \<exists>s'. f x s = Inr s' \<and> I s'"
  shows "\<exists>s'. rfold f xs s = Inr s' \<and> I s'"
  using assms
proof (induction xs arbitrary: s)
  case Nil
  then show ?case by simp
next
  case (Cons x xs)
  then obtain t where "f x s = Inr t" and "I t" by (metis list.set_intros(1))
  with Cons show ?case by simp
qed

lemma rfold_invariantE:
  assumes "rfold f xs s = Inr s'" and "I s"
    and "\<And>x s t. x \<in> set xs \<Longrightarrow> I s \<Longrightarrow> f x s = Inr t \<Longrightarrow> I t"
  shows "I s'"
  using assms
proof (induction xs arbitrary: s)
  case Nil
  then show ?case by simp
next
  case (Cons x xs)
  from Cons.prems(1) obtain t where t: "f x s = Inr t" "rfold f xs t = Inr s'"
    by (auto simp: rbind_Inr_iff)
  have "I t" using Cons.prems(3) [OF _ Cons.prems(2) t(1)] by simp
  then show ?case using Cons.IH [OF t(2)] Cons.prems(3) by (metis list.set_intros(2))
qed

section \<open>The type size_t\<close>

text \<open>
  Unsigned 64-bit values as naturals below \<open>2 ^ 64\<close>, with the wrap-around of addition and
  subtraction written out. The size of a \<open>std::vector<char>\<close> is at most \<open>2 ^ 63 - 1\<close>.
\<close>

definition size_mod :: nat where
  "size_mod = 2 ^ 64"

definition vec_max :: nat where
  "vec_max = 2 ^ 63 - 1"

definition uadd :: "nat \<Rightarrow> nat \<Rightarrow> nat" where
  "uadd a b = (a + b) mod size_mod"

definition usub :: "nat \<Rightarrow> nat \<Rightarrow> nat" where
  "usub a b = (a + size_mod - b) mod size_mod"

lemma uadd_exact [size_simps]: "a + b < size_mod \<Longrightarrow> uadd a b = a + b"
  by (simp add: uadd_def)

lemma usub_exact [size_simps]: "b \<le> a \<Longrightarrow> a < size_mod \<Longrightarrow> usub a b = a - b"
proof -
  assume h: "b \<le> a" "a < size_mod"
  then have eq: "a + size_mod - b = (a - b) + size_mod" by simp
  have "a - b < size_mod" using h by simp
  then show ?thesis unfolding usub_def eq by simp
qed

lemma usub_wraps: "a < b \<Longrightarrow> b < size_mod \<Longrightarrow> usub a b = a + size_mod - b"
  by (simp add: usub_def)

lemma vec_max_less: "n \<le> vec_max \<Longrightarrow> n < size_mod"
  by (simp add: vec_max_def size_mod_def)

lemma vec_max_add: "n \<le> vec_max \<Longrightarrow> m \<le> vec_max \<Longrightarrow> n + m < size_mod"
  by (simp add: vec_max_def size_mod_def)

lemma vec_max_add8: "n \<le> vec_max \<Longrightarrow> n + 8 < size_mod"
  by (simp add: vec_max_def size_mod_def)

section \<open>Arrays\<close>

text \<open>Reading \<open>n\<close> elements at offset \<open>p\<close>, and overwriting a run, both inside the array only.\<close>

definition read_at :: "'a list \<Rightarrow> nat \<Rightarrow> nat \<Rightarrow> 'a list res" where
  "read_at a p n = (if p + n \<le> length a then Inr (take n (drop p a)) else Inl OutOfBounds)"

definition write_at :: "'a list \<Rightarrow> nat \<Rightarrow> 'a list \<Rightarrow> 'a list res" where
  "write_at a p xs =
     (if p + length xs \<le> length a then Inr (take p a @ xs @ drop (p + length xs) a)
      else Inl OutOfBounds)"

text \<open>\<open>std::vector<char>::resize\<close>: truncate, or pad with zero bytes; too large throws.\<close>

definition vec_resize :: "char list \<Rightarrow> nat \<Rightarrow> char list res" where
  "vec_resize a n =
     (if n > vec_max then Inl LengthError
      else Inr (take n a @ replicate (n - length a) (CHR 0x00)))"

lemma read_at_ok [simp]: "p + n \<le> length a \<Longrightarrow> read_at a p n = Inr (take n (drop p a))"
  by (simp add: read_at_def)

lemma write_at_ok [simp]:
  "p + length xs \<le> length a \<Longrightarrow> write_at a p xs = Inr (take p a @ xs @ drop (p + length xs) a)"
  by (simp add: write_at_def)

lemma vec_resize_grow [simp]:
  "n \<le> vec_max \<Longrightarrow> length a \<le> n \<Longrightarrow>
     vec_resize a n = Inr (a @ replicate (n - length a) (CHR 0x00))"
  by (simp add: vec_resize_def)

section \<open>Library routines\<close>

text \<open>
  \<open>std::find\<close> and \<open>std::search\<close> return the end iterator (here: the length of the range)
  when there is no match.
\<close>

fun std_find :: "'a \<Rightarrow> 'a list \<Rightarrow> nat" where
  "std_find c [] = 0"
| "std_find c (x # xs) = (if x = c then 0 else Suc (std_find c xs))"

fun starts_with :: "'a list \<Rightarrow> 'a list \<Rightarrow> bool" where
  "starts_with [] xs = True"
| "starts_with (p # ps) [] = False"
| "starts_with (p # ps) (x # xs) = (p = x \<and> starts_with ps xs)"

fun std_search :: "'a list \<Rightarrow> 'a list \<Rightarrow> nat" where
  "std_search p [] = 0"
| "std_search p (x # xs) = (if starts_with p (x # xs) then 0 else Suc (std_search p xs))"

lemma std_find_le: "std_find c xs \<le> length xs"
  by (induction xs) auto

lemma std_find_length_iff: "std_find c xs = length xs \<longleftrightarrow> c \<notin> set xs"
  by (induction xs) auto

lemma std_find_less_iff: "std_find c xs < length xs \<longleftrightarrow> c \<in> set xs"
  by (induction xs) auto

lemma std_find_append_notin:
  "c \<notin> set xs \<Longrightarrow> std_find c (xs @ c # ys) = length xs"
  by (induction xs) auto

lemma std_find_nth: "std_find c xs < length xs \<Longrightarrow> xs ! std_find c xs = c"
  by (induction xs) auto

lemma starts_with_iff: "starts_with p xs \<longleftrightarrow> (\<exists>ys. xs = p @ ys)"
  by (induction p xs rule: starts_with.induct) auto

lemma starts_with_take: "starts_with p xs \<longleftrightarrow> take (length p) xs = p"
  by (induction p xs rule: starts_with.induct) auto

lemma starts_with_append: "starts_with p xs \<Longrightarrow> starts_with p (xs @ ys)"
  by (auto simp: starts_with_iff)

lemma std_search_le: "std_search p xs \<le> length xs"
  by (induction xs) auto

lemma std_search_found:
  "std_search p xs < length xs \<Longrightarrow> starts_with p (drop (std_search p xs) xs)"
  by (induction xs) (auto split: if_splits)

lemma std_search_first:
  "i < std_search p xs \<Longrightarrow> \<not> starts_with p (drop i xs)"
proof (induction xs arbitrary: i)
  case (Cons x xs)
  then show ?case by (cases i) (auto split: if_splits)
qed simp

lemma std_search_append:
  "std_search p xs < length xs \<Longrightarrow> std_search p (xs @ ys) = std_search p xs"
proof (induction xs)
  case (Cons x xs)
  show ?case
  proof (cases "starts_with p (x # xs)")
    case True
    then show ?thesis using starts_with_append by fastforce
  next
    case False
    with Cons.prems have f: "std_search p xs < length xs" by simp
    then have "length p \<le> length xs"
      using std_search_found [OF f] by (auto simp: starts_with_take dest: arg_cong [of _ _ length])
    with False have "\<not> starts_with p ((x # xs) @ ys)"
      by (simp add: starts_with_take del: append_Cons)
    with False f Cons.IH show ?thesis by simp
  qed
qed simp

text \<open>A C string ends at its first zero byte; \<open>snprintf\<close> keeps at most \<open>n - 1\<close> characters.\<close>

definition c_str :: "string \<Rightarrow> string" where
  "c_str s = takeWhile (\<lambda>c. c \<noteq> CHR 0x00) s"

definition snprintf_buf :: "nat \<Rightarrow> string \<Rightarrow> string" where
  "snprintf_buf n s = take (n - 1) s"

lemma c_str_id [simp]: "CHR 0x00 \<notin> set s \<Longrightarrow> c_str s = s"
  unfolding c_str_def by (induction s) auto

lemma c_str_shorter: "CHR 0x00 \<in> set s \<Longrightarrow> length (c_str s) < length s"
  unfolding c_str_def by (induction s) auto

lemma c_str_no_nul: "CHR 0x00 \<notin> set (c_str s)"
  unfolding c_str_def by (induction s) auto

text \<open>Decimal digits, as the \<open>printf\<close> conversions for integers print them.\<close>

definition digit_char :: "nat \<Rightarrow> char" where
  "digit_char d = char_of (48 + d)"

fun dec_nat :: "nat \<Rightarrow> string" where
  "dec_nat n = (if n < 10 then [digit_char n] else dec_nat (n div 10) @ [digit_char (n mod 10)])"

declare dec_nat.simps [simp del]

definition dec_int :: "int \<Rightarrow> string" where
  "dec_int i = (if i < 0 then CHR ''-'' # dec_nat (nat (- i)) else dec_nat (nat i))"

lemma dec_nat_no_nul: "CHR 0x00 \<notin> set (dec_nat n)"
proof (induction n rule: dec_nat.induct)
  case (1 n)
  have nz: "digit_char d \<noteq> CHR 0x00" if "d < 10" for d
  proof
    assume "digit_char d = CHR 0x00"
    then have "(of_char (digit_char d) :: nat) = of_char (CHR 0x00)" by simp
    then show False using that by (simp add: digit_char_def)
  qed
  show ?case
    using 1 nz [of n] nz [of "n mod 10"] by (subst dec_nat.simps) auto
qed

lemma length_dec_nat: "n < 10 ^ k \<Longrightarrow> 0 < k \<Longrightarrow> length (dec_nat n) \<le> k"
proof (induction n arbitrary: k rule: dec_nat.induct)
  case (1 n)
  show ?case
  proof (cases "n < 10")
    case True
    with "1.prems" show ?thesis by (subst dec_nat.simps) simp
  next
    case False
    then obtain j where j: "k = Suc j" "0 < j"
      using "1.prems" by (cases k; cases "k - 1") auto
    then have "n div 10 < 10 ^ j" using "1.prems"(1) by auto
    with "1.IH" [OF False] j have "length (dec_nat (n div 10)) \<le> j" by simp
    with False j show ?thesis by (subst dec_nat.simps) simp
  qed
qed

lemma c_str_take: "CHR 0x00 \<notin> set s \<Longrightarrow> c_str (snprintf_buf n s) = snprintf_buf n s"
  by (intro c_str_id) (auto simp: snprintf_buf_def dest: in_set_takeD)

text \<open>Integer division of C truncates towards zero, and the remainder has the dividend's sign.\<close>

definition c_div :: "int \<Rightarrow> int \<Rightarrow> int" where
  "c_div a b = sgn a * sgn b * (\<bar>a\<bar> div \<bar>b\<bar>)"

definition c_mod :: "int \<Rightarrow> int \<Rightarrow> int" where
  "c_mod a b = a - b * c_div a b"

lemma c_div_nonneg: "0 \<le> a \<Longrightarrow> 0 < b \<Longrightarrow> c_div a b = a div b"
  by (cases "a = 0") (auto simp: c_div_def)

lemma c_mod_nonneg: "0 \<le> a \<Longrightarrow> 0 < b \<Longrightarrow> c_mod a b = a mod b"
  by (simp add: c_mod_def c_div_nonneg minus_div_mult_eq_mod [symmetric] mult.commute)

lemma c_div_neg: "c_div (- a) b = - c_div a b"
  by (simp add: c_div_def sgn_minus)

lemma c_mod_neg: "c_mod (- a) b = - c_mod a b"
  by (simp add: c_mod_def c_div_neg)

text \<open>A list without its element at an index.\<close>

definition remove_nth :: "nat \<Rightarrow> 'a list \<Rightarrow> 'a list" where
  "remove_nth i xs = take i xs @ drop (Suc i) xs"

lemma length_remove_nth: "i < length xs \<Longrightarrow> length (remove_nth i xs) = length xs - 1"
  by (simp add: remove_nth_def)

lemma list_all_remove_nth: "list_all P xs \<Longrightarrow> list_all P (remove_nth i xs)"
  by (auto simp: remove_nth_def list_all_iff dest: in_set_takeD in_set_dropD)

end
