(* ===== verification/ByteQueue.thy ===== *)
theory ByteQueue
  imports Prelude
begin

text \<open>
  The contract a connection, a parser and a formatter rely on when they use a buffer: bytes are
  taken out in the order they were put in. The locale \<open>byte_queue\<close> states it over the client's
  operations; \<open>NetBuffer\<close> provides it.
\<close>

datatype bq_op = App string | Ret nat

text \<open>A client's calls one after the other, with everything that was taken out.\<close>

fun bq_run :: "(string \<Rightarrow> 'b \<Rightarrow> 'b res) \<Rightarrow> (nat \<Rightarrow> 'b \<Rightarrow> (string \<times> 'b) res) \<Rightarrow>
    bq_op list \<Rightarrow> 'b \<Rightarrow> (string \<times> 'b) res" where
  "bq_run app ret [] b = Inr ([], b)"
| "bq_run app ret (App xs # ops) b = rbind (app xs b) (bq_run app ret ops)"
| "bq_run app ret (Ret n # ops) b =
     rbind (ret n b) (\<lambda>(s, b1). rbind (bq_run app ret ops b1) (\<lambda>(out, b2). Inr (s @ out, b2)))"

fun bq_in :: "bq_op list \<Rightarrow> string" where
  "bq_in [] = []"
| "bq_in (App xs # ops) = xs @ bq_in ops"
| "bq_in (Ret n # ops) = bq_in ops"

text \<open>A client is legal when it never takes more than is there, starting from \<open>k\<close> bytes.\<close>

fun bq_legal :: "nat \<Rightarrow> bq_op list \<Rightarrow> bool" where
  "bq_legal k [] = True"
| "bq_legal k (App xs # ops) = bq_legal (k + length xs) ops"
| "bq_legal k (Ret n # ops) = (n \<le> k \<and> bq_legal (k - n) ops)"

locale byte_queue =
  fixes content :: "'b \<Rightarrow> string"
    and ok_state :: "'b \<Rightarrow> bool"
    and fits :: "'b \<Rightarrow> nat \<Rightarrow> bool"
    and app :: "string \<Rightarrow> 'b \<Rightarrow> 'b res"
    and ret :: "nat \<Rightarrow> 'b \<Rightarrow> (string \<times> 'b) res"
  assumes app_law: "ok_state b \<Longrightarrow> fits b (length xs + k) \<Longrightarrow>
      \<exists>b'. app xs b = Inr b' \<and> ok_state b' \<and> content b' = content b @ xs \<and> fits b' k"
    and ret_law: "ok_state b \<Longrightarrow> n \<le> length (content b) \<Longrightarrow> fits b k \<Longrightarrow>
      \<exists>b'. ret n b = Inr (take n (content b), b') \<and> ok_state b' \<and>
           content b' = drop n (content b) \<and> fits b' k"
    and ret_guard: "ok_state b \<Longrightarrow> length (content b) < n \<Longrightarrow> ret n b = Inl AssertFailed"
begin

lemma fifo:
  assumes "ok_state b" and "bq_legal (length (content b)) ops" and "fits b (length (bq_in ops))"
  shows "\<exists>out b'. bq_run app ret ops b = Inr (out, b') \<and> ok_state b' \<and>
           content b @ bq_in ops = out @ content b'"
  using assms
proof (induction ops arbitrary: b)
  case Nil
  then show ?case by simp
next
  case (Cons op ops)
  show ?case
  proof (cases op)
    case (App xs)
    then obtain b1 where b1: "app xs b = Inr b1" "ok_state b1" "content b1 = content b @ xs"
        "fits b1 (length (bq_in ops))"
      using app_law [of b xs "length (bq_in ops)"] Cons.prems by auto
    with Cons.IH [of b1] Cons.prems(2) App show ?thesis by auto
  next
    case (Ret n)
    then obtain b1 where b1: "ret n b = Inr (take n (content b), b1)" "ok_state b1"
        "content b1 = drop n (content b)" "fits b1 (length (bq_in ops))"
      using ret_law [of b n "length (bq_in ops)"] Cons.prems by auto
    with Cons.IH [of b1] Cons.prems(2) Ret obtain out b2 where
        "bq_run app ret ops b1 = Inr (out, b2)" "ok_state b2" "content b1 @ bq_in ops = out @ content b2"
      by auto
    with b1 Ret show ?thesis
      by (intro exI [of _ "take n (content b) @ out"] exI [of _ b2])
         (simp, metis append.assoc append_take_drop_id)
  qed
qed

text \<open>An illegal retrieval is caught by the assertion, whatever was done before it.\<close>

lemma overdraw_asserts:
  assumes "ok_state b" and "bq_legal (length (content b)) ops" and "fits b (length (bq_in ops))"
    and "length (content b @ bq_in ops) < n"
  shows "bq_run app ret (ops @ [Ret n]) b = Inl AssertFailed"
  using assms
proof (induction ops arbitrary: b)
  case Nil
  then show ?case by (simp add: ret_guard)
next
  case (Cons op ops)
  show ?case
  proof (cases op)
    case (App xs)
    then obtain b1 where "app xs b = Inr b1" "ok_state b1" "content b1 = content b @ xs"
        "fits b1 (length (bq_in ops))"
      using app_law [of b xs "length (bq_in ops)"] Cons.prems by auto
    with Cons.IH [of b1] Cons.prems App show ?thesis by auto
  next
    case (Ret m)
    then obtain b1 where "ret m b = Inr (take m (content b), b1)" "ok_state b1"
        "content b1 = drop m (content b)" "fits b1 (length (bq_in ops))"
      using ret_law [of b m "length (bq_in ops)"] Cons.prems by auto
    with Cons.IH [of b1] Cons.prems Ret show ?thesis by auto
  qed
qed

end

end
