(* ===== verification/SafeRun.thy ===== *)
theory SafeRun
  imports Prelude
begin

text \<open>
  The contract shared by the stateful components: from a state that satisfies the invariant, a
  legal operation either returns a state that satisfies it again or stops with one of the named
  faults. Once the contract holds of each operation, it holds of every run of legal operations.
\<close>

definition ok_or :: "fault set \<Rightarrow> ('a \<Rightarrow> bool) \<Rightarrow> 'a res \<Rightarrow> bool" where
  "ok_or F P r \<longleftrightarrow> (case r of Inl e \<Rightarrow> e \<in> F | Inr x \<Rightarrow> P x)"

lemma ok_or_simps [simp]: "ok_or F P (Inr x) = P x" "ok_or F P (Inl e) = (e \<in> F)"
  by (simp_all add: ok_or_def)

lemma ok_or_bind:
  "ok_or F P m \<Longrightarrow> (\<And>x. m = Inr x \<Longrightarrow> P x \<Longrightarrow> ok_or F Q (f x)) \<Longrightarrow> ok_or F Q (rbind m f)"
  by (cases m) auto

lemma ok_or_mono: "ok_or F P m \<Longrightarrow> (\<And>x. P x \<Longrightarrow> Q x) \<Longrightarrow> ok_or F Q m"
  by (cases m) auto

lemma ok_or_total: "ok_or {} P m \<longleftrightarrow> (\<exists>x. m = Inr x \<and> P x)"
  by (cases m) auto

lemma ok_or_rfold:
  assumes "I s" "\<And>x s. x \<in> set xs \<Longrightarrow> I s \<Longrightarrow> ok_or F I (f x s)"
  shows "ok_or F I (rfold f xs s)"
  using assms
proof (induction xs arbitrary: s)
  case (Cons x xs)
  show ?case
    unfolding rfold.simps
  proof (rule ok_or_bind)
    show "ok_or F I (f x s)" using Cons.prems by simp
  qed (use Cons in simp)
qed simp

fun run_legal :: "('op \<Rightarrow> 's \<Rightarrow> bool) \<Rightarrow> ('op \<Rightarrow> 's \<Rightarrow> 's res) \<Rightarrow> 'op list \<Rightarrow> 's \<Rightarrow> bool" where
  "run_legal legal step [] s = True"
| "run_legal legal step (op # ops) s =
     (legal op s \<and> (case step op s of Inl _ \<Rightarrow> True | Inr s' \<Rightarrow> run_legal legal step ops s'))"

lemma run_legal_static:
  "\<forall>op \<in> set ops. L op \<Longrightarrow> run_legal (\<lambda>op s. L op) step ops s"
  by (induction ops arbitrary: s) (auto split: sum.splits)

lemma run_legal_append:
  "run_legal L step (xs @ ys) s \<longleftrightarrow>
     run_legal L step xs s \<and> (case rfold step xs s of Inl _ \<Rightarrow> True | Inr s' \<Rightarrow> run_legal L step ys s')"
  by (induction xs arbitrary: s) (auto split: sum.splits simp: rbind_Inr_iff rbind_Inl_iff)

lemma run_legal_conj: "P \<Longrightarrow> run_legal L step ops s \<Longrightarrow> run_legal (\<lambda>op s. P \<and> L op s) step ops s"
  by (induction ops arbitrary: s) (auto split: sum.splits)

locale safe_machine =
  fixes step :: "'op \<Rightarrow> 's \<Rightarrow> 's res"
    and legal :: "'op \<Rightarrow> 's \<Rightarrow> bool"
    and inv :: "'s \<Rightarrow> bool"
    and F :: "fault set"
  assumes step_safe: "inv s \<Longrightarrow> legal op s \<Longrightarrow> ok_or F inv (step op s)"
begin

lemma run_safe: "inv s \<Longrightarrow> run_legal legal step ops s \<Longrightarrow> ok_or F inv (rfold step ops s)"
proof (induction ops arbitrary: s)
  case (Cons op ops)
  have step: "ok_or F inv (step op s)" using Cons.prems by (intro step_safe) auto
  show ?case
    unfolding rfold.simps using step
  proof (rule ok_or_bind)
    fix s' assume "step op s = Inr s'" "inv s'"
    then show "ok_or F inv (rfold step ops s')" using Cons.prems by (intro Cons.IH) auto
  qed
qed simp

lemma run_reaches_inv: "inv s \<Longrightarrow> run_legal legal step ops s \<Longrightarrow> rfold step ops s = Inr s' \<Longrightarrow> inv s'"
  using run_safe [of s ops] by simp

end

text \<open>A machine whose steps, seen through an abstraction, are the steps of a specification.\<close>

locale refining_machine = safe_machine step legal inv F
  for step :: "'op \<Rightarrow> 's \<Rightarrow> 's res" and legal :: "'op \<Rightarrow> 's \<Rightarrow> bool" and inv :: "'s \<Rightarrow> bool" and F :: "fault set" +
  fixes abstr :: "'s \<Rightarrow> 'a"
    and spec :: "'op \<Rightarrow> 'a \<Rightarrow> 'a"
  assumes step_refines: "inv s \<Longrightarrow> legal op s \<Longrightarrow> step op s = Inr s' \<Longrightarrow> abstr s' = spec op (abstr s)"
begin

lemma run_refines:
  "inv s \<Longrightarrow> run_legal legal step ops s \<Longrightarrow> rfold step ops s = Inr s' \<Longrightarrow> abstr s' = fold spec ops (abstr s)"
proof (induction ops arbitrary: s)
  case (Cons op ops)
  obtain t where t: "step op s = Inr t" "rfold step ops t = Inr s'" using Cons.prems(3) by (auto simp: rbind_Inr_iff)
  have legal: "legal op s" "run_legal legal step ops t" using Cons.prems(2) t(1) by simp_all
  have "inv t" using step_safe [OF Cons.prems(1) legal(1)] t(1) by simp
  then show ?case using Cons.IH [OF _ legal(2) t(2)] step_refines [OF Cons.prems(1) legal(1) t(1)] by simp
qed simp

lemma run_refines_total:
  "F = {} \<Longrightarrow> inv s \<Longrightarrow> run_legal legal step ops s \<Longrightarrow>
     \<exists>s'. rfold step ops s = Inr s' \<and> inv s' \<and> abstr s' = fold spec ops (abstr s)"
  using run_safe [of s ops] run_refines [of s ops] by (auto simp: ok_or_total)

end

lemma fold_append_concat: "fold (\<lambda>x acc. acc @ f x) xs acc = acc @ concat (map f xs)"
  by (induction xs arbitrary: acc) auto

end
