(* ===== verification/NetBuffer.thy ===== *)
theory NetBuffer
  imports ByteQueue SafeRun
begin

text \<open>
  The application buffer of a connection: \<open>class Buffer\<close> of \<open>net/Buffer.h\<close> and
  \<open>net/Buffer.cc\<close>. A buffer is a vector with two indices; the bytes between them are the
  readable content. Pointers into the vector (\<open>peek\<close>, \<open>beginWrite\<close>, the results of the
  searches) are offsets into it. The theory gives every operation with its assertions, the
  well-formedness invariant, the abstract view \<open>readable\<close> and the refinement of each operation
  to a queue of bytes.
\<close>

section \<open>State and operations\<close>

record buffer =
  buf_data :: "char list"
  readerIndex :: nat
  writerIndex :: nat

definition kCheapPrepend :: nat where
  "kCheapPrepend = 8"

definition kInitialSize :: nat where
  "kInitialSize = 1024"

definition new_buffer :: "nat \<Rightarrow> buffer res" where
  "new_buffer initialSize =
     rbind (vec_resize [] (uadd kCheapPrepend initialSize))
       (\<lambda>d. Inr \<lparr>buf_data = d, readerIndex = kCheapPrepend, writerIndex = kCheapPrepend\<rparr>)"

definition buffer_swap :: "buffer \<Rightarrow> buffer \<Rightarrow> buffer \<times> buffer" where
  "buffer_swap this rhs =
     (let (d1, d2) = (buf_data rhs, buf_data this);
          (r1, r2) = (readerIndex rhs, readerIndex this);
          (w1, r2') = (r2, writerIndex this)
      in (\<lparr>buf_data = d1, readerIndex = r1, writerIndex = w1\<rparr>,
          \<lparr>buf_data = d2, readerIndex = r2', writerIndex = writerIndex rhs\<rparr>))"

definition readableBytes :: "buffer \<Rightarrow> nat" where
  "readableBytes b = usub (writerIndex b) (readerIndex b)"

definition writableBytes :: "buffer \<Rightarrow> nat" where
  "writableBytes b = usub (length (buf_data b)) (writerIndex b)"

definition prependableBytes :: "buffer \<Rightarrow> nat" where
  "prependableBytes b = readerIndex b"

definition peek :: "buffer \<Rightarrow> nat" where
  "peek b = readerIndex b"

definition beginWrite :: "buffer \<Rightarrow> nat" where
  "beginWrite b = writerIndex b"

definition retrieveAll :: "buffer \<Rightarrow> buffer" where
  "retrieveAll b = b\<lparr>readerIndex := kCheapPrepend, writerIndex := kCheapPrepend\<rparr>"

definition retrieve :: "nat \<Rightarrow> buffer \<Rightarrow> buffer res" where
  "retrieve len b =
     assertm (len \<le> readableBytes b)
       (if len < readableBytes b
        then Inr (b\<lparr>readerIndex := uadd (readerIndex b) len\<rparr>)
        else Inr (retrieveAll b))"

definition retrieveUntil :: "nat \<Rightarrow> buffer \<Rightarrow> buffer res" where
  "retrieveUntil end_ptr b =
     assertm (peek b \<le> end_ptr)
       (assertm (end_ptr \<le> beginWrite b)
         (retrieve (end_ptr - peek b) b))"

definition retrieveAsString :: "nat \<Rightarrow> buffer \<Rightarrow> (string \<times> buffer) res" where
  "retrieveAsString len b =
     assertm (len \<le> readableBytes b)
       (rbind (read_at (buf_data b) (peek b) len)
         (\<lambda>result. rbind (retrieve len b) (\<lambda>b'. Inr (result, b'))))"

definition retrieveAllAsString :: "buffer \<Rightarrow> (string \<times> buffer) res" where
  "retrieveAllAsString b = retrieveAsString (readableBytes b) b"

definition hasWritten :: "nat \<Rightarrow> buffer \<Rightarrow> buffer res" where
  "hasWritten len b =
     assertm (len \<le> writableBytes b)
       (Inr (b\<lparr>writerIndex := uadd (writerIndex b) len\<rparr>))"

definition unwrite :: "nat \<Rightarrow> buffer \<Rightarrow> buffer res" where
  "unwrite len b =
     assertm (len \<le> readableBytes b)
       (Inr (b\<lparr>writerIndex := usub (writerIndex b) len\<rparr>))"

definition makeSpace :: "nat \<Rightarrow> buffer \<Rightarrow> buffer res" where
  "makeSpace len b =
     (if uadd (writableBytes b) (prependableBytes b) < uadd len kCheapPrepend
      then rbind (vec_resize (buf_data b) (uadd (writerIndex b) len))
             (\<lambda>d. Inr (b\<lparr>buf_data := d\<rparr>))
      else
        assertm (kCheapPrepend < readerIndex b)
          (let readable = readableBytes b in
           rbind (read_at (buf_data b) (readerIndex b) readable) (\<lambda>xs.
           rbind (write_at (buf_data b) kCheapPrepend xs) (\<lambda>d.
           let b' = b\<lparr>buf_data := d, readerIndex := kCheapPrepend,
                      writerIndex := uadd kCheapPrepend readable\<rparr>
           in assertm (readable = readableBytes b') (Inr b')))))"

definition ensureWritableBytes :: "nat \<Rightarrow> buffer \<Rightarrow> buffer res" where
  "ensureWritableBytes len b =
     rbind (if writableBytes b < len then makeSpace len b else Inr b)
       (\<lambda>b'. assertm (writableBytes b' \<ge> len) (Inr b'))"

definition buffer_append :: "string \<Rightarrow> buffer \<Rightarrow> buffer res" where
  "buffer_append data b =
     rbind (ensureWritableBytes (length data) b) (\<lambda>b1.
     rbind (write_at (buf_data b1) (beginWrite b1) data) (\<lambda>d.
     hasWritten (length data) (b1\<lparr>buf_data := d\<rparr>)))"

definition buffer_append_cstr :: "string \<Rightarrow> buffer \<Rightarrow> buffer res" where
  "buffer_append_cstr str b = buffer_append (c_str str) b"

definition buffer_prepend :: "string \<Rightarrow> buffer \<Rightarrow> buffer res" where
  "buffer_prepend data b =
     assertm (length data \<le> prependableBytes b)
       (let b1 = b\<lparr>readerIndex := usub (readerIndex b) (length data)\<rparr> in
        rbind (write_at (buf_data b1) (readerIndex b1) data)
          (\<lambda>d. Inr (b1\<lparr>buf_data := d\<rparr>)))"

definition shrink :: "nat \<Rightarrow> buffer \<Rightarrow> buffer res" where
  "shrink reserve b =
     rbind (new_buffer kInitialSize) (\<lambda>other.
     rbind (ensureWritableBytes (uadd (readableBytes b) reserve) other) (\<lambda>other1.
     rbind (read_at (buf_data b) (peek b) (readableBytes b)) (\<lambda>xs.
     rbind (buffer_append xs other1) (\<lambda>other2.
     Inr (fst (buffer_swap b other2))))))"

definition kCRLF :: string where
  "kCRLF = [CHR 0x0D, CHR 0x0A]"

definition findCRLF_from :: "nat \<Rightarrow> buffer \<Rightarrow> nat option res" where
  "findCRLF_from start b =
     assertm (peek b \<le> start)
       (assertm (start \<le> beginWrite b)
         (rbind (read_at (buf_data b) start (beginWrite b - start))
           (\<lambda>xs. let crlf = start + std_search kCRLF xs
                 in Inr (if crlf = beginWrite b then None else Some crlf))))"

definition findCRLF :: "buffer \<Rightarrow> nat option res" where
  "findCRLF b =
     rbind (read_at (buf_data b) (peek b) (readableBytes b))
       (\<lambda>xs. let crlf = peek b + std_search kCRLF xs
             in Inr (if crlf = beginWrite b then None else Some crlf))"

definition findEOL_from :: "nat \<Rightarrow> buffer \<Rightarrow> nat option res" where
  "findEOL_from start b =
     assertm (peek b \<le> start)
       (assertm (start \<le> beginWrite b)
         (rbind (read_at (buf_data b) start (beginWrite b - start))
           (\<lambda>xs. let i = std_find (CHR 0x0A) xs
                 in Inr (if i = length xs then None else Some (start + i)))))"

definition findEOL :: "buffer \<Rightarrow> nat option res" where
  "findEOL b =
     rbind (read_at (buf_data b) (peek b) (readableBytes b))
       (\<lambda>xs. let i = std_find (CHR 0x0A) xs
             in Inr (if i = length xs then None else Some (peek b + i)))"

text \<open>
  \<open>readFd\<close> reads through \<open>readv\<close>, which is a parameter: given the total capacity of the
  vectors it either fails with an \<open>errno\<close> or delivers bytes, filling the first vector (the
  writable part of the buffer) before the second (64 KiB on the stack). The result is the
  return value, the saved \<open>errno\<close> where the call failed, and the buffer.
\<close>

type_synonym readv_fun = "nat \<Rightarrow> int + string"

definition readFd :: "readv_fun \<Rightarrow> buffer \<Rightarrow> (int \<times> int option \<times> buffer) res" where
  "readFd readv b =
     (let extrabuf_size = 65536;
          writable = writableBytes b;
          iovcnt = (if writable < extrabuf_size then 2 else 1 :: nat);
          capacity = writable + (if iovcnt = 2 then extrabuf_size else 0)
      in case readv capacity of
           Inl err \<Rightarrow> Inr (-1, Some err, b)
         | Inr bytes \<Rightarrow>
             rbind (write_at (buf_data b) (writerIndex b) (take writable bytes)) (\<lambda>d.
             let n = length bytes; b1 = b\<lparr>buf_data := d\<rparr> in
             if n \<le> writable
             then Inr (int n, None, b1\<lparr>writerIndex := uadd (writerIndex b1) n\<rparr>)
             else rbind (buffer_append (take extrabuf_size (drop writable bytes))
                           (b1\<lparr>writerIndex := length (buf_data b1)\<rparr>))
                    (\<lambda>b2. Inr (int n, None, b2))))"

text \<open>What the \<open>readv\<close> manual promises: never more bytes than the vectors hold.\<close>

definition readv_spec :: "readv_fun \<Rightarrow> bool" where
  "readv_spec readv \<longleftrightarrow> (\<forall>cap bytes. readv cap = Inr bytes \<longrightarrow> length bytes \<le> cap)"

section \<open>Invariant and abstract view\<close>

definition buffer_wf :: "buffer \<Rightarrow> bool" where
  "buffer_wf b \<longleftrightarrow>
     readerIndex b \<le> writerIndex b \<and> writerIndex b \<le> length (buf_data b) \<and>
     kCheapPrepend \<le> length (buf_data b) \<and> length (buf_data b) \<le> vec_max"

definition readable :: "buffer \<Rightarrow> string" where
  "readable b = take (writerIndex b - readerIndex b) (drop (readerIndex b) (buf_data b))"


text \<open>Shape of a well-formed buffer: the indices delimit real bytes and never wrap.\<close>

named_theorems buffer_simps "sizes of well-formed buffers"

lemma wf_bounds:
  assumes "buffer_wf b"
  shows "readerIndex b \<le> writerIndex b" and "writerIndex b \<le> length (buf_data b)"
    and "8 \<le> length (buf_data b)" and "length (buf_data b) \<le> vec_max"
    and "length (buf_data b) < size_mod" and "writerIndex b < size_mod"
    and "readerIndex b < size_mod"
  using assms by (auto simp: buffer_wf_def kCheapPrepend_def vec_max_def size_mod_def)

lemma readableBytes_wf [buffer_simps]:
  "buffer_wf b \<Longrightarrow> readableBytes b = writerIndex b - readerIndex b"
  using wf_bounds [of b] by (simp add: readableBytes_def size_simps)

lemma writableBytes_wf [buffer_simps]:
  "buffer_wf b \<Longrightarrow> writableBytes b = length (buf_data b) - writerIndex b"
  using wf_bounds [of b] by (simp add: writableBytes_def size_simps)

lemma length_readable [buffer_simps]:
  "buffer_wf b \<Longrightarrow> length (readable b) = writerIndex b - readerIndex b"
  using wf_bounds [of b] by (simp add: readable_def)

text \<open>A buffer is its front, its readable bytes and its tail.\<close>

lemma buffer_split:
  "buffer_wf b \<Longrightarrow>
     buf_data b = take (readerIndex b) (buf_data b) @ readable b @ drop (writerIndex b) (buf_data b)"
  using wf_bounds [of b]
  by (simp add: readable_def) (metis append_take_drop_id drop_drop le_add_diff_inverse2)

lemma readable_eqI:
  "buf_data b = p @ xs @ q \<Longrightarrow> readerIndex b = length p \<Longrightarrow> writerIndex b = length p + length xs \<Longrightarrow>
     readable b = xs"
  by (simp add: readable_def)

lemma take_writer: "buffer_wf b \<Longrightarrow>
     take (writerIndex b) (buf_data b) = take (readerIndex b) (buf_data b) @ readable b"
  using wf_bounds [of b]
  by (simp add: readable_def) (metis le_add_diff_inverse take_add)

lemma readableBytes_length: "buffer_wf b \<Longrightarrow> readableBytes b = length (readable b)"
  by (simp add: buffer_simps)

lemma read_readable [simp]:
  "buffer_wf b \<Longrightarrow> read_at (buf_data b) (readerIndex b) (writerIndex b - readerIndex b) = Inr (readable b)"
  using wf_bounds [of b] by (simp add: readable_def)

lemma read_prefix:
  "buffer_wf b \<Longrightarrow> n \<le> writerIndex b - readerIndex b \<Longrightarrow>
     read_at (buf_data b) (readerIndex b) n = Inr (take n (readable b))"
  using wf_bounds [of b] by (simp add: readable_def min_def)

lemma new_buffer_ok:
  assumes "n + 8 \<le> vec_max"
  shows "\<exists>b. new_buffer n = Inr b \<and> buffer_wf b \<and> readable b = [] \<and>
           writerIndex b = kCheapPrepend \<and> length (buf_data b) = n + 8"
proof -
  have "uadd kCheapPrepend n = n + 8"
    using assms by (simp add: uadd_def kCheapPrepend_def vec_max_def size_mod_def)
  then show ?thesis
    using assms by (simp add: new_buffer_def vec_resize_def buffer_wf_def readable_def kCheapPrepend_def)
qed

section \<open>Retrieving\<close>

lemma retrieveAll_wf: "buffer_wf b \<Longrightarrow> buffer_wf (retrieveAll b) \<and> readable (retrieveAll b) = []"
  by (simp add: buffer_wf_def retrieveAll_def readable_def)

lemma retrieve_ok:
  assumes wf: "buffer_wf b" and len: "len \<le> length (readable b)"
  shows "\<exists>b'. retrieve len b = Inr b' \<and> buffer_wf b' \<and> readable b' = drop len (readable b) \<and>
           writerIndex b' \<le> max kCheapPrepend (writerIndex b)"
proof (cases "len < length (readable b)")
  case True
  let ?b = "b\<lparr>readerIndex := readerIndex b + len\<rparr>"
  have u: "uadd (readerIndex b) len = readerIndex b + len"
    using wf_bounds [OF wf] True by (simp add: size_simps buffer_simps wf)
  have "buffer_wf ?b"
    using wf True by (auto simp: buffer_wf_def length_readable [OF wf])
  moreover have "readable ?b = drop len (readable b)"
    by (simp add: readable_def drop_take add.commute)
  ultimately show ?thesis
    using True u wf len by (simp add: retrieve_def buffer_simps)
next
  case False
  with assms retrieveAll_wf [OF wf] show ?thesis
    by (simp add: retrieve_def readableBytes_length retrieveAll_def)
qed

lemma retrieve_too_much: "buffer_wf b \<Longrightarrow> length (readable b) < len \<Longrightarrow> retrieve len b = Inl AssertFailed"
  by (simp add: retrieve_def readableBytes_length)

lemma retrieveUntil_ok:
  assumes "buffer_wf b" and "n \<le> length (readable b)"
  shows "\<exists>b'. retrieveUntil (peek b + n) b = Inr b' \<and> buffer_wf b' \<and> readable b' = drop n (readable b) \<and>
           writerIndex b' \<le> max kCheapPrepend (writerIndex b)"
proof -
  have "peek b + n \<le> beginWrite b"
    using assms wf_bounds [of b] by (simp add: peek_def beginWrite_def length_readable)
  then show ?thesis
    using retrieve_ok [OF assms] by (simp add: retrieveUntil_def)
qed

lemma retrieveAsString_ok:
  assumes "buffer_wf b" and "n \<le> length (readable b)"
  shows "\<exists>b'. retrieveAsString n b = Inr (take n (readable b), b') \<and> buffer_wf b' \<and>
           readable b' = drop n (readable b) \<and> writerIndex b' \<le> max kCheapPrepend (writerIndex b)"
proof -
  have "read_at (buf_data b) (peek b) n = Inr (take n (readable b))"
    unfolding peek_def by (rule read_prefix) (use assms in \<open>simp_all add: length_readable\<close>)
  then show ?thesis
    using retrieve_ok [OF assms] assms by (auto simp: retrieveAsString_def readableBytes_length)
qed

section \<open>Appending\<close>

lemma makeSpace_grow:
  assumes wf: "buffer_wf b" and len: "writerIndex b + len \<le> vec_max"
    and short: "writableBytes b < len"
    and grow: "uadd (writableBytes b) (prependableBytes b) < uadd len kCheapPrepend"
  shows "\<exists>b'. makeSpace len b = Inr b' \<and> buffer_wf b' \<and> readable b' = readable b \<and>
           len \<le> writableBytes b' \<and> writerIndex b' \<le> writerIndex b"
proof -
  let ?n = "writerIndex b + len"
  let ?b = "b\<lparr>buf_data := buf_data b @ replicate (?n - length (buf_data b)) (CHR 0x00)\<rparr>"
  have n: "length (buf_data b) \<le> ?n" and u: "uadd (writerIndex b) len = ?n"
    using wf_bounds [OF wf] short len
    by (auto simp: buffer_simps wf intro!: uadd_exact vec_max_less)
  have wf': "buffer_wf ?b" using wf len n by (simp add: buffer_wf_def)
  have "readable ?b = readable b"
    using wf_bounds [OF wf] by (simp add: readable_def)
  moreover have "len \<le> writableBytes ?b"
    using n by (simp add: writableBytes_wf [OF wf'])
  ultimately show ?thesis
    using wf' grow n len by (simp add: makeSpace_def u)
qed

text \<open>
  The other branch moves the readable bytes to the front. Its assertion
  \<open>kCheapPrepend < readerIndex_\<close> always holds there: the tail alone is too short, the tail and
  the front together are not.
\<close>

lemma makeSpace_move:
  assumes wf: "buffer_wf b" and len: "len \<le> vec_max"
    and short: "writableBytes b < len"
    and room: "\<not> uadd (writableBytes b) (prependableBytes b) < uadd len kCheapPrepend"
  shows "\<exists>b'. makeSpace len b = Inr b' \<and> buffer_wf b' \<and> readable b' = readable b \<and>
           len \<le> writableBytes b' \<and> writerIndex b' \<le> writerIndex b"
proof -
  note bounds = wf_bounds [OF wf]
  let ?r = "readerIndex b" and ?w = "writerIndex b" and ?d = "buf_data b"
  have "uadd (writableBytes b) (prependableBytes b) = length ?d - ?w + ?r"
    using bounds by (simp add: buffer_simps wf prependableBytes_def uadd_exact)
  moreover have "uadd len kCheapPrepend = len + 8"
    using len by (simp add: kCheapPrepend_def uadd_exact vec_max_add8)
  ultimately have fits: "len + 8 \<le> length ?d - ?w + ?r" using room by simp
  with short have r: "8 < ?r" by (simp add: buffer_simps wf)
  let ?d' = "take 8 ?d @ readable b @ drop (8 + length (readable b)) ?d"
  let ?b = "b\<lparr>buf_data := ?d', readerIndex := 8, writerIndex := 8 + (?w - ?r)\<rparr>"
  have l: "8 + length (readable b) \<le> length ?d"
    using bounds r by (simp add: length_readable [OF wf])
  have u: "uadd 8 (?w - ?r) = 8 + (?w - ?r)"
    using bounds r by (intro uadd_exact) simp
  have ld: "length ?d' = length ?d" using l bounds by simp
  have w: "8 + (?w - ?r) \<le> length ?d" using bounds r by arith
  have wf': "buffer_wf ?b"
    using bounds w ld by (simp only: buffer_wf_def kCheapPrepend_def buffer.simps) auto
  have "readable ?b = readable b"
    using bounds length_readable [OF wf] by (intro readable_eqI [where p = "take 8 (buf_data b)"]) simp_all
  moreover have "len \<le> writableBytes ?b"
  proof -
    have "writableBytes ?b = length ?d' - (8 + (?w - ?r))" by (simp add: writableBytes_wf [OF wf'])
    then show ?thesis using fits bounds r ld by arith
  qed
  moreover have "makeSpace len b = Inr ?b"
    using room r l u wf wf' by (simp add: makeSpace_def kCheapPrepend_def readableBytes_wf Let_def)
  moreover have "writerIndex ?b \<le> ?w" using bounds r by simp
  ultimately show ?thesis using wf' by blast
qed

lemma makeSpace_length_error:
  assumes wf: "buffer_wf b" and len: "len \<le> vec_max" "vec_max < writerIndex b + len"
    and grow: "uadd (writableBytes b) (prependableBytes b) < uadd len kCheapPrepend"
  shows "makeSpace len b = Inl LengthError"
proof -
  have "uadd (writerIndex b) len = writerIndex b + len"
    using wf_bounds [OF wf] len by (intro uadd_exact vec_max_add) simp_all
  then show ?thesis using grow len by (simp add: makeSpace_def vec_resize_def)
qed

lemma ensureWritableBytes_cases:
  assumes wf: "buffer_wf b" and len: "len \<le> vec_max"
  obtains (ok) b' where "ensureWritableBytes len b = Inr b'" "buffer_wf b'" "readable b' = readable b"
      "len \<le> writableBytes b'" "writerIndex b' \<le> writerIndex b"
  | (too_long) "ensureWritableBytes len b = Inl LengthError" "vec_max < writerIndex b + len"
proof (cases "writableBytes b < len")
  case True
  note short = True
  show thesis
  proof (cases "uadd (writableBytes b) (prependableBytes b) < uadd len kCheapPrepend")
    case grow: True
    show thesis
    proof (cases "writerIndex b + len \<le> vec_max")
      case True
      then show thesis
        using makeSpace_grow [OF wf True short grow] ok short by (auto simp: ensureWritableBytes_def)
    next
      case False
      then show thesis
        using makeSpace_length_error [OF wf len _ grow] too_long short
        by (simp add: ensureWritableBytes_def)
    qed
  next
    case False
    then show thesis
      using makeSpace_move [OF wf len short] ok short by (auto simp: ensureWritableBytes_def)
  qed
next
  case False
  with wf ok show thesis by (simp add: ensureWritableBytes_def)
qed

lemma fill_ok:
  assumes wf: "buffer_wf b" and len: "length xs \<le> writableBytes b"
  shows "write_at (buf_data b) (writerIndex b) xs =
           Inr (take (writerIndex b) (buf_data b) @ xs @ drop (writerIndex b + length xs) (buf_data b))"
    and "buffer_wf (b\<lparr>buf_data := take (writerIndex b) (buf_data b) @ xs @
                        drop (writerIndex b + length xs) (buf_data b),
                      writerIndex := writerIndex b + length xs\<rparr>)"
    and "readable (b\<lparr>buf_data := take (writerIndex b) (buf_data b) @ xs @
                        drop (writerIndex b + length xs) (buf_data b),
                      writerIndex := writerIndex b + length xs\<rparr>) = readable b @ xs"
    and "uadd (writerIndex b) (length xs) = writerIndex b + length xs"
proof -
  note bounds = wf_bounds [OF wf]
  have l: "writerIndex b + length xs \<le> length (buf_data b)"
    using len bounds by (simp add: writableBytes_wf [OF wf])
  then show "write_at (buf_data b) (writerIndex b) xs =
           Inr (take (writerIndex b) (buf_data b) @ xs @ drop (writerIndex b + length xs) (buf_data b))"
    by simp
  show "buffer_wf (b\<lparr>buf_data := take (writerIndex b) (buf_data b) @ xs @
                        drop (writerIndex b + length xs) (buf_data b),
                      writerIndex := writerIndex b + length xs\<rparr>)"
    using wf l by (simp add: buffer_wf_def)
  show "readable (b\<lparr>buf_data := take (writerIndex b) (buf_data b) @ xs @
                        drop (writerIndex b + length xs) (buf_data b),
                      writerIndex := writerIndex b + length xs\<rparr>) = readable b @ xs"
    using bounds
    by (intro readable_eqI [where p = "take (readerIndex b) (buf_data b)"])
       (simp_all add: take_writer [OF wf] length_readable [OF wf])
  show "uadd (writerIndex b) (length xs) = writerIndex b + length xs"
    using bounds l by (simp add: uadd_exact)
qed

lemma buffer_append_cases:
  assumes wf: "buffer_wf b" and len: "length xs \<le> vec_max"
  obtains (ok) b' where "buffer_append xs b = Inr b'" "buffer_wf b'" "readable b' = readable b @ xs"
      "writerIndex b' \<le> writerIndex b + length xs"
  | (too_long) "buffer_append xs b = Inl LengthError" "vec_max < writerIndex b + length xs"
proof (cases rule: ensureWritableBytes_cases [OF assms])
  case (1 b1)
  note fill = fill_ok [OF 1(2,4)]
  have "writerIndex b1 + length xs \<le> length (buf_data b1)"
    using 1 wf_bounds [OF 1(2)] by (simp add: writableBytes_wf)
  then have "length xs \<le> writableBytes (b1\<lparr>buf_data := take (writerIndex b1) (buf_data b1) @ xs @
      drop (writerIndex b1 + length xs) (buf_data b1)\<rparr>)"
    using 1(4) by (simp add: writableBytes_def)
  with 1 fill ok show thesis
    by (simp add: buffer_append_def beginWrite_def hasWritten_def)
next
  case 2
  with too_long show thesis by (simp add: buffer_append_def)
qed

lemma buffer_append_ok:
  assumes wf: "buffer_wf b" and len: "writerIndex b + length xs \<le> vec_max"
  shows "\<exists>b'. buffer_append xs b = Inr b' \<and> buffer_wf b' \<and> readable b' = readable b @ xs \<and>
           writerIndex b' \<le> writerIndex b + length xs"
proof -
  have "length xs \<le> vec_max" using len by simp
  from wf this show ?thesis
    by (cases rule: buffer_append_cases) (use len in auto)
qed

lemma buffer_append_result:
  assumes "buffer_wf b" and "length xs \<le> vec_max" and "buffer_append xs b = Inr b'"
  shows "buffer_wf b' \<and> readable b' = readable b @ xs"
  by (cases rule: buffer_append_cases [OF assms(1,2)]) (use assms(3) in auto)

lemma buffer_append_cstr_ok:
  assumes "buffer_wf b" and "writerIndex b + length (c_str xs) \<le> vec_max"
  shows "\<exists>b'. buffer_append_cstr xs b = Inr b' \<and> buffer_wf b' \<and> readable b' = readable b @ c_str xs \<and>
           writerIndex b' \<le> writerIndex b + length (c_str xs)"
  using buffer_append_ok [OF assms] by (simp add: buffer_append_cstr_def)

lemma buffer_prepend_ok:
  assumes wf: "buffer_wf b" and len: "length xs \<le> readerIndex b"
  shows "\<exists>b'. buffer_prepend xs b = Inr b' \<and> buffer_wf b' \<and> readable b' = xs @ readable b"
proof -
  note bounds = wf_bounds [OF wf]
  let ?r = "readerIndex b - length xs"
  let ?d = "take ?r (buf_data b) @ xs @ drop (readerIndex b) (buf_data b)"
  let ?b = "b\<lparr>readerIndex := ?r, buf_data := ?d\<rparr>"
  have u: "usub (readerIndex b) (length xs) = ?r"
    using bounds len by (simp add: usub_exact)
  have d: "drop (readerIndex b) (buf_data b) = readable b @ drop (writerIndex b) (buf_data b)"
    using bounds arg_cong [OF buffer_split [OF wf], of "drop (readerIndex b)"] by simp
  have "buffer_wf ?b" using wf len bounds by (auto simp: buffer_wf_def)
  moreover have "readable ?b = xs @ readable b"
    using bounds len
    by (intro readable_eqI [where p = "take ?r (buf_data b)" and q = "drop (writerIndex b) (buf_data b)"])
       (simp_all add: d length_readable [OF wf])
  moreover have "buffer_prepend xs b = Inr ?b"
    using bounds len u by (simp add: buffer_prepend_def prependableBytes_def)
  ultimately show ?thesis by blast
qed

section \<open>Searching\<close>

lemma read_all [simp]:
  "buffer_wf b \<Longrightarrow> read_at (buf_data b) (peek b) (readableBytes b) = Inr (readable b)"
  by (simp add: peek_def readableBytes_wf del: read_at_ok)

lemma beginWrite_eq: "buffer_wf b \<Longrightarrow> beginWrite b = peek b + length (readable b)"
  using wf_bounds [of b] by (simp add: beginWrite_def peek_def length_readable)

lemma findCRLF_eq:
  assumes "buffer_wf b"
  shows "findCRLF b =
    Inr (if std_search kCRLF (readable b) = length (readable b) then None
         else Some (peek b + std_search kCRLF (readable b)))"
  using assms by (simp add: findCRLF_def beginWrite_eq Let_def del: read_at_ok)

lemma findEOL_eq:
  assumes "buffer_wf b"
  shows "findEOL b =
    Inr (if CHR 0x0A \<notin> set (readable b) then None
         else Some (peek b + std_find (CHR 0x0A) (readable b)))"
  using assms by (simp add: findEOL_def Let_def std_find_length_iff del: read_at_ok)

section \<open>Reading from a socket\<close>

lemma readFd_error:
  "readv (writableBytes b + (if writableBytes b < 65536 then 65536 else 0)) = Inl err \<Longrightarrow>
     readFd readv b = Inr (-1, Some err, b)"
  by (auto simp: readFd_def Let_def)

lemma readFd_result:
  assumes wf: "buffer_wf b" and spec: "readv_spec readv"
    and rd: "readv (writableBytes b + (if writableBytes b < 65536 then 65536 else 0)) = Inr bytes"
  shows "readFd readv b = Inl LengthError \<and> vec_max < length (buf_data b) + 65536 \<or>
     (\<exists>b'. readFd readv b = Inr (int (length bytes), None, b') \<and> buffer_wf b' \<and>
           readable b' = readable b @ bytes)"
proof -
  let ?w = "writableBytes b"
  have cap: "length bytes \<le> ?w + (if ?w < 65536 then 65536 else 0)"
    using spec rd by (auto simp: readv_spec_def)
  have call: "readv (?w + (if (if ?w < 65536 then 2 else (1::nat)) = 2 then 65536 else 0)) = Inr bytes"
    using rd by (auto split: if_splits)
  show ?thesis
  proof (cases "length bytes \<le> ?w")
    case True
    then have eq: "take ?w bytes = bytes" by simp
    show ?thesis
      unfolding readFd_def Let_def call using fill_ok [OF wf True] True eq by simp
  next
    case False
    let ?xs = "take ?w bytes"
    let ?d = "take (writerIndex b) (buf_data b) @ ?xs @ drop (writerIndex b + length ?xs) (buf_data b)"
    let ?b1 = "b\<lparr>buf_data := ?d, writerIndex := writerIndex b + length ?xs\<rparr>"
    have len: "length ?xs = ?w" using False by simp
    note fill = fill_ok [OF wf, of ?xs]
    have ld: "length ?d = length (buf_data b)" "writerIndex b + ?w = length (buf_data b)"
      using wf_bounds [OF wf] len by (simp_all add: writableBytes_wf [OF wf])
    have extra: "take 65536 (drop ?w bytes) = drop ?w bytes"
      using cap by (auto split: if_splits)
    have b1: "b\<lparr>buf_data := ?d, writerIndex := length ?d\<rparr> = ?b1"
      using ld len by simp
    have call': "readFd readv b =
        rbind (buffer_append (drop ?w bytes) ?b1) (\<lambda>b2. Inr (int (length bytes), None, b2))"
      unfolding readFd_def Let_def call using False fill(1) len extra b1 by simp
    have small: "length (drop ?w bytes) \<le> 65536" using cap by (auto split: if_splits)
    then have "length (drop ?w bytes) \<le> vec_max" by (simp add: vec_max_def)
    with fill(2) [OF eq_refl [OF len]] show ?thesis
    proof (cases rule: buffer_append_cases)
      case (ok b2)
      have "readable b2 = readable b @ bytes" using ok(3) fill(3) len by simp
      with ok call' show ?thesis by simp
    next
      case too_long
      then show ?thesis using call' small ld len by simp
    qed
  qed
qed

lemma readFd_ok:
  assumes "buffer_wf b" and "readv_spec readv"
    and "readv (writableBytes b + (if writableBytes b < 65536 then 65536 else 0)) = Inr bytes"
    and "length (buf_data b) + 65536 \<le> vec_max"
  shows "\<exists>b'. readFd readv b = Inr (int (length bytes), None, b') \<and> buffer_wf b' \<and>
           readable b' = readable b @ bytes"
  using readFd_result [OF assms(1-3)] assms(4) by auto


section \<open>Shrinking\<close>

text \<open>
  \<open>swap\<close> exchanges the storage and the reader indices, but then exchanges this buffer's writer
  index with the other buffer's \<^emph>\<open>reader\<close> index. \<open>shrink\<close> ends in that call.
\<close>

lemma ensureWritableBytes_reader:
  "ensureWritableBytes len b = Inr b' \<Longrightarrow> readerIndex b = kCheapPrepend \<Longrightarrow> readerIndex b' = kCheapPrepend"
  by (auto simp: ensureWritableBytes_def makeSpace_def res_simps Let_def split: if_splits)

lemma buffer_append_reader:
  "buffer_append xs b = Inr b' \<Longrightarrow> readerIndex b = kCheapPrepend \<Longrightarrow> readerIndex b' = kCheapPrepend"
  by (auto simp: buffer_append_def hasWritten_def res_simps dest: ensureWritableBytes_reader)

lemma append_in_place:
  assumes "buffer_wf b" "length xs \<le> writableBytes b"
  shows "\<exists>b'. buffer_append xs b = Inr b' \<and> buffer_wf b' \<and> length (buf_data b') = length (buf_data b)"
proof -
  have "writerIndex b + length xs \<le> length (buf_data b)"
    using assms wf_bounds [OF assms(1)] by (simp add: writableBytes_wf)
  moreover from this have "uadd (writerIndex b) (length xs) = writerIndex b + length xs"
    using wf_bounds [OF assms(1)] by (simp add: uadd_exact)
  ultimately show ?thesis
    using fill_ok [OF assms] assms wf_bounds [OF assms(1)]
    by (simp add: buffer_append_def ensureWritableBytes_def beginWrite_def hasWritten_def writableBytes_def)
qed

lemma shrink_result:
  assumes wf: "buffer_wf b" and len: "length (readable b) + reserve \<le> vec_max"
  shows "shrink reserve b = Inl LengthError \<and> vec_max < kCheapPrepend + length (readable b) + reserve \<or>
    (\<exists>b'. shrink reserve b = Inr b' \<and> readerIndex b' = kCheapPrepend \<and> writerIndex b' = readerIndex b \<and>
       kCheapPrepend + kInitialSize \<le> length (buf_data b') \<and> length (buf_data b') \<le> vec_max)"
proof -
  let ?n = "length (readable b)"
  have "kInitialSize + 8 \<le> vec_max" by (simp add: kInitialSize_def vec_max_def)
  from new_buffer_ok [OF this] obtain other where o: "new_buffer kInitialSize = Inr other"
      "buffer_wf other" "writerIndex other = kCheapPrepend" "length (buf_data other) = kInitialSize + 8" by blast
  then have r: "readerIndex other = kCheapPrepend" by (auto simp: new_buffer_def res_simps)
  have u: "uadd (readableBytes b) reserve = ?n + reserve"
    using len wf by (simp add: readableBytes_length uadd_exact vec_max_less)
  from o(2) len show ?thesis
  proof (cases rule: ensureWritableBytes_cases)
    case (ok o1)
    have big: "kInitialSize + 8 \<le> length (buf_data o1)"
    proof (cases "writableBytes other < ?n + reserve")
      case True
      then have "kInitialSize < ?n + reserve" using o by (simp add: writableBytes_wf kCheapPrepend_def)
      moreover have "readerIndex o1 = kCheapPrepend" by (rule ensureWritableBytes_reader [OF ok(1) r])
      ultimately show ?thesis using ok(2,4) wf_bounds [OF ok(2)] by (simp add: writableBytes_wf kCheapPrepend_def)
    next
      case False
      then have "o1 = other" using ok(1,4) by (simp add: ensureWritableBytes_def)
      then show ?thesis using o(4) by simp
    qed
    have "length (readable b) \<le> writableBytes o1" using ok(4) by simp
    from append_in_place [OF ok(2) this] obtain o2 where o2: "buffer_append (readable b) o1 = Inr o2" "buffer_wf o2"
      "length (buf_data o2) = length (buf_data o1)" by blast
    have "readerIndex o2 = kCheapPrepend"
      using ensureWritableBytes_reader [OF ok(1) r] buffer_append_reader [OF o2(1)] by simp
    then show ?thesis
      using o(1) ok(1) o2 u wf big wf_bounds(4) [OF o2(2)]
      by (simp add: shrink_def buffer_swap_def kCheapPrepend_def del: read_at_ok)
  next
    case too_long
    then show ?thesis using o u by (simp add: shrink_def)
  qed
qed

lemma shrink_indices:
  assumes wf: "buffer_wf b" and room: "2 * length (readable b) + reserve + 2000 \<le> vec_max"
  shows "\<exists>b'. shrink reserve b = Inr b' \<and> readerIndex b' = kCheapPrepend \<and>
           writerIndex b' = readerIndex b"
  using shrink_result [OF wf, of reserve] room by (auto simp: kCheapPrepend_def)

section \<open>The buffer as a byte queue\<close>

definition buffer_fits :: "buffer \<Rightarrow> nat \<Rightarrow> bool" where
  "buffer_fits b n \<longleftrightarrow> max kCheapPrepend (writerIndex b) + n \<le> vec_max"

interpretation bq: byte_queue readable buffer_wf buffer_fits buffer_append retrieveAsString
proof unfold_locales
  fix b xs k
  assume "buffer_wf b" and "buffer_fits b (length (xs :: string) + k)"
  then show "\<exists>b'. buffer_append xs b = Inr b' \<and> buffer_wf b' \<and> readable b' = readable b @ xs \<and>
      buffer_fits b' k"
    using buffer_append_ok [of b xs] by (fastforce simp: buffer_fits_def)
next
  fix b n k
  assume "buffer_wf b" and "n \<le> length (readable b)" and "buffer_fits b k"
  then show "\<exists>b'. retrieveAsString n b = Inr (take n (readable b), b') \<and> buffer_wf b' \<and>
      readable b' = drop n (readable b) \<and> buffer_fits b' k"
    using retrieveAsString_ok [of b n] by (fastforce simp: buffer_fits_def)
next
  fix b n
  assume "buffer_wf b" and "length (readable b) < n"
  then show "retrieveAsString n b = Inl AssertFailed"
    by (simp add: retrieveAsString_def readableBytes_length)
qed

text \<open>A buffer that holds the given bytes and no more, for concrete runs.\<close>

definition buffer_of :: "string \<Rightarrow> buffer" where
  "buffer_of xs = \<lparr>buf_data = replicate 8 (CHR 0x00) @ xs, readerIndex = 8, writerIndex = 8 + length xs\<rparr>"

lemma buffer_of_ok:
  "length xs + 8 \<le> vec_max \<Longrightarrow> buffer_wf (buffer_of xs)" "readable (buffer_of xs) = xs"
  "writerIndex (buffer_of xs) = 8 + length xs"
  by (simp_all add: buffer_of_def buffer_wf_def readable_def kCheapPrepend_def)

section \<open>Any client\<close>

text \<open>
  Every method that changes a buffer, the private ones too; pointers are offsets. The other buffer
  of a \<open>swap\<close> is given, and what becomes of it is not followed.
\<close>

datatype buffer_op =
    BAppend string
  | BAppendCstr string
  | BPrepend string
  | BRetrieve nat
  | BRetrieveUntil nat
  | BRetrieveAll
  | BRetrieveAsString nat
  | BRetrieveAllAsString
  | BEnsureWritable nat
  | BHasWritten nat
  | BUnwrite nat
  | BReadFd readv_fun
  | BShrink nat
  | BSwap buffer

fun buffer_step :: "buffer_op \<Rightarrow> buffer \<Rightarrow> buffer res" where
  "buffer_step (BAppend xs) b = buffer_append xs b"
| "buffer_step (BAppendCstr xs) b = buffer_append_cstr xs b"
| "buffer_step (BPrepend xs) b = buffer_prepend xs b"
| "buffer_step (BRetrieve n) b = retrieve n b"
| "buffer_step (BRetrieveUntil p) b = retrieveUntil p b"
| "buffer_step BRetrieveAll b = Inr (retrieveAll b)"
| "buffer_step (BRetrieveAsString n) b = rbind (retrieveAsString n b) (\<lambda>(_, b'). Inr b')"
| "buffer_step BRetrieveAllAsString b = rbind (retrieveAllAsString b) (\<lambda>(_, b'). Inr b')"
| "buffer_step (BEnsureWritable n) b = ensureWritableBytes n b"
| "buffer_step (BHasWritten n) b = hasWritten n b"
| "buffer_step (BUnwrite n) b = unwrite n b"
| "buffer_step (BReadFd readv) b = rbind (readFd readv b) (\<lambda>(_, _, b'). Inr b')"
| "buffer_step (BShrink reserve) b = shrink reserve b"
| "buffer_step (BSwap rhs) b = Inr (fst (buffer_swap b rhs))"

text \<open>
  What is asked of a call: data and room asked for are no larger than memory (\<open>vec_max\<close>), \<open>readv\<close> keeps
  its contract, and \<open>shrink\<close> and \<open>swap\<close>, which take over the reader index of this buffer as the writer
  index, are called only when that is a place behind the new reader index and within the new vector.
\<close>

fun buffer_legal :: "buffer_op \<Rightarrow> buffer \<Rightarrow> bool" where
  "buffer_legal (BAppend xs) b = (length xs \<le> vec_max)"
| "buffer_legal (BAppendCstr xs) b = (length (c_str xs) \<le> vec_max)"
| "buffer_legal (BEnsureWritable n) b = (n \<le> vec_max)"
| "buffer_legal (BReadFd readv) b = readv_spec readv"
| "buffer_legal (BShrink reserve) b =
     (length (readable b) + reserve \<le> vec_max \<and> kCheapPrepend \<le> readerIndex b \<and> readerIndex b \<le> kCheapPrepend + kInitialSize)"
| "buffer_legal (BSwap rhs) b =
     (buffer_wf rhs \<and> readerIndex rhs \<le> readerIndex b \<and> readerIndex b \<le> length (buf_data rhs))"
| "buffer_legal _ b = True"

abbreviation keeps_wf :: "buffer res \<Rightarrow> bool" where
  "keeps_wf \<equiv> ok_or {AssertFailed, LengthError} buffer_wf"

lemma append_keeps_wf: "buffer_wf b \<Longrightarrow> length xs \<le> vec_max \<Longrightarrow> keeps_wf (buffer_append xs b)"
  by (erule (1) buffer_append_cases) simp_all

lemma retrieve_keeps_wf:
  assumes "buffer_wf b"
  shows "keeps_wf (retrieve n b)" "keeps_wf (rbind (retrieveAsString n b) (\<lambda>(_, b'). Inr b'))"
proof -
  show "keeps_wf (retrieve n b)"
  proof (cases "n \<le> length (readable b)")
    case True
    from retrieve_ok [OF assms this] show ?thesis by auto
  qed (use retrieve_too_much [OF assms] in simp)
  show "keeps_wf (rbind (retrieveAsString n b) (\<lambda>(_, b'). Inr b'))"
  proof (cases "n \<le> length (readable b)")
    case True
    from retrieveAsString_ok [OF assms this] show ?thesis by auto
  qed (use assms in \<open>simp add: retrieveAsString_def readableBytes_length\<close>)
qed

lemma indices_keep_wf:
  assumes "buffer_wf b"
  shows "keeps_wf (hasWritten n b)" "keeps_wf (unwrite n b)"
  using assms wf_bounds [OF assms]
  by (auto simp: hasWritten_def unwrite_def assertm_def buffer_simps size_simps buffer_wf_def)

lemma buffer_step_safe:
  assumes wf: "buffer_wf b" and ok: "buffer_legal op b"
  shows "keeps_wf (buffer_step op b)"
proof (cases op)
  case (BPrepend xs)
  show ?thesis
  proof (cases "length xs \<le> readerIndex b")
    case True
    from buffer_prepend_ok [OF wf this] BPrepend show ?thesis by auto
  qed (simp add: BPrepend buffer_prepend_def prependableBytes_def)
next
  case (BRetrieveUntil p)
  then show ?thesis using retrieve_keeps_wf(1) [OF wf] by (simp add: retrieveUntil_def assertm_def)
next
  case (BEnsureWritable n)
  then have "n \<le> vec_max" using ok by simp
  from wf this show ?thesis by (rule ensureWritableBytes_cases) (simp_all add: BEnsureWritable)
next
  case (BReadFd readv)
  show ?thesis
  proof (cases "readv (writableBytes b + (if writableBytes b < 65536 then 65536 else 0))")
    case (Inl err)
    from readFd_error [of readv b err, OF this] wf show ?thesis by (simp add: BReadFd)
  next
    case (Inr bytes)
    have "readv_spec readv" using ok BReadFd by simp
    from readFd_result [OF wf this Inr] show ?thesis by (auto simp: BReadFd)
  qed
next
  case (BShrink reserve)
  then show ?thesis
    using shrink_result [OF wf, of reserve] ok by (auto simp: buffer_wf_def kCheapPrepend_def)
next
  case (BSwap rhs)
  then show ?thesis using ok by (auto simp: buffer_swap_def buffer_wf_def)
qed (use wf ok append_keeps_wf retrieve_keeps_wf [OF wf] indices_keep_wf [OF wf] retrieveAll_wf [OF wf] in
  \<open>simp_all add: buffer_append_cstr_def retrieveAllAsString_def\<close>)

interpretation bm: safe_machine buffer_step buffer_legal buffer_wf "{AssertFailed, LengthError}"
  by unfold_locales (rule buffer_step_safe)

section \<open>Properties\<close>

text \<open>
  C4. Any sequence of appends and retrievals that never asks for more bytes than are readable,
  and that keeps the vector below its maximum size, runs without a failed assertion, without
  touching memory outside the vector and without throwing; the bytes retrieved, followed by those
  still readable, are exactly the bytes readable at the start followed by those appended.
\<close>

theorem buffer_fifo:
  assumes "buffer_wf b" and "bq_legal (length (readable b)) ops"
    and "buffer_fits b (length (bq_in ops))"
  shows "\<exists>out b'. bq_run buffer_append retrieveAsString ops b = Inr (out, b') \<and> buffer_wf b' \<and>
           readable b @ bq_in ops = out @ readable b'"
  by (rule bq.fifo [OF assms])

theorem buffer_fifo_witness:
  "\<exists>out b'. bq_run buffer_append retrieveAsString [App ''GET'', Ret 2, App ''xy'']
       \<lparr>buf_data = replicate 12 (CHR 0x00), readerIndex = 8, writerIndex = 8\<rparr> = Inr (out, b') \<and>
     buffer_wf b' \<and> ''GETxy'' = out @ readable b'"
proof -
  let ?b = "\<lparr>buf_data = replicate 12 (CHR 0x00), readerIndex = 8, writerIndex = 8\<rparr>"
  have wf: "buffer_wf ?b" by (simp add: buffer_wf_def kCheapPrepend_def vec_max_def)
  have "readable ?b = []" by (simp add: readable_def)
  then show ?thesis
    using buffer_fifo [OF wf, of "[App ''GET'', Ret 2, App ''xy'']"]
    by (simp add: buffer_fits_def kCheapPrepend_def vec_max_def)
qed



text \<open>
  \<open>shrink\<close> breaks the type of a buffer: one that was read to its end at a position beyond the initial
  size has its writer index outside the vector afterwards.
\<close>

theorem shrink_breaks_wf:
  assumes "buffer_wf b" "readable b = []" "kCheapPrepend + kInitialSize < readerIndex b"
  shows "\<exists>b'. shrink 0 b = Inr b' \<and> length (buf_data b') < writerIndex b'"
proof -
  have n: "readableBytes b = 0" using assms(1,2) by (simp add: readableBytes_length)
  have "read_at (buf_data b) (peek b) 0 = Inr []" using read_readable [OF assms(1)] n readableBytes_wf [OF assms(1)] assms(2) by (simp add: peek_def)
  then show ?thesis
    using assms(3) by (simp add: shrink_def n new_buffer_def vec_resize_def uadd_def size_mod_def kCheapPrepend_def kInitialSize_def
        vec_max_def ensureWritableBytes_def buffer_append_def hasWritten_def buffer_swap_def writableBytes_def usub_def beginWrite_def)
qed

text \<open>
  \<open>append\<close> on a well-formed buffer either appends exactly its argument and leaves the buffer
  well-formed, or throws \<open>length_error\<close> because the vector would pass its maximum size; in
  particular the assertions of \<open>makeSpace\<close>, \<open>ensureWritableBytes\<close> and \<open>hasWritten\<close> never fail.
\<close>

theorem buffer_append_total:
  assumes "buffer_wf b" and "length xs \<le> vec_max"
  shows "(\<exists>b'. buffer_append xs b = Inr b' \<and> buffer_wf b' \<and> readable b' = readable b @ xs) \<or>
         (buffer_append xs b = Inl LengthError \<and> vec_max < writerIndex b + length xs)"
  by (cases rule: buffer_append_cases [OF assms]) auto

theorem buffer_append_total_witness:
  "\<exists>b'. buffer_append ''ab'' \<lparr>buf_data = ''12345678xy'', readerIndex = 8, writerIndex = 10\<rparr> = Inr b' \<and>
     buffer_wf b' \<and> readable b' = ''xyab''"
proof -
  let ?b = "\<lparr>buf_data = ''12345678xy'', readerIndex = 8, writerIndex = 10\<rparr>"
  have wf: "buffer_wf ?b" by (simp add: buffer_wf_def kCheapPrepend_def vec_max_def)
  have r: "readable ?b = ''xy''" by (simp add: readable_def)
  show ?thesis
    using buffer_append_total [OF wf, of "''ab''"] unfolding r by (simp add: vec_max_def)
qed

text \<open>
  \<open>readFd\<close>, whatever the kernel delivers within the capacity of the two vectors, appends
  exactly the delivered bytes (through the 64 KiB stack buffer when the vector is too short),
  returns their number and keeps the buffer well-formed.
\<close>

theorem readFd_appends:
  assumes "buffer_wf b" and "readv_spec readv"
    and "readv (writableBytes b + (if writableBytes b < 65536 then 65536 else 0)) = Inr bytes"
    and "length (buf_data b) + 65536 \<le> vec_max"
  shows "\<exists>b'. readFd readv b = Inr (int (length bytes), None, b') \<and> buffer_wf b' \<and>
           readable b' = readable b @ bytes"
  by (rule readFd_ok [OF assms])

theorem readFd_appends_witness:
  "\<exists>b'. readFd (\<lambda>cap. Inr ''hello'') \<lparr>buf_data = ''12345678xyz'', readerIndex = 9, writerIndex = 10\<rparr> =
       Inr (5, None, b') \<and> buffer_wf b' \<and> readable b' = ''yhello''"
proof -
  let ?b = "\<lparr>buf_data = ''12345678xyz'', readerIndex = 9, writerIndex = 10\<rparr>"
  let ?rd = "(\<lambda>cap. if cap < 5 then Inl 11 else Inr ''hello'') :: readv_fun"
  have wf: "buffer_wf ?b" by (simp add: buffer_wf_def kCheapPrepend_def vec_max_def)
  have r: "readable ?b = ''y''" by (simp add: readable_def)
  have w: "writableBytes ?b = 1" by (simp add: writableBytes_def usub_def size_mod_def)
  have spec: "readv_spec ?rd" by (auto simp: readv_spec_def split: if_splits)
  have "readFd (\<lambda>cap. Inr ''hello'') ?b = readFd ?rd ?b" by (simp add: readFd_def Let_def w)
  then show ?thesis
    using readFd_appends [OF wf spec, of "''hello''"] unfolding r w by (simp add: vec_max_def)
qed

text \<open>
  \<open>shrink\<close> loses the readable bytes of a buffer whose reader index is at its usual place:
  it returns normally and leaves nothing readable, because \<open>swap\<close> exchanges the writer index
  with the other buffer's reader index.
\<close>

theorem shrink_loses_content:
  assumes "buffer_wf b" and "readerIndex b = kCheapPrepend"
    and "2 * length (readable b) + reserve + 2000 \<le> vec_max"
  shows "\<exists>b'. shrink reserve b = Inr b' \<and> readable b' = []"
  using shrink_indices [OF assms(1,3)] assms(2) by (fastforce simp: readable_def)

theorem shrink_loses_content_witness:
  "\<exists>b'. shrink 0 \<lparr>buf_data = ''12345678data'', readerIndex = 8, writerIndex = 12\<rparr> = Inr b' \<and>
     readable \<lparr>buf_data = ''12345678data'', readerIndex = 8, writerIndex = 12\<rparr> = ''data'' \<and>
     readable b' = []"
proof -
  let ?b = "\<lparr>buf_data = ''12345678data'', readerIndex = 8, writerIndex = 12\<rparr>"
  have wf: "buffer_wf ?b" by (simp add: buffer_wf_def kCheapPrepend_def vec_max_def)
  have r: "readable ?b = ''data''" by (simp add: readable_def)
  show ?thesis
    using shrink_loses_content [OF wf, of 0] unfolding r by (simp add: kCheapPrepend_def vec_max_def)
qed

end
