(* ===== verification/StdMap.thy ===== *)
theory StdMap
  imports Prelude
begin

text \<open>
  \<open>std::map\<close> with the operations the sources use: \<open>m[k] = v\<close>, \<open>find\<close>, \<open>erase\<close> and iteration
  in key order. A map is its list of bindings in increasing key order. The locale \<open>key_value\<close>
  is what a client may rely on; the ordered list provides it.
\<close>

fun map_put :: "'k::linorder \<Rightarrow> 'v \<Rightarrow> ('k \<times> 'v) list \<Rightarrow> ('k \<times> 'v) list" where
  "map_put k v [] = [(k, v)]"
| "map_put k v ((k', v') # m) =
     (if k < k' then (k, v) # (k', v') # m
      else if k = k' then (k, v) # m
      else (k', v') # map_put k v m)"

definition map_find :: "('k \<times> 'v) list \<Rightarrow> 'k \<Rightarrow> 'v option" where
  "map_find m k = map_of m k"

definition map_erase :: "'k \<Rightarrow> ('k \<times> 'v) list \<Rightarrow> ('k \<times> 'v) list" where
  "map_erase k m = filter (\<lambda>(k', v). k' \<noteq> k) m"

definition map_ok :: "('k::linorder \<times> 'v) list \<Rightarrow> bool" where
  "map_ok m \<longleftrightarrow> sorted_wrt (<) (map fst m)"

lemma map_put_keys: "set (map fst (map_put k v m)) = insert k (set (map fst m))"
  by (induction k v m rule: map_put.induct) (simp_all add: insert_commute)

lemma map_put_ok: "map_ok m \<Longrightarrow> map_ok (map_put k v m)"
proof (induction m)
  case (Cons x m)
  obtain k' v' where x: "x = (k', v')" by (cases x)
  have "\<forall>y \<in> set (map fst (map_put k v m)). k' < y" if "k' < k"
    using Cons.prems that unfolding map_put_keys by (auto simp: map_ok_def x)
  with Cons show ?case by (auto simp: map_ok_def x)
qed (simp add: map_ok_def)

lemma map_put_find: "map_find (map_put k v m) k' = (if k' = k then Some v else map_find m k')"
  by (induction m) (auto simp: map_find_def)

lemma map_erase_ok: "map_ok m \<Longrightarrow> map_ok (map_erase k m)"
  by (induction m) (auto simp: map_ok_def map_erase_def)

lemma map_erase_find: "map_find (map_erase k m) k' = (if k' = k then None else map_find m k')"
  by (induction m) (auto simp: map_find_def map_erase_def)

text \<open>Inserting the bindings of an ordered map one after the other rebuilds it.\<close>

lemma map_put_last:
  "\<forall>x \<in> set m. fst x < k \<Longrightarrow> map_put k v m = m @ [(k, v)]"
  by (induction m) auto

lemma map_put_rebuild:
  "map_ok (m @ n) \<Longrightarrow> fold (\<lambda>(k, v). map_put k v) n m = m @ n"
proof (induction n arbitrary: m)
  case (Cons x n)
  obtain k v where x: "x = (k, v)" by (cases x)
  have "\<forall>y \<in> set m. fst y < k"
    using Cons.prems by (auto simp: map_ok_def x sorted_wrt_append)
  then have "map_put k v m = m @ [x]" by (simp add: map_put_last x)
  with Cons.IH [of "m @ [x]"] Cons.prems show ?case by (simp add: x)
qed simp

locale key_value =
  fixes none :: "'m"
    and put :: "'k \<Rightarrow> 'v \<Rightarrow> 'm \<Rightarrow> 'm"
    and erase :: "'k \<Rightarrow> 'm \<Rightarrow> 'm"
    and get :: "'m \<Rightarrow> 'k \<Rightarrow> 'v option"
    and ok_map :: "'m \<Rightarrow> bool"
  assumes none_law: "ok_map none" "get none k = None"
    and put_law: "ok_map m \<Longrightarrow> ok_map (put k v m)"
      "ok_map m \<Longrightarrow> get (put k v m) k' = (if k' = k then Some v else get m k')"
    and erase_law: "ok_map m \<Longrightarrow> ok_map (erase k m)"
      "ok_map m \<Longrightarrow> get (erase k m) k' = (if k' = k then None else get m k')"
begin

lemma fold_put_ok: "ok_map m \<Longrightarrow> ok_map (fold (\<lambda>(k, v). put k v) kvs m)"
  by (induction kvs arbitrary: m) (auto intro: put_law)

lemma get_fold_put:
  "ok_map m \<Longrightarrow>
     get (fold (\<lambda>(k, v). put k v) kvs m) k =
       (case map_of (rev kvs) k of None \<Rightarrow> get m k | Some v \<Rightarrow> Some v)"
  by (induction kvs arbitrary: m)
     (auto simp: put_law map_add_def split: option.splits if_splits)

end

interpretation om: key_value "[]" map_put map_erase map_find map_ok
  by unfold_locales
     (auto simp: map_put_ok map_put_find map_erase_ok map_erase_find, auto simp: map_ok_def map_find_def)

end
