(* ===== verification/Http.thy ===== *)
theory Http
  imports NetBuffer StdMap
begin

text \<open>
  The HTTP layer: \<open>HttpRequest\<close>, \<open>HttpContext\<close> (the incremental request parser) and
  \<open>HttpResponse\<close> of \<open>net/http/\<close>. The parser loop reads lines out of a connection's input
  buffer; it is a partial function, because \<open>while (hasMore)\<close> has states in which nothing
  changes. A reference parser on strings gives its meaning: the loop refines it, it does not
  depend on how the bytes were split over reads, and it inverts the printing of a request.
\<close>

section \<open>Requests\<close>

datatype Method = kInvalid | kGet | kPost | kHead | kPut | kDelete

datatype Version = kUnknown | kHttp10 | kHttp11

record HttpRequest =
  req_method :: Method
  req_version :: Version
  req_path :: string
  req_query :: string
  req_receiveTime :: int
  req_headers :: "(string \<times> string) list"

definition new_HttpRequest :: HttpRequest where
  "new_HttpRequest = \<lparr>req_method = kInvalid, req_version = kUnknown, req_path = [], req_query = [],
     req_receiveTime = 0, req_headers = []\<rparr>"

definition setVersion :: "Version \<Rightarrow> HttpRequest \<Rightarrow> HttpRequest" where
  "setVersion v r = r\<lparr>req_version := v\<rparr>"

definition setMethod :: "string \<Rightarrow> HttpRequest \<Rightarrow> (bool \<times> HttpRequest) res" where
  "setMethod m r =
     assertm (req_method r = kInvalid)
       (let r' = r\<lparr>req_method :=
             (if m = ''GET'' then kGet
              else if m = ''POST'' then kPost
              else if m = ''HEAD'' then kHead
              else if m = ''PUT'' then kPut
              else if m = ''DELETE'' then kDelete
              else kInvalid)\<rparr>
        in Inr (req_method r' \<noteq> kInvalid, r'))"

fun methodString :: "Method \<Rightarrow> string" where
  "methodString kGet = ''GET''"
| "methodString kPost = ''POST''"
| "methodString kHead = ''HEAD''"
| "methodString kPut = ''PUT''"
| "methodString kDelete = ''DELETE''"
| "methodString kInvalid = ''UNKNOWN''"

definition setPath :: "string \<Rightarrow> HttpRequest \<Rightarrow> HttpRequest" where
  "setPath s r = r\<lparr>req_path := s\<rparr>"

definition setQuery :: "string \<Rightarrow> HttpRequest \<Rightarrow> HttpRequest" where
  "setQuery s r = r\<lparr>req_query := s\<rparr>"

definition setReceiveTime :: "int \<Rightarrow> HttpRequest \<Rightarrow> HttpRequest" where
  "setReceiveTime t r = r\<lparr>req_receiveTime := t\<rparr>"

text \<open>\<open>isspace\<close> in the C locale: the blank and the codes 9 to 13.\<close>

definition isspace :: "char \<Rightarrow> bool" where
  "isspace c \<longleftrightarrow> of_char c = (32::nat) \<or> 9 \<le> (of_char c :: nat) \<and> (of_char c :: nat) \<le> 13"

definition addHeader :: "string \<Rightarrow> nat \<Rightarrow> HttpRequest \<Rightarrow> HttpRequest" where
  "addHeader line colon r =
     (let field = take colon line;
          rest = dropWhile isspace (drop (Suc colon) line);
          val = rev (dropWhile isspace (rev rest))
      in r\<lparr>req_headers := map_put field val (req_headers r)\<rparr>)"

definition getHeader :: "string \<Rightarrow> HttpRequest \<Rightarrow> string" where
  "getHeader field r = (case map_find (req_headers r) field of None \<Rightarrow> [] | Some v \<Rightarrow> v)"

definition request_swap :: "HttpRequest \<Rightarrow> HttpRequest \<Rightarrow> HttpRequest \<times> HttpRequest" where
  "request_swap this that =
     (this\<lparr>req_method := req_method that, req_version := req_version that, req_path := req_path that,
           req_query := req_query that, req_receiveTime := req_receiveTime that,
           req_headers := req_headers that\<rparr>,
      that\<lparr>req_method := req_method this, req_version := req_version this, req_path := req_path this,
           req_query := req_query this, req_receiveTime := req_receiveTime this,
           req_headers := req_headers this\<rparr>)"

section \<open>The parser\<close>

datatype HttpRequestParseState = kExpectRequestLine | kExpectHeaders | kExpectBody | kGotAll

record HttpContext =
  ctx_state :: HttpRequestParseState
  ctx_request :: HttpRequest

definition new_HttpContext :: HttpContext where
  "new_HttpContext = \<lparr>ctx_state = kExpectRequestLine, ctx_request = new_HttpRequest\<rparr>"

definition gotAll :: "HttpContext \<Rightarrow> bool" where
  "gotAll c \<longleftrightarrow> ctx_state c = kGotAll"

definition ctx_reset :: "HttpContext \<Rightarrow> HttpContext" where
  "ctx_reset c = c\<lparr>ctx_state := kExpectRequestLine,
                   ctx_request := fst (request_swap (ctx_request c) new_HttpRequest)\<rparr>"

definition processRequestLine :: "string \<Rightarrow> HttpContext \<Rightarrow> (bool \<times> HttpContext) res" where
  "processRequestLine line c =
     (let space = std_find (CHR '' '') line in
      if space = length line then Inr (False, c)
      else rbind (setMethod (take space line) (ctx_request c)) (\<lambda>(known, r1).
        if \<not> known then Inr (False, c\<lparr>ctx_request := r1\<rparr>)
        else
          let rest = drop (Suc space) line;
              space2 = std_find (CHR '' '') rest
          in if space2 = length rest then Inr (False, c\<lparr>ctx_request := r1\<rparr>)
             else
               let target = take space2 rest;
                   question = std_find (CHR ''?'') target;
                   r2 = (if question \<noteq> length target
                         then setQuery (drop question target) (setPath (take question target) r1)
                         else setPath target r1);
                   version = drop (Suc space2) rest;
                   succeed = (length version = 8 \<and> take 7 version = ''HTTP/1.'')
               in if succeed then
                    if version ! 7 = CHR ''1'' then Inr (True, c\<lparr>ctx_request := setVersion kHttp11 r2\<rparr>)
                    else if version ! 7 = CHR ''0'' then Inr (True, c\<lparr>ctx_request := setVersion kHttp10 r2\<rparr>)
                    else Inr (False, c\<lparr>ctx_request := r2\<rparr>)
                  else Inr (False, c\<lparr>ctx_request := r2\<rparr>)))"

text \<open>One read of the line that ends at \<open>crlf\<close>.\<close>

definition line_at :: "buffer \<Rightarrow> nat \<Rightarrow> string res" where
  "line_at b crlf = read_at (buf_data b) (peek b) (crlf - peek b)"

text \<open>
  The loop of \<open>parseRequest\<close>. The result \<open>None\<close> is a loop that never ends. The variable
  \<open>ok\<close> is true at the head of every iteration, since the branch that clears it ends the loop.
\<close>

partial_function (option) parseRequest ::
    "int \<Rightarrow> HttpContext \<Rightarrow> buffer \<Rightarrow> (bool \<times> HttpContext \<times> buffer) res option" where
  "parseRequest t c b =
     (if ctx_state c = kExpectRequestLine then
        (case findCRLF b of
           Inl e \<Rightarrow> Some (Inl e)
         | Inr None \<Rightarrow> Some (Inr (True, c, b))
         | Inr (Some crlf) \<Rightarrow>
             (case rbind (line_at b crlf) (\<lambda>line. processRequestLine line c) of
                Inl e \<Rightarrow> Some (Inl e)
              | Inr (ok, c1) \<Rightarrow>
                  if ok then
                    (case retrieveUntil (crlf + 2) b of
                       Inl e \<Rightarrow> Some (Inl e)
                     | Inr b1 \<Rightarrow>
                         parseRequest t
                           (c1\<lparr>ctx_request := setReceiveTime t (ctx_request c1),
                               ctx_state := kExpectHeaders\<rparr>) b1)
                  else Some (Inr (False, c1, b))))
      else if ctx_state c = kExpectHeaders then
        (case findCRLF b of
           Inl e \<Rightarrow> Some (Inl e)
         | Inr None \<Rightarrow> Some (Inr (True, c, b))
         | Inr (Some crlf) \<Rightarrow>
             (case line_at b crlf of
                Inl e \<Rightarrow> Some (Inl e)
              | Inr line \<Rightarrow>
                  let colon = std_find (CHR '':'') line in
                  if colon \<noteq> length line then
                    (case retrieveUntil (crlf + 2) b of
                       Inl e \<Rightarrow> Some (Inl e)
                     | Inr b1 \<Rightarrow>
                         parseRequest t (c\<lparr>ctx_request := addHeader line colon (ctx_request c)\<rparr>) b1)
                  else
                    (case retrieveUntil (crlf + 2) b of
                       Inl e \<Rightarrow> Some (Inl e)
                     | Inr b1 \<Rightarrow> Some (Inr (True, c\<lparr>ctx_state := kGotAll\<rparr>, b1)))))
      else parseRequest t c b)"

section \<open>Responses\<close>

datatype HttpStatusCode = kUnknownStatus | k200Ok | k301MovedPermanently | k400BadRequest | k404NotFound

fun status_value :: "HttpStatusCode \<Rightarrow> nat" where
  "status_value kUnknownStatus = 0"
| "status_value k200Ok = 200"
| "status_value k301MovedPermanently = 301"
| "status_value k400BadRequest = 400"
| "status_value k404NotFound = 404"

record HttpResponse =
  resp_headers :: "(string \<times> string) list"
  resp_statusCode :: HttpStatusCode
  resp_statusMessage :: string
  resp_closeConnection :: bool
  resp_body :: string

definition new_HttpResponse :: "bool \<Rightarrow> HttpResponse" where
  "new_HttpResponse close = \<lparr>resp_headers = [], resp_statusCode = kUnknownStatus,
     resp_statusMessage = [], resp_closeConnection = close, resp_body = []\<rparr>"

definition setStatusCode :: "HttpStatusCode \<Rightarrow> HttpResponse \<Rightarrow> HttpResponse" where
  "setStatusCode code r = r\<lparr>resp_statusCode := code\<rparr>"

definition setStatusMessage :: "string \<Rightarrow> HttpResponse \<Rightarrow> HttpResponse" where
  "setStatusMessage m r = r\<lparr>resp_statusMessage := m\<rparr>"

definition setCloseConnection :: "bool \<Rightarrow> HttpResponse \<Rightarrow> HttpResponse" where
  "setCloseConnection on r = r\<lparr>resp_closeConnection := on\<rparr>"

definition resp_addHeader :: "string \<Rightarrow> string \<Rightarrow> HttpResponse \<Rightarrow> HttpResponse" where
  "resp_addHeader k v r = r\<lparr>resp_headers := map_put k v (resp_headers r)\<rparr>"

definition setContentType :: "string \<Rightarrow> HttpResponse \<Rightarrow> HttpResponse" where
  "setContentType t r = resp_addHeader ''Content-Type'' t r"

definition setBody :: "string \<Rightarrow> HttpResponse \<Rightarrow> HttpResponse" where
  "setBody s r = r\<lparr>resp_body := s\<rparr>"

definition appendToBuffer :: "HttpResponse \<Rightarrow> buffer \<Rightarrow> buffer res" where
  "appendToBuffer r b0 =
     rbind (buffer_append_cstr
              (snprintf_buf 32 (''HTTP/1.1 '' @ dec_nat (status_value (resp_statusCode r)) @ '' '')) b0) (\<lambda>b1.
     rbind (buffer_append_cstr (resp_statusMessage r) b1) (\<lambda>b2.
     rbind (buffer_append_cstr kCRLF b2) (\<lambda>b3.
     rbind (if resp_closeConnection r
            then buffer_append_cstr (''Connection: close'' @ kCRLF) b3
            else
              rbind (buffer_append_cstr
                       (snprintf_buf 32 (''Content-Length: '' @ dec_nat (length (resp_body r)) @ kCRLF)) b3) (\<lambda>b4.
              buffer_append_cstr (''Connection: Keep-Alive'' @ kCRLF) b4)) (\<lambda>b5.
     rbind (rfold (\<lambda>(k, v) b.
              rbind (buffer_append_cstr k b) (\<lambda>b.
              rbind (buffer_append_cstr '': '' b) (\<lambda>b.
              rbind (buffer_append_cstr v b) (\<lambda>b.
              buffer_append_cstr kCRLF b)))) (resp_headers r) b5) (\<lambda>b6.
     rbind (buffer_append_cstr kCRLF b6) (\<lambda>b7.
     buffer_append_cstr (resp_body r) b7))))))"


section \<open>The reference parser\<close>

text \<open>
  The same lines read off a string. Only the two states in which the loop makes progress are
  parsed; in any other state the reference parser stops where it is.
\<close>

function parse_spec :: "int \<Rightarrow> HttpContext \<Rightarrow> string \<Rightarrow> (bool \<times> HttpContext \<times> string) res" where
  "parse_spec t c xs =
     (let i = std_search kCRLF xs in
      if i = length xs \<or> ctx_state c \<notin> {kExpectRequestLine, kExpectHeaders} then Inr (True, c, xs)
      else if ctx_state c = kExpectRequestLine then
        (case processRequestLine (take i xs) c of
           Inl e \<Rightarrow> Inl e
         | Inr (ok, c1) \<Rightarrow>
             if ok then
               parse_spec t (c1\<lparr>ctx_request := setReceiveTime t (ctx_request c1),
                                ctx_state := kExpectHeaders\<rparr>) (drop (i + 2) xs)
             else Inr (False, c1, xs))
      else if CHR '':'' \<in> set (take i xs) then
        parse_spec t (c\<lparr>ctx_request := addHeader (take i xs) (std_find (CHR '':'') (take i xs))
                                         (ctx_request c)\<rparr>) (drop (i + 2) xs)
      else Inr (True, c\<lparr>ctx_state := kGotAll\<rparr>, drop (i + 2) xs))"
  by pat_completeness auto
termination
  by (relation "measure (\<lambda>(t, c, xs). length xs)")
     (auto simp: le_neq_implies_less [OF std_search_le] dest!: le_neq_implies_less [OF std_search_le])

declare parse_spec.simps [simp del]

lemma crlf_inside: "std_search kCRLF xs \<noteq> length xs \<Longrightarrow> std_search kCRLF xs + 2 \<le> length xs"
proof -
  assume "std_search kCRLF xs \<noteq> length xs"
  then have l: "std_search kCRLF xs < length xs" using std_search_le [of kCRLF xs] by simp
  have "take 2 (drop (std_search kCRLF xs) xs) = kCRLF"
    using std_search_found [OF l] by (simp add: starts_with_take kCRLF_def numeral_2_eq_2)
  then have "length (take 2 (drop (std_search kCRLF xs) xs)) = 2" by (simp add: kCRLF_def)
  then show ?thesis by simp
qed

lemma line_at_ok:
  "buffer_wf b \<Longrightarrow> i \<le> length (readable b) \<Longrightarrow> line_at b (peek b + i) = Inr (take i (readable b))"
  using read_prefix [of b i] by (simp add: line_at_def peek_def length_readable del: read_at_ok)

text \<open>The loop does to a well-formed buffer what the reference parser does to its readable bytes.\<close>

definition parse_agrees ::
    "(bool \<times> HttpContext \<times> buffer) res option \<Rightarrow> (bool \<times> HttpContext \<times> string) res \<Rightarrow> bool" where
  "parse_agrees impl spec \<longleftrightarrow>
     (case spec of
        Inl e \<Rightarrow> impl = Some (Inl e)
      | Inr (ok, c, xs) \<Rightarrow> \<exists>b. impl = Some (Inr (ok, c, b)) \<and> buffer_wf b \<and> readable b = xs)"

lemmas parseRequest_line = trans [OF parseRequest.simps if_P]
lemmas parseRequest_headers = trans [OF trans [OF parseRequest.simps if_not_P] if_P]

lemma parseRequest_no_line:
  assumes "buffer_wf b" and "std_search kCRLF (readable b) = length (readable b)"
    and "ctx_state c \<in> {kExpectRequestLine, kExpectHeaders}"
  shows "parseRequest t c b = Some (Inr (True, c, b))"
  using assms by (auto simp: parseRequest_line parseRequest_headers findCRLF_eq)

text \<open>What one iteration finds in the buffer when there is a complete line.\<close>

lemma complete_line:
  assumes "buffer_wf b" and "std_search kCRLF (readable b) \<noteq> length (readable b)"
  defines "i \<equiv> std_search kCRLF (readable b)"
  obtains b1 where "findCRLF b = Inr (Some (peek b + i))" "line_at b (peek b + i) = Inr (take i (readable b))"
    "retrieveUntil (peek b + i + 2) b = Inr b1" "buffer_wf b1" "readable b1 = drop (i + 2) (readable b)"
proof -
  have i: "i + 2 \<le> length (readable b)" unfolding i_def by (rule crlf_inside [OF assms(2)])
  have "findCRLF b = Inr (Some (peek b + i))" using assms by (simp add: findCRLF_eq)
  moreover have "line_at b (peek b + i) = Inr (take i (readable b))"
    using line_at_ok [OF assms(1)] i by simp
  ultimately show thesis
    using that retrieveUntil_ok [OF assms(1) i] by (auto simp: add.assoc)
qed

lemma refine_request_line:
  assumes wf: "buffer_wf b" and xs: "readable b = xs" and st: "ctx_state c = kExpectRequestLine"
    and found: "std_search kCRLF xs \<noteq> length xs"
    and rec: "\<And>c1 b1. processRequestLine (take (std_search kCRLF xs) xs) c = Inr (True, c1) \<Longrightarrow>
        buffer_wf b1 \<Longrightarrow> readable b1 = drop (std_search kCRLF xs + 2) xs \<Longrightarrow>
        parse_agrees
          (parseRequest t (c1\<lparr>ctx_request := setReceiveTime t (ctx_request c1), ctx_state := kExpectHeaders\<rparr>) b1)
          (parse_spec t (c1\<lparr>ctx_request := setReceiveTime t (ctx_request c1), ctx_state := kExpectHeaders\<rparr>)
             (drop (std_search kCRLF xs + 2) xs))"
  shows "parse_agrees (parseRequest t c b) (parse_spec t c xs)"
proof -
  let ?line = "take (std_search kCRLF xs) xs"
  obtain b1 where b1: "findCRLF b = Inr (Some (peek b + std_search kCRLF xs))"
      "line_at b (peek b + std_search kCRLF xs) = Inr ?line"
      "retrieveUntil (peek b + std_search kCRLF xs + 2) b = Inr b1" "buffer_wf b1"
      "readable b1 = drop (std_search kCRLF xs + 2) xs"
    using complete_line [OF wf] found xs by metis
  consider (fault) e where "processRequestLine ?line c = Inl e"
    | (bad) c1 where "processRequestLine ?line c = Inr (False, c1)"
    | (good) c1 where "processRequestLine ?line c = Inr (True, c1)"
    by (cases "processRequestLine ?line c") auto
  then show ?thesis
    by cases (use b1 st found wf xs rec in
      \<open>auto simp: parseRequest_line parse_spec.simps [of t c xs] parse_agrees_def [of "Some _"]\<close>)
qed

lemma refine_headers:
  assumes wf: "buffer_wf b" and xs: "readable b = xs" and st: "ctx_state c = kExpectHeaders"
    and found: "std_search kCRLF xs \<noteq> length xs"
    and rec: "\<And>b1. CHR '':'' \<in> set (take (std_search kCRLF xs) xs) \<Longrightarrow>
        buffer_wf b1 \<Longrightarrow> readable b1 = drop (std_search kCRLF xs + 2) xs \<Longrightarrow>
        parse_agrees
          (parseRequest t (c\<lparr>ctx_request := addHeader (take (std_search kCRLF xs) xs)
             (std_find (CHR '':'') (take (std_search kCRLF xs) xs)) (ctx_request c)\<rparr>) b1)
          (parse_spec t (c\<lparr>ctx_request := addHeader (take (std_search kCRLF xs) xs)
             (std_find (CHR '':'') (take (std_search kCRLF xs) xs)) (ctx_request c)\<rparr>)
             (drop (std_search kCRLF xs + 2) xs))"
  shows "parse_agrees (parseRequest t c b) (parse_spec t c xs)"
proof -
  let ?line = "take (std_search kCRLF xs) xs"
  obtain b1 where b1: "findCRLF b = Inr (Some (peek b + std_search kCRLF xs))"
      "line_at b (peek b + std_search kCRLF xs) = Inr ?line"
      "retrieveUntil (peek b + std_search kCRLF xs + 2) b = Inr b1" "buffer_wf b1"
      "readable b1 = drop (std_search kCRLF xs + 2) xs"
    using complete_line [OF wf] found xs by metis
  have colon: "std_find (CHR '':'') ?line = length ?line \<longleftrightarrow> CHR '':'' \<notin> set ?line"
    by (rule std_find_length_iff)
  show ?thesis
  proof (cases "CHR '':'' \<in> set ?line")
    case True
    with b1 st found rec [OF True b1(4,5)] colon show ?thesis
      by (simp add: parseRequest_headers [of c t b] parse_spec.simps [of t c xs] Let_def)
  next
    case False
    with b1 st found colon show ?thesis
      by (simp add: parseRequest_headers [of c t b] parse_spec.simps [of t c xs] Let_def parse_agrees_def)
  qed
qed

lemma parse_refines:
  assumes "buffer_wf b" and "readable b = xs" and "ctx_state c \<in> {kExpectRequestLine, kExpectHeaders}"
  shows "parse_agrees (parseRequest t c b) (parse_spec t c xs)"
  using assms
proof (induction t c xs arbitrary: b rule: parse_spec.induct)
  case (1 t c xs)
  show ?case
  proof (cases "std_search kCRLF xs = length xs")
    case True
    then show ?thesis
      using "1.prems" parseRequest_no_line [of b c t]
      by (auto simp: parse_spec.simps [of t c xs] parse_agrees_def)
  next
    case False
    show ?thesis
    proof (cases "ctx_state c = kExpectRequestLine")
      case True
      show ?thesis
        by (rule refine_request_line)
           (use True "1.IH"(1) [OF refl _ True _ refl] False "1.prems" in simp_all)
    next
      case hdr: False
      show ?thesis
        by (rule refine_headers) (use hdr "1.IH"(2) [OF refl _ hdr] False "1.prems" in simp_all)
    qed
  qed
qed


section \<open>Facts about single lines\<close>

definition ctx_fresh :: "HttpContext \<Rightarrow> bool" where
  "ctx_fresh c \<longleftrightarrow>
     (ctx_state c = kExpectRequestLine \<and> req_method (ctx_request c) = kInvalid) \<or>
     ctx_state c = kExpectHeaders"

lemma processRequestLine_state:
  "processRequestLine line c = Inr (ok, c1) \<Longrightarrow> ctx_state c1 = ctx_state c"
  by (auto simp: processRequestLine_def Let_def res_simps split: if_splits prod.splits)

lemma processRequestLine_asserts:
  "CHR '' '' \<in> set line \<Longrightarrow> req_method (ctx_request c) \<noteq> kInvalid \<Longrightarrow>
     processRequestLine line c = Inl AssertFailed"
  by (simp add: processRequestLine_def Let_def setMethod_def std_find_length_iff)

lemma processRequestLine_fresh:
  "req_method (ctx_request c) = kInvalid \<Longrightarrow> \<exists>ok c1. processRequestLine line c = Inr (ok, c1)"
  by (auto simp: processRequestLine_def Let_def setMethod_def)

lemma processRequestLine_method_space:
  "processRequestLine line c = Inr (ok, c1) \<Longrightarrow> req_method (ctx_request c) = kInvalid \<Longrightarrow>
     req_method (ctx_request c1) \<noteq> kInvalid \<Longrightarrow> CHR '' '' \<in> set line"
  by (auto simp: processRequestLine_def Let_def std_find_length_iff split: if_splits)

section \<open>Facts about whole parses\<close>

lemma parse_spec_total: "ctx_fresh c \<Longrightarrow> \<exists>ok c1 rest. parse_spec t c xs = Inr (ok, c1, rest)"
proof (induction t c xs rule: parse_spec.induct)
  case (1 t c xs)
  let ?line = "take (std_search kCRLF xs) xs"
  show ?case
  proof (cases "std_search kCRLF xs = length xs")
    case True
    then show ?thesis by (auto simp: parse_spec.simps [of t c xs])
  next
    case False
    show ?thesis
    proof (cases "ctx_state c = kExpectRequestLine")
      case True
      with "1.prems" have "req_method (ctx_request c) = kInvalid" by (simp add: ctx_fresh_def)
      then obtain ok c1 where p: "processRequestLine ?line c = Inr (ok, c1)"
        using processRequestLine_fresh by blast
      then show ?thesis
        using "1.IH"(1) [OF refl _ True p refl] True False
        by (cases ok) (auto simp: parse_spec.simps [of t c xs] ctx_fresh_def)
    next
      case hdr: False
      then show ?thesis
        using "1.IH"(2) [OF refl _ hdr] "1.prems" False
        by (auto simp: parse_spec.simps [of t c xs] ctx_fresh_def Let_def)
    qed
  qed
qed

lemma parse_spec_bad:
  assumes "parse_spec t c xs = Inr (False, c1, rest)"
  shows "ctx_state c = kExpectRequestLine \<and> rest = xs \<and> std_search kCRLF xs \<noteq> length xs \<and>
         processRequestLine (take (std_search kCRLF xs) xs) c = Inr (False, c1)"
proof -
  have hdr: "\<not> (parse_spec t c xs = Inr (False, c1, rest))" if "ctx_state c \<noteq> kExpectRequestLine" for c xs
    using that
  proof (induction t c xs rule: parse_spec.induct)
    case (1 t c xs)
    then show ?case by (auto simp: parse_spec.simps [of t c xs] Let_def split: if_splits)
  qed
  show ?thesis
    using assms hdr [of c xs] hdr
    by (auto simp: parse_spec.simps [of t c xs] Let_def split: if_splits sum.splits)
qed

lemma take_drop_append:
  "i + 2 \<le> length xs \<Longrightarrow> take i (xs @ ys) = take i xs \<and> drop (i + 2) (xs @ ys) = drop (i + 2) xs @ ys"
  by simp

text \<open>An unfinished parse can be continued: nothing depends on where the input was cut.\<close>

lemma parse_spec_append:
  assumes "parse_spec t c xs = Inr (True, c1, rest)" and "ctx_state c1 \<noteq> kGotAll"
  shows "parse_spec t c (xs @ ys) = parse_spec t c1 (rest @ ys)"
  using assms
proof (induction t c xs rule: parse_spec.induct)
  case (1 t c xs)
  show ?case
  proof (cases "std_search kCRLF xs = length xs \<or> ctx_state c \<notin> {kExpectRequestLine, kExpectHeaders}")
    case True
    with "1.prems" show ?thesis by (auto simp: parse_spec.simps [of t c xs])
  next
    case False
    then have l: "std_search kCRLF xs < length xs" and i: "std_search kCRLF xs + 2 \<le> length xs"
      using std_search_le [of kCRLF xs] crlf_inside [of xs] by auto
    note cut = std_search_append [OF l, of ys] take_drop_append [OF i, of ys]
    have ne: "std_search kCRLF xs \<noteq> length (xs @ ys)" using l by simp
    note unf = parse_spec.simps [of t c xs] parse_spec.simps [of t c "xs @ ys"]
    show ?thesis
    proof (cases "ctx_state c = kExpectRequestLine")
      case True
      with False "1.prems" obtain c2 where p: "processRequestLine (take (std_search kCRLF xs) xs) c = Inr (True, c2)"
        by (auto simp: unf Let_def split: sum.splits if_splits)
      with True False "1.prems" "1.IH"(1) [OF refl False True p refl] ne i show ?thesis
        by (simp add: unf cut Let_def)
    next
      case hdr: False
      with False "1.prems" show ?thesis
        using "1.IH"(2) [OF refl False hdr] ne i
        by (auto simp: unf cut Let_def split: if_splits)
    qed
  qed
qed

lemma parse_spec_done_append:
  assumes "parse_spec t c xs = Inr (True, c1, rest)" and "ctx_state c1 = kGotAll" and "ctx_state c \<noteq> kGotAll"
  shows "parse_spec t c (xs @ ys) = Inr (True, c1, rest @ ys)"
  using assms
proof (induction t c xs rule: parse_spec.induct)
  case (1 t c xs)
  from "1.prems" have go: "\<not> (std_search kCRLF xs = length xs \<or> ctx_state c \<notin> {kExpectRequestLine, kExpectHeaders})"
    by (auto simp: parse_spec.simps [of t c xs] Let_def split: if_splits)
  then have l: "std_search kCRLF xs < length xs" and i: "std_search kCRLF xs + 2 \<le> length xs"
    using std_search_le [of kCRLF xs] crlf_inside [of xs] by auto
  note cut = std_search_append [OF l, of ys] take_drop_append [OF i, of ys]
  have ne: "std_search kCRLF xs \<noteq> length (xs @ ys)" using l by simp
  note unf = parse_spec.simps [of t c xs] parse_spec.simps [of t c "xs @ ys"]
  show ?case
  proof (cases "ctx_state c = kExpectRequestLine")
    case True
    with go "1.prems" obtain c2 where p: "processRequestLine (take (std_search kCRLF xs) xs) c = Inr (True, c2)"
      by (auto simp: unf Let_def split: sum.splits if_splits)
    with True go "1.prems" "1.IH"(1) [OF refl go True p refl] ne i show ?thesis
      by (simp add: unf cut Let_def)
  next
    case hdr: False
    with go "1.prems" show ?thesis
      using "1.IH"(2) [OF refl go hdr] ne i by (auto simp: unf cut Let_def split: if_splits)
  qed
qed

lemma parse_spec_bad_append:
  assumes "parse_spec t c xs = Inr (False, c1, rest)"
  shows "parse_spec t c (xs @ ys) = Inr (False, c1, rest @ ys)"
proof -
  note bad = parse_spec_bad [OF assms]
  then have l: "std_search kCRLF xs < length xs" using std_search_le [of kCRLF xs] by (simp add: le_neq_implies_less)
  with bad show ?thesis
    by (simp add: parse_spec.simps [of t c "xs @ ys"] std_search_append [OF l, of ys])
qed

text \<open>A parse that goes on leaves a context as it should be, or a whole request.\<close>

lemma parse_spec_ok_context:
  assumes "parse_spec t c xs = Inr (True, c1, rest)" "ctx_fresh c"
  shows "ctx_fresh c1 \<or> gotAll c1"
  using assms
proof (induction t c xs rule: parse_spec.induct)
  case (1 t c xs)
  show ?case
    using "1.prems" "1.IH"
    by (auto simp: parse_spec.simps [of t c xs] Let_def ctx_fresh_def gotAll_def split: sum.splits if_splits)
qed

text \<open>While a request is on its way, every prefix of it leaves the parser waiting for the rest.\<close>

lemma parse_spec_prefix:
  assumes "parse_spec t c (xs @ ys) = Inr (True, c2, [])" and "ys \<noteq> []" and "ctx_fresh c"
  obtains c1 rest where "parse_spec t c xs = Inr (True, c1, rest)" "ctx_fresh c1" "\<not> gotAll c1"
    "parse_spec t c1 (rest @ ys) = Inr (True, c2, [])"
proof -
  obtain ok c1 rest where p: "parse_spec t c xs = Inr (ok, c1, rest)"
    using parse_spec_total [OF assms(3)] by blast
  have ok using parse_spec_bad_append [of t c xs c1 rest ys] p assms(1) by (cases ok) auto
  with p have p: "parse_spec t c xs = Inr (True, c1, rest)" by simp
  have "ctx_state c \<noteq> kGotAll" using assms(3) by (auto simp: ctx_fresh_def)
  then have st: "ctx_state c1 \<noteq> kGotAll" using parse_spec_done_append [OF p] assms(1,2) by fastforce
  then have "ctx_fresh c1" using parse_spec_ok_context [OF p assms(3)] by (simp add: gotAll_def)
  with p st that show thesis using parse_spec_append [OF p st, of ys] assms(1) by (simp add: gotAll_def)
qed

lemma parse_spec_time: "ctx_state c = kExpectHeaders \<Longrightarrow> parse_spec t c xs = parse_spec t' c xs"
proof (induction t c xs rule: parse_spec.induct)
  case (1 t c xs)
  show ?case
  proof (cases "std_search kCRLF xs = length xs")
    case True
    then show ?thesis by (simp add: parse_spec.simps [of t c xs] parse_spec.simps [of t' c xs])
  next
    case False
    then show ?thesis
      using "1.prems" "1.IH"(2) [OF refl] by (simp add: parse_spec.simps [of t c xs] parse_spec.simps [of t' c xs] Let_def)
  qed
qed

lemma parse_spec_past_line:
  "parse_spec t c xs = Inr (ok, c1, rest) \<Longrightarrow> ctx_state c = kExpectHeaders \<Longrightarrow> ctx_state c1 \<noteq> kExpectRequestLine"
proof (induction t c xs rule: parse_spec.induct)
  case (1 t c xs)
  then show ?case by (auto simp: parse_spec.simps [of t c xs] Let_def split: if_splits)
qed

lemma parse_spec_no_line:
  assumes "parse_spec t c xs = Inr (True, c1, rest)" "ctx_state c1 = kExpectRequestLine"
  shows "c1 = c \<and> rest = xs"
proof (cases "ctx_state c = kExpectRequestLine \<and> std_search kCRLF xs \<noteq> length xs")
  case True
  with assms obtain c2 where "parse_spec t (c2\<lparr>ctx_state := kExpectHeaders\<rparr>) (drop (std_search kCRLF xs + 2) xs) = Inr (True, c1, rest)"
    by (auto simp: parse_spec.simps [of t c xs] Let_def split: sum.splits if_splits)
  from parse_spec_past_line [OF this] assms(2) show ?thesis by simp
next
  case False
  with assms show ?thesis
    using parse_spec_past_line [OF assms(1)] by (auto simp: parse_spec.simps [of t c xs] Let_def split: if_splits)
qed

lemma parse_spec_state:
  assumes "parse_spec t c xs = Inr (ok, c1, rest)"
    and "ctx_state c \<in> {kExpectRequestLine, kExpectHeaders}"
  shows "ctx_state c1 \<in> {kExpectRequestLine, kExpectHeaders, kGotAll}"
  using assms
proof (induction t c xs rule: parse_spec.induct)
  case (1 t c xs)
  show ?case
    using "1.prems" "1.IH" processRequestLine_state
    by (auto simp: parse_spec.simps [of t c xs] Let_def split: sum.splits if_splits)
qed

text \<open>In the two states the loop does not handle, it never ends.\<close>

lemma parseRequest_stuck:
  assumes "parseRequest t c b = Some r"
  shows "ctx_state c \<in> {kExpectRequestLine, kExpectHeaders}"
  by (rule parseRequest.raw_induct
        [where P = "\<lambda>t c b r. ctx_state c \<in> {kExpectRequestLine, kExpectHeaders}", OF _ assms])
     (auto split: if_splits)


section \<open>Printing a request\<close>

fun versionString :: "Version \<Rightarrow> string" where
  "versionString kHttp10 = ''HTTP/1.0''"
| "versionString kHttp11 = ''HTTP/1.1''"
| "versionString kUnknown = ''UNKNOWN''"

definition render_line :: "HttpRequest \<Rightarrow> string" where
  "render_line r = methodString (req_method r) @ '' '' @ req_path r @ req_query r @ '' '' @
     versionString (req_version r)"

definition render_header :: "string \<times> string \<Rightarrow> string" where
  "render_header kv = fst kv @ '': '' @ snd kv"

definition render_request :: "HttpRequest \<Rightarrow> string" where
  "render_request r = render_line r @ kCRLF @
     concat (map (\<lambda>kv. render_header kv @ kCRLF) (req_headers r)) @ kCRLF"

definition header_ok :: "string \<times> string \<Rightarrow> bool" where
  "header_ok kv \<longleftrightarrow> CHR '':'' \<notin> set (fst kv) \<and> CHR 0x0D \<notin> set (fst kv) \<and> CHR 0x0D \<notin> set (snd kv) \<and>
     (snd kv = [] \<or> \<not> isspace (hd (snd kv)) \<and> \<not> isspace (last (snd kv)))"

definition request_ok :: "HttpRequest \<Rightarrow> bool" where
  "request_ok r \<longleftrightarrow>
     req_method r \<noteq> kInvalid \<and> req_version r \<noteq> kUnknown \<and>
     set (req_path r) \<inter> {CHR '' '', CHR ''?'', CHR 0x0D} = {} \<and>
     set (req_query r) \<inter> {CHR '' '', CHR 0x0D} = {} \<and>
     (req_query r = [] \<or> hd (req_query r) = CHR ''?'') \<and>
     map_ok (req_headers r) \<and> list_all header_ok (req_headers r)"

lemma search_line:
  "CHR 0x0D \<notin> set xs \<Longrightarrow> std_search kCRLF (xs @ kCRLF @ ys) = length xs"
  by (induction xs) (auto simp: kCRLF_def)

lemma line_parts:
  assumes "CHR 0x0D \<notin> set xs"
  shows "std_search kCRLF (xs @ kCRLF @ ys) \<noteq> length (xs @ kCRLF @ ys)"
    and "take (std_search kCRLF (xs @ kCRLF @ ys)) (xs @ kCRLF @ ys) = xs"
    and "drop (std_search kCRLF (xs @ kCRLF @ ys) + 2) (xs @ kCRLF @ ys) = ys"
  using search_line [OF assms, of ys] by (simp_all add: kCRLF_def)

lemma addHeader_render:
  assumes "header_ok kv"
  shows "addHeader (render_header kv) (std_find (CHR '':'') (render_header kv)) r =
     r\<lparr>req_headers := map_put (fst kv) (snd kv) (req_headers r)\<rparr>"
proof -
  obtain k v where kv: "kv = (k, v)" by (cases kv)
  have "isspace (CHR '' '')" by (simp add: isspace_def)
  then have lead: "dropWhile isspace (CHR '' '' # v) = v"
    using assms by (cases v) (auto simp: header_ok_def kv)
  have "dropWhile isspace (rev v) = rev v"
    using assms by (cases v rule: rev_cases) (auto simp: header_ok_def kv)
  moreover have "std_find (CHR '':'') (k @ CHR '':'' # CHR '' '' # v) = length k"
    using assms by (intro std_find_append_notin) (simp add: header_ok_def kv)
  ultimately show ?thesis
    using lead by (simp add: addHeader_def render_header_def kv Let_def)
qed

lemma parse_headers:
  assumes "list_all header_ok hs" and "ctx_state c = kExpectHeaders"
  shows "parse_spec t c (concat (map (\<lambda>kv. render_header kv @ kCRLF) hs) @ kCRLF @ rest) =
     Inr (True, c\<lparr>ctx_state := kGotAll, ctx_request := (ctx_request c)\<lparr>req_headers :=
            fold (\<lambda>(k, v). map_put k v) hs (req_headers (ctx_request c))\<rparr>\<rparr>, rest)"
  using assms
proof (induction hs arbitrary: c)
  case Nil
  have "parse_spec t c (kCRLF @ rest) = Inr (True, c\<lparr>ctx_state := kGotAll\<rparr>, rest)"
  proof -
    have z: "std_search kCRLF (kCRLF @ rest) = 0" by (simp add: kCRLF_def)
    show ?thesis
      unfolding parse_spec.simps [of t c "kCRLF @ rest"] Let_def z using Nil by (simp add: kCRLF_def)
  qed
  then show ?case by simp
next
  case (Cons kv hs)
  let ?ys = "concat (map (\<lambda>kv. render_header kv @ kCRLF) hs) @ kCRLF @ rest"
  let ?xs = "render_header kv @ kCRLF @ ?ys"
  have kv: "header_ok kv" "CHR 0x0D \<notin> set (render_header kv)" "CHR '':'' \<in> set (render_header kv)"
    using Cons.prems by (auto simp: header_ok_def render_header_def)
  have "parse_spec t c ?xs = parse_spec t (c\<lparr>ctx_request := (ctx_request c)\<lparr>req_headers :=
      map_put (fst kv) (snd kv) (req_headers (ctx_request c))\<rparr>\<rparr>) ?ys"
    unfolding parse_spec.simps [of t c ?xs] Let_def
    using Cons.prems kv line_parts [OF kv(2), of ?ys] by (simp add: addHeader_render)
  then show ?case
    using Cons by (simp add: case_prod_beta)
qed

lemma setMethod_string:
  "m \<noteq> kInvalid \<Longrightarrow> req_method r = kInvalid \<Longrightarrow> setMethod (methodString m) r = Inr (True, r\<lparr>req_method := m\<rparr>)"
  by (cases m) (simp_all add: setMethod_def)

lemma methodString_chars: "CHR '' '' \<notin> set (methodString m) \<and> CHR 0x0D \<notin> set (methodString m)"
  by (cases m) simp_all

lemma processRequestLine_render:
  assumes ok: "request_ok r" and c: "req_method (ctx_request c) = kInvalid"
    "req_query (ctx_request c) = []"
  shows "processRequestLine (render_line r) c =
     Inr (True, c\<lparr>ctx_request := (ctx_request c)\<lparr>req_method := req_method r, req_path := req_path r,
            req_query := req_query r, req_version := req_version r\<rparr>\<rparr>)"
proof -
  let ?target = "req_path r @ req_query r"
  let ?rest = "?target @ CHR '' '' # versionString (req_version r)"
  have line: "render_line r = methodString (req_method r) @ CHR '' '' # ?rest"
    by (simp add: render_line_def)
  have sp1: "std_find (CHR '' '') (render_line r) = length (methodString (req_method r))"
    unfolding line by (rule std_find_append_notin) (simp add: methodString_chars)
  have sp2: "std_find (CHR '' '') ?rest = length ?target"
    using ok by (intro std_find_append_notin) (auto simp: request_ok_def)
  have v: "length (versionString (req_version r)) = 8" "take 7 (versionString (req_version r)) = ''HTTP/1.''"
    "versionString (req_version r) ! 7 = CHR ''1'' \<longleftrightarrow> req_version r = kHttp11"
    "versionString (req_version r) ! 7 = CHR ''0'' \<longleftrightarrow> req_version r = kHttp10"
    "req_version r = kHttp10 \<or> req_version r = kHttp11"
    using ok by (cases "req_version r"; simp add: request_ok_def)+
  have q: "std_find (CHR ''?'') ?target = length (req_path r)"
    using ok std_find_append_notin [of "CHR ''?''" "req_path r" "tl (req_query r)"]
    by (cases "req_query r") (auto simp: request_ok_def std_find_length_iff)
  have m: "setMethod (methodString (req_method r)) (ctx_request c) =
      Inr (True, (ctx_request c)\<lparr>req_method := req_method r\<rparr>)"
    using ok c by (simp add: setMethod_string request_ok_def)
  have parts1: "take (length (methodString (req_method r))) (render_line r) = methodString (req_method r)"
    "drop (Suc (length (methodString (req_method r)))) (render_line r) = ?rest"
    "length (methodString (req_method r)) \<noteq> length (render_line r)"
    by (simp_all add: line)
  have parts2: "take (length ?target) ?rest = ?target" "length ?target \<noteq> length ?rest"
    "drop (Suc (length ?target)) ?rest = versionString (req_version r)" by simp_all
  have parts3: "take (length (req_path r)) ?target = req_path r"
    "drop (length (req_path r)) ?target = req_query r"
    "length (req_path r) = length ?target \<longleftrightarrow> req_query r = []" by simp_all
  show ?thesis
    unfolding processRequestLine_def Let_def sp1 parts1 m rbind.simps prod.case sp2 parts2 q parts3
    using parts1(3) parts2(2) v c
    by (cases "req_query r = []"; cases "req_version r") (simp_all add: setVersion_def setPath_def setQuery_def)
qed

lemma parse_spec_render:
  assumes "request_ok r"
  shows "parse_spec (req_receiveTime r) new_HttpContext (render_request r @ rest) =
     Inr (True, \<lparr>ctx_state = kGotAll, ctx_request = r\<rparr>, rest)"
proof -
  let ?ys = "concat (map (\<lambda>kv. render_header kv @ kCRLF) (req_headers r)) @ kCRLF @ rest"
  let ?xs = "render_line r @ kCRLF @ ?ys" and ?c = new_HttpContext
  have cr: "CHR 0x0D \<notin> set (render_line r)"
    using assms methodString_chars [of "req_method r"]
    by (cases "req_version r") (auto simp: render_line_def request_ok_def)
  have hs: "list_all header_ok (req_headers r)" "fold (\<lambda>(k, v). map_put k v) (req_headers r) [] = req_headers r"
    using assms map_put_rebuild [of "[]"] by (auto simp: request_ok_def)
  have "processRequestLine (render_line r) ?c =
      Inr (True, ?c\<lparr>ctx_request := (ctx_request ?c)\<lparr>req_method := req_method r, req_path := req_path r,
            req_query := req_query r, req_version := req_version r\<rparr>\<rparr>)"
    by (rule processRequestLine_render [OF assms]) (simp_all add: new_HttpContext_def new_HttpRequest_def)
  then have "parse_spec (req_receiveTime r) ?c ?xs =
      Inr (True, \<lparr>ctx_state = kGotAll, ctx_request = r\<rparr>, rest)"
    unfolding parse_spec.simps [of _ ?c ?xs] Let_def
    using line_parts [OF cr, of ?ys] parse_headers [OF hs(1)] hs(2)
    by (simp add: new_HttpContext_def new_HttpRequest_def setReceiveTime_def)
  then show ?thesis by (simp add: render_request_def)
qed


section \<open>Printing a response\<close>

definition response_head :: "HttpResponse \<Rightarrow> string" where
  "response_head r =
     ''HTTP/1.1 '' @ dec_nat (status_value (resp_statusCode r)) @ '' '' @ c_str (resp_statusMessage r) @ kCRLF @
     (if resp_closeConnection r then ''Connection: close'' @ kCRLF
      else snprintf_buf 32 (''Content-Length: '' @ dec_nat (length (resp_body r)) @ kCRLF) @
           ''Connection: Keep-Alive'' @ kCRLF) @
     concat (map (\<lambda>(k, v). c_str k @ '': '' @ c_str v @ kCRLF) (resp_headers r))"

definition response_bytes :: "HttpResponse \<Rightarrow> string" where
  "response_bytes r = response_head r @ kCRLF @ c_str (resp_body r)"

lemma status_line_c_str:
  "c_str (snprintf_buf 32 (''HTTP/1.1 '' @ dec_nat (status_value s) @ '' '')) =
     ''HTTP/1.1 '' @ dec_nat (status_value s) @ '' ''"
proof -
  have "status_value s < 10 ^ 3" by (cases s) simp_all
  from length_dec_nat [OF this] have "length (dec_nat (status_value s)) \<le> 3" by simp
  then show ?thesis
    by (simp add: snprintf_buf_def) (intro c_str_id, simp add: dec_nat_no_nul)
qed

lemma content_length_c_str:
  "c_str (snprintf_buf 32 (''Content-Length: '' @ dec_nat n @ kCRLF)) =
     snprintf_buf 32 (''Content-Length: '' @ dec_nat n @ kCRLF)"
  by (rule c_str_take) (simp add: dec_nat_no_nul kCRLF_def)

text \<open>Appends of C strings one after the other, as one step on the readable bytes.\<close>

definition appends :: "string \<Rightarrow> buffer \<Rightarrow> (buffer \<Rightarrow> buffer res) \<Rightarrow> bool" where
  "appends xs b f \<longleftrightarrow>
     (\<exists>b'. f b = Inr b' \<and> buffer_wf b' \<and> readable b' = readable b @ xs \<and>
           writerIndex b' \<le> writerIndex b + length xs)"

lemma appends_cstr:
  "buffer_wf b \<Longrightarrow> writerIndex b + length (c_str xs) \<le> vec_max \<Longrightarrow> appends (c_str xs) b (buffer_append_cstr xs)"
  using buffer_append_cstr_ok unfolding appends_def by blast

lemma appends_bind:
  assumes "appends xs b f"
    and "\<And>b1. buffer_wf b1 \<Longrightarrow> writerIndex b1 \<le> writerIndex b + length xs \<Longrightarrow> appends ys b1 g"
  shows "appends (xs @ ys) b (\<lambda>b. rbind (f b) g)"
  using assms unfolding appends_def by fastforce


definition append_header :: "string \<times> string \<Rightarrow> buffer \<Rightarrow> buffer res" where
  "append_header = (\<lambda>(k, v) b.
      rbind (buffer_append_cstr k b) (\<lambda>b.
      rbind (buffer_append_cstr '': '' b) (\<lambda>b.
      rbind (buffer_append_cstr v b) (\<lambda>b.
      buffer_append_cstr kCRLF b))))"

lemma c_str_CRLF [simp]: "c_str kCRLF = kCRLF"
  by (simp add: kCRLF_def)

lemma appends_header:
  assumes "buffer_wf b" and "writerIndex b + length (c_str k @ '': '' @ c_str v @ kCRLF) \<le> vec_max"
  shows "appends (c_str k @ c_str '': '' @ c_str v @ c_str kCRLF) b (append_header (k, v))"
  unfolding append_header_def prod.case
  by (intro appends_bind appends_cstr) (use assms in auto)

lemma appends_headers:
  assumes "buffer_wf b"
    and "writerIndex b + length (concat (map (\<lambda>(k, v). c_str k @ '': '' @ c_str v @ kCRLF) hs)) \<le> vec_max"
  shows "appends (concat (map (\<lambda>(k, v). c_str k @ '': '' @ c_str v @ kCRLF) hs)) b (rfold append_header hs)"
  using assms
proof (induction hs arbitrary: b)
  case Nil
  then show ?case by (simp add: appends_def)
next
  case (Cons kv hs)
  obtain k v where kv: "kv = (k, v)" by (cases kv)
  have "appends ((c_str k @ c_str '': '' @ c_str v @ c_str kCRLF) @
      concat (map (\<lambda>(k, v). c_str k @ '': '' @ c_str v @ kCRLF) hs)) b
      (\<lambda>b. rbind (append_header (k, v) b) (rfold append_header hs))"
    by (rule appends_bind [OF appends_header]) (use Cons in \<open>auto simp: kv\<close>)
  then show ?case by (simp add: kv)
qed

lemma appendToBuffer_appends:
  assumes "buffer_wf b" and "writerIndex b + length (response_bytes r) \<le> vec_max"
  shows "appends (response_bytes r) b (appendToBuffer r)"
proof -
  let ?s = "snprintf_buf 32 (''HTTP/1.1 '' @ dec_nat (status_value (resp_statusCode r)) @ '' '')"
  let ?l = "snprintf_buf 32 (''Content-Length: '' @ dec_nat (length (resp_body r)) @ kCRLF)"
  let ?close = "''Connection: close'' @ kCRLF" and ?keep = "''Connection: Keep-Alive'' @ kCRLF"
  let ?conn = "\<lambda>b. if resp_closeConnection r then buffer_append_cstr ?close b
      else rbind (buffer_append_cstr ?l b) (buffer_append_cstr ?keep)"
  let ?cs = "if resp_closeConnection r then c_str ?close else c_str ?l @ c_str ?keep"
  let ?hs = "concat (map (\<lambda>(k, v). c_str k @ '': '' @ c_str v @ kCRLF) (resp_headers r))"
  have eq: "response_bytes r = c_str ?s @ c_str (resp_statusMessage r) @ c_str kCRLF @ ?cs @ ?hs @
      c_str kCRLF @ c_str (resp_body r)"
  proof -
    have c: "c_str ?close = ?close" "c_str ?keep = ?keep" by (simp_all add: kCRLF_def)
    show ?thesis
      unfolding response_bytes_def response_head_def status_line_c_str content_length_c_str c c_str_CRLF
      by simp
  qed
  have conn: "appends ?cs b' ?conn" if "buffer_wf b'" "writerIndex b' + length ?cs \<le> vec_max" for b'
    using that by (cases "resp_closeConnection r") (auto intro!: appends_bind appends_cstr)
  have "appends (c_str ?s @ c_str (resp_statusMessage r) @ c_str kCRLF @ ?cs @ ?hs @
      c_str kCRLF @ c_str (resp_body r)) b
     (\<lambda>b. rbind (buffer_append_cstr ?s b) (\<lambda>b. rbind (buffer_append_cstr (resp_statusMessage r) b) (\<lambda>b.
      rbind (buffer_append_cstr kCRLF b) (\<lambda>b. rbind (?conn b) (\<lambda>b. rbind (rfold append_header (resp_headers r) b)
      (\<lambda>b. rbind (buffer_append_cstr kCRLF b) (buffer_append_cstr (resp_body r))))))))"
    by (intro appends_bind appends_cstr appends_headers conn)
       (use assms in \<open>auto simp: eq simp del: c_str_CRLF\<close>)
  then show ?thesis
    unfolding eq by (simp add: appends_def appendToBuffer_def append_header_def)
qed


section \<open>Properties\<close>

text \<open>What a caller sees of a parse: the verdict, the context and the bytes left to read.\<close>

definition parse_view ::
    "(bool \<times> HttpContext \<times> buffer) res option \<Rightarrow> (bool \<times> HttpContext \<times> string) res option" where
  "parse_view = map_option (map_sum id (\<lambda>(ok, c, b). (ok, c, readable b)))"

lemma parse_agrees_view: "parse_agrees impl spec \<Longrightarrow> parse_view impl = Some spec"
  by (auto simp: parse_agrees_def parse_view_def split: sum.splits prod.splits)

lemma parse_agrees_Inr:
  assumes "parse_agrees (Some (Inr (ok, c, b))) spec"
  shows "spec = Inr (ok, c, readable b)" and "buffer_wf b"
  using assms by (auto simp: parse_agrees_def split: sum.splits prod.splits)

lemma parse_spec_suffix: "parse_spec t c xs = Inr (ok, c1, rest) \<Longrightarrow> \<exists>k. rest = drop k xs"
proof (induction t c xs rule: parse_spec.induct)
  case (1 t c xs)
  show ?case
    using "1.prems" "1.IH" drop_0 [of xs, symmetric]
    by (auto simp: parse_spec.simps [of t c xs] Let_def drop_drop
        simp del: drop_0 split: sum.splits if_splits) (metis drop_drop drop_0)+
qed

text \<open>
  C3. The parser inverts the printing of a request: on a buffer that holds a well-formed request,
  followed by anything, it stops with exactly that request (method, path, query, version and every
  header) in state \<open>kGotAll\<close>, and leaves what follows in the buffer.
\<close>

theorem parseRequest_round_trip:
  assumes "request_ok r" and "buffer_wf b" and "readable b = render_request r @ rest"
  shows "\<exists>b'. parseRequest (req_receiveTime r) new_HttpContext b =
             Some (Inr (True, \<lparr>ctx_state = kGotAll, ctx_request = r\<rparr>, b')) \<and>
           buffer_wf b' \<and> readable b' = rest"
  using parse_refines [OF assms(2,3), of new_HttpContext "req_receiveTime r"] parse_spec_render [OF assms(1)]
  by (simp add: parse_agrees_def) (simp add: new_HttpContext_def)

theorem parseRequest_round_trip_witness:
  "\<exists>b'. parseRequest 7 new_HttpContext
         (buffer_of (render_request \<lparr>req_method = kGet, req_version = kHttp11, req_path = ''/a'',
            req_query = ''?b'', req_receiveTime = 7, req_headers = [(''Host'', ''x'')]\<rparr> @ ''rest'')) =
       Some (Inr (True, \<lparr>ctx_state = kGotAll, ctx_request = \<lparr>req_method = kGet, req_version = kHttp11,
            req_path = ''/a'', req_query = ''?b'', req_receiveTime = 7, req_headers = [(''Host'', ''x'')]\<rparr>\<rparr>, b')) \<and>
     buffer_wf b' \<and> readable b' = ''rest''"
proof -
  let ?r = "\<lparr>req_method = kGet, req_version = kHttp11, req_path = ''/a'', req_query = ''?b'',
     req_receiveTime = 7, req_headers = [(''Host'', ''x'')]\<rparr>"
  have ok: "request_ok ?r"
    by (simp add: request_ok_def map_ok_def header_ok_def isspace_def)
  have "length (render_request ?r @ ''rest'') + 8 \<le> vec_max"
    by (simp add: render_request_def render_line_def render_header_def kCRLF_def vec_max_def)
  then show ?thesis
    using parseRequest_round_trip [OF ok buffer_of_ok(1) buffer_of_ok(2)] by simp
qed

text \<open>Stopped before the end of a request line, the parser has done nothing yet.\<close>

lemma parse_spec_unstarted:
  assumes "parse_spec t c xs = Inr (True, c1, rest)" "ctx_state c1 = kExpectRequestLine"
  shows "parse_spec t' c xs = Inr (True, c1, rest)"
proof (cases "std_search kCRLF xs = length xs \<or> ctx_state c \<notin> {kExpectRequestLine, kExpectHeaders}")
  case True
  then have "parse_spec x c xs = Inr (True, c, xs)" for x by (auto simp: parse_spec.simps [of x c xs])
  then show ?thesis using assms(1) by simp
next
  case False
  have "ctx_state c \<noteq> kExpectHeaders" using parse_spec_past_line [OF assms(1)] assms(2) by blast
  with False assms show ?thesis
    by (auto simp: parse_spec.simps [of t c xs] Let_def dest!: parse_spec_past_line split: sum.splits if_splits)
qed


lemma retrieveUntil_writer: "retrieveUntil p b = Inr b' \<Longrightarrow> writerIndex b' \<le> max (writerIndex b) kCheapPrepend"
  by (auto simp: retrieveUntil_def retrieve_def retrieveAll_def assertm_def split: if_splits)

lemma parse_writer:
  assumes "parseRequest t c b = Some (Inr (ok, c1, b1))"
  shows "writerIndex b1 \<le> max (writerIndex b) kCheapPrepend"
proof -
  define W where "W b r \<longleftrightarrow> (\<forall>ok c1 b1. r = Inr (ok, c1, b1) \<longrightarrow> writerIndex b1 \<le> max (writerIndex b) kCheapPrepend)"
    for b :: buffer and r :: "(bool \<times> HttpContext \<times> buffer) res"
  have trans: "W b r" if "retrieveUntil p b = Inr b'" "W b' r" for p b b' r
    using retrieveUntil_writer [OF that(1)] that(2) by (fastforce simp: W_def)
  have "W b (Inr (ok, c1, b1))"
    by (rule parseRequest.raw_induct [where P = "\<lambda>t c b r. W b r", OF _ assms])
       (auto simp: Let_def W_def [of _ "Inl _"] W_def [of _ "Inr _"] dest: retrieveUntil_writer
         split: if_splits sum.splits option.splits intro: trans,
        blast intro: trans)
  then show ?thesis by (simp add: W_def)
qed

definition split_begun :: string where
  "split_begun = ''GET / HTTP/1.1'' @ kCRLF @ ''Host: a''"

definition split_context :: HttpContext where
  "split_context = \<lparr>ctx_state = kExpectHeaders, ctx_request = \<lparr>req_method = kGet, req_version = kHttp11, req_path = ''/'',
     req_query = [], req_receiveTime = 1, req_headers = []\<rparr>\<rparr>"

lemma split_begun_parse: "parse_spec 1 new_HttpContext split_begun = Inr (True, split_context, ''Host: a'')"
  by code_simp


text \<open>
  C31. The parser loop ends exactly when it is entered in one of the two states it handles. In
  the states \<open>kExpectBody\<close> and \<open>kGotAll\<close> it never returns.
\<close>

theorem parseRequest_terminates_iff:
  assumes "buffer_wf b"
  shows "(\<exists>r. parseRequest t c b = Some r) \<longleftrightarrow> ctx_state c \<in> {kExpectRequestLine, kExpectHeaders}"
proof
  assume "\<exists>r. parseRequest t c b = Some r"
  then show "ctx_state c \<in> {kExpectRequestLine, kExpectHeaders}"
    using parseRequest_stuck by blast
next
  assume "ctx_state c \<in> {kExpectRequestLine, kExpectHeaders}"
  then show "\<exists>r. parseRequest t c b = Some r"
    using parse_refines [OF assms refl, of c t] by (auto simp: parse_agrees_def split: sum.splits)
qed

theorem parseRequest_terminates_iff_witness:
  "(\<exists>r. parseRequest 1 \<lparr>ctx_state = kGotAll, ctx_request = new_HttpRequest\<rparr> (buffer_of ''x'') = Some r) \<longleftrightarrow> False"
proof -
  have wf: "buffer_wf (buffer_of ''x'')" by (rule buffer_of_ok(1)) (simp add: vec_max_def)
  show ?thesis using parseRequest_terminates_iff [OF wf] by simp
qed

text \<open>
  C17. Entered with a fresh context (before the request line no method has been set), the parser
  returns without any fault, keeps the buffer well-formed and only consumes bytes from its front.
\<close>

theorem parseRequest_safe:
  assumes "buffer_wf b" and "ctx_fresh c"
  shows "\<exists>ok c' b' k. parseRequest t c b = Some (Inr (ok, c', b')) \<and> buffer_wf b' \<and>
           readable b' = drop k (readable b)"
proof -
  obtain ok c1 rest where spec: "parse_spec t c (readable b) = Inr (ok, c1, rest)"
    using parse_spec_total [OF assms(2)] by blast
  have "ctx_state c \<in> {kExpectRequestLine, kExpectHeaders}" using assms(2) by (auto simp: ctx_fresh_def)
  from parse_refines [OF assms(1) refl this, of t] spec
  obtain b' where "parseRequest t c b = Some (Inr (ok, c1, b'))" "buffer_wf b'" "readable b' = rest"
    by (auto simp: parse_agrees_def)
  with parse_spec_suffix [OF spec] show ?thesis by blast
qed

theorem parseRequest_safe_witness:
  "\<exists>ok c' b' k. parseRequest 1 new_HttpContext (buffer_of ''GET'') = Some (Inr (ok, c', b')) \<and> buffer_wf b' \<and>
     readable b' = drop k ''GET''"
proof -
  have wf: "buffer_wf (buffer_of ''GET'')" by (rule buffer_of_ok(1)) (simp add: vec_max_def)
  have "ctx_fresh new_HttpContext" by (simp add: ctx_fresh_def new_HttpContext_def new_HttpRequest_def)
  from parseRequest_safe [OF wf this, of 1] show ?thesis by (simp add: buffer_of_ok(2))
qed

text \<open>
  A request line with a known method but an otherwise bad form is rejected without being
  consumed and with the method already set. Whatever arrives on that connection next, the next
  parse fails the assertion in \<open>setMethod\<close>.
\<close>

theorem bad_request_line_asserts:
  assumes "buffer_wf b" and "ctx_fresh c"
    and "parseRequest t c b = Some (Inr (False, c1, b1))" and "req_method (ctx_request c1) \<noteq> kInvalid"
    and "length ys \<le> vec_max" and "buffer_append ys b1 = Inr b2"
  shows "parseRequest t' c1 b2 = Some (Inl AssertFailed)"
proof -
  have st: "ctx_state c \<in> {kExpectRequestLine, kExpectHeaders}" using assms(2) by (auto simp: ctx_fresh_def)
  note agree = parse_agrees_Inr [OF parse_refines [OF assms(1) refl st, of t, unfolded assms(3)]]
  let ?xs = "readable b1"
  let ?i = "std_search kCRLF ?xs"
  from parse_spec_bad [OF agree(1)] have bad: "ctx_state c = kExpectRequestLine" "readable b1 = readable b"
      "?i \<noteq> length ?xs" "processRequestLine (take ?i ?xs) c = Inr (False, c1)" by simp_all
  have "CHR '' '' \<in> set (take ?i ?xs)"
    using processRequestLine_method_space [OF bad(4)] bad(1) assms(2,4) by (simp add: ctx_fresh_def)
  then have fault: "processRequestLine (take ?i ?xs) c1 = Inl AssertFailed"
    by (rule processRequestLine_asserts [OF _ assms(4)])
  have st1: "ctx_state c1 = kExpectRequestLine" using processRequestLine_state [OF bad(4)] bad(1) by simp
  have b2: "buffer_wf b2" "readable b2 = ?xs @ ys"
    using buffer_append_result [OF agree(2) assms(5,6)] by auto
  have l: "?i < length ?xs" using bad(3) std_search_le [of kCRLF ?xs] by simp
  have "parse_spec t' c1 (?xs @ ys) = Inl AssertFailed"
    using l fault st1 std_search_append [OF l, of ys]
    by (simp add: parse_spec.simps [of t' c1 "?xs @ ys"])
  then show ?thesis
    using parse_refines [OF b2, of c1 t'] st1 by (simp add: parse_agrees_def)
qed

theorem bad_request_line_asserts_witness:
  "\<exists>c1 b1 b2. parseRequest 1 new_HttpContext (buffer_of (''GET / HTTP/2.0'' @ kCRLF)) = Some (Inr (False, c1, b1)) \<and>
     buffer_append ''x'' b1 = Inr b2 \<and> parseRequest 2 c1 b2 = Some (Inl AssertFailed)"
proof -
  let ?xs = "''GET / HTTP/2.0'' @ kCRLF" and ?c = new_HttpContext
  let ?c1 = "?c\<lparr>ctx_request := new_HttpRequest\<lparr>req_method := kGet, req_path := ''/''\<rparr>\<rparr>"
  have wf: "buffer_wf (buffer_of ?xs)" by (rule buffer_of_ok(1)) (simp add: vec_max_def kCRLF_def)
  have fresh: "ctx_fresh ?c" by (simp add: ctx_fresh_def new_HttpContext_def new_HttpRequest_def)
  let ?b = "buffer_of ?xs"
  have f: "findCRLF ?b = Inr (Some (peek ?b + 14))"
    unfolding findCRLF_eq [OF wf] buffer_of_ok(2) by (simp add: kCRLF_def)
  have l: "line_at ?b (peek ?b + 14) = Inr ''GET / HTTP/2.0''"
    using line_at_ok [OF wf, of 14] unfolding buffer_of_ok(2) by (simp add: kCRLF_def)
  have p: "processRequestLine ''GET / HTTP/2.0'' ?c = Inr (False, ?c1)"
    by (simp add: processRequestLine_def setMethod_def setPath_def new_HttpContext_def new_HttpRequest_def)
  have st: "ctx_state ?c = kExpectRequestLine" by (simp add: new_HttpContext_def)
  have b1: "parseRequest 1 ?c ?b = Some (Inr (False, ?c1, ?b))"
    unfolding parseRequest_line [OF st] f sum.case option.case l rbind.simps p prod.case by simp
  obtain b2 where b2: "buffer_append ''x'' ?b = Inr b2"
    using buffer_append_ok [OF wf, of "''x''"] by (auto simp: buffer_of_ok(3) vec_max_def kCRLF_def)
  have "parseRequest 2 ?c1 b2 = Some (Inl AssertFailed)"
    by (rule bad_request_line_asserts [OF wf fresh b1 _ _ b2]) (simp_all add: vec_max_def)
  with b1 b2 show ?thesis by blast
qed

lemma c_str_full_iff: "length (c_str s) = length s \<longleftrightarrow> CHR 0x00 \<notin> set s"
  using c_str_shorter [of s] by fastforce

text \<open>
  C30. A response is written, behind what the buffer held, as its status line, the \<open>Connection\<close> line
  with the \<open>Content-Length\<close> line before it when the connection is kept, one line per header in the
  order of their names, an empty line, and the body up to its first zero byte. The
  \<open>Content-Length\<close> line announces the size of the whole body: it agrees with the number of body
  bytes sent exactly when the body has no zero byte.
\<close>

theorem response_framing:
  assumes "buffer_wf b" and "length (resp_body r) < 10 ^ 13" and "writerIndex b + length (response_bytes r) \<le> vec_max"
  defines "sent \<equiv> takeWhile (\<lambda>c. c \<noteq> CHR 0x00) (resp_body r)"
  shows "\<exists>b'. appendToBuffer r b = Inr b' \<and> buffer_wf b' \<and>
     readable b' = readable b @
       ''HTTP/1.1 '' @ dec_nat (status_value (resp_statusCode r)) @ '' '' @ c_str (resp_statusMessage r) @ kCRLF @
       (if resp_closeConnection r then ''Connection: close'' @ kCRLF
        else ''Content-Length: '' @ dec_nat (length (resp_body r)) @ kCRLF @ ''Connection: Keep-Alive'' @ kCRLF) @
       concat (map (\<lambda>(k, v). c_str k @ '': '' @ c_str v @ kCRLF) (resp_headers r)) @ kCRLF @ sent \<and>
     (length sent = length (resp_body r) \<longleftrightarrow> CHR 0x00 \<notin> set (resp_body r))"
proof -
  have "length (dec_nat (length (resp_body r))) \<le> 13" using length_dec_nat [OF assms(2)] by simp
  then have len: "snprintf_buf 32 (''Content-Length: '' @ dec_nat (length (resp_body r)) @ kCRLF) =
      ''Content-Length: '' @ dec_nat (length (resp_body r)) @ kCRLF"
    by (simp add: snprintf_buf_def kCRLF_def)
  have sent: "c_str (resp_body r) = sent" by (simp add: sent_def c_str_def)
  obtain b' where "appendToBuffer r b = Inr b'" "buffer_wf b'" "readable b' = readable b @ response_bytes r"
    using appendToBuffer_appends [OF assms(1,3)] by (auto simp: appends_def)
  then show ?thesis
    using c_str_full_iff [of "resp_body r"] unfolding response_bytes_def response_head_def len sent by auto
qed

theorem response_framing_witness:
  "\<exists>b'. appendToBuffer \<lparr>resp_headers = [(''Server'', ''x'')], resp_statusCode = k200Ok, resp_statusMessage = ''OK'',
       resp_closeConnection = False, resp_body = [CHR ''P'', CHR 0x00, CHR ''N'']\<rparr> (buffer_of []) = Inr b' \<and>
     readable b' = ''HTTP/1.1 200 OK'' @ kCRLF @ ''Content-Length: 3'' @ kCRLF @ ''Connection: Keep-Alive'' @ kCRLF @
       ''Server: x'' @ kCRLF @ kCRLF @ ''P''"
proof -
  let ?r = "\<lparr>resp_headers = [(''Server'', ''x'')], resp_statusCode = k200Ok, resp_statusMessage = ''OK'',
       resp_closeConnection = False, resp_body = [CHR ''P'', CHR 0x00, CHR ''N'']\<rparr>"
  have wf: "buffer_wf (buffer_of [])" by (rule buffer_of_ok(1)) (simp add: vec_max_def)
  have d: "dec_nat 200 = ''200''" "dec_nat 3 = ''3''"
    by code_simp+
  have "writerIndex (buffer_of []) + length (response_bytes ?r) \<le> vec_max"
    by (simp add: buffer_of_ok(3) response_bytes_def response_head_def d c_str_def snprintf_buf_def kCRLF_def vec_max_def)
  from response_framing [OF wf _ this] show ?thesis
    by (auto simp: buffer_of_ok(2) d numeral_3_eq_3 [symmetric] kCRLF_def)
qed

end
