(* ===== verification/Timestamp.thy ===== *)
theory Timestamp
  imports Complex_Main Prelude
begin

text \<open>
  \<open>class Timestamp\<close> of \<open>base/Timestamp.h\<close> and \<open>base/Timestamp.cc\<close>: microseconds since the
  epoch. The value is a 64-bit integer in the code and an integer here, in which the arithmetic does
  not overflow; \<open>addTime64\<close> below and \<open>howMuchTimeFromNow64\<close> of \<open>TimerQueue\<close> are the computations at
  their width, with the condition under which the two agree. A duration given as a
  \<open>double\<close> of seconds enters as the number of microseconds the cast produces.
\<close>

type_synonym Timestamp = int

definition kMicroSecondsPerSecond :: int where
  "kMicroSecondsPerSecond = 1000 * 1000"

definition ts_invalid :: Timestamp where
  "ts_invalid = 0"

definition ts_valid :: "Timestamp \<Rightarrow> bool" where
  "ts_valid t \<longleftrightarrow> t > 0"

definition secondsSinceEpoch :: "Timestamp \<Rightarrow> int" where
  "secondsSinceEpoch t = c_div t kMicroSecondsPerSecond"

definition fromUnixTime :: "int \<Rightarrow> int \<Rightarrow> Timestamp" where
  "fromUnixTime t microseconds = t * kMicroSecondsPerSecond + microseconds"

definition ts_now :: "int \<times> int \<Rightarrow> Timestamp" where
  "ts_now tv = fst tv * kMicroSecondsPerSecond + snd tv"

definition addTime :: "Timestamp \<Rightarrow> int \<Rightarrow> Timestamp" where
  "addTime t delta = t + delta"

text \<open>64-bit signed arithmetic; overflow is undefined in the language and wraps around on the machine.\<close>

definition int64 :: "int \<Rightarrow> int" where
  "int64 x = signed_take_bit 63 x"

definition is_int64 :: "int \<Rightarrow> bool" where
  "is_int64 x \<longleftrightarrow> - (2 ^ 63) \<le> x \<and> x < 2 ^ 63"

definition addTime64 :: "Timestamp \<Rightarrow> int \<Rightarrow> Timestamp" where
  "addTime64 t delta = int64 (t + delta)"

definition ts_swap :: "Timestamp \<Rightarrow> Timestamp \<Rightarrow> Timestamp \<times> Timestamp" where
  "ts_swap t that = (that, t)"

text \<open>The difference in seconds; the exact quotient, of which the code computes the nearest \<open>double\<close>.\<close>

definition timeDifference :: "Timestamp \<Rightarrow> Timestamp \<Rightarrow> rat" where
  "timeDifference high low = of_int (high - low) / of_int kMicroSecondsPerSecond"

text \<open>The conversion \<open>%06d\<close>: at least six characters, padded with zeros after the sign.\<close>

definition pad6 :: "int \<Rightarrow> string" where
  "pad6 i =
     (if i < 0 then CHR ''-'' # replicate (5 - length (dec_nat (nat (- i)))) (CHR ''0'') @ dec_nat (nat (- i))
      else replicate (6 - length (dec_nat (nat i))) (CHR ''0'') @ dec_nat (nat i))"

definition ts_toString :: "Timestamp \<Rightarrow> string" where
  "ts_toString t =
     (let seconds = c_div t kMicroSecondsPerSecond;
          microseconds = c_mod t kMicroSecondsPerSecond
      in snprintf_buf 32 (dec_int seconds @ ''.'' @ pad6 microseconds))"

text \<open>
  The broken-down time of \<open>gmtime_r\<close>, which is a parameter, and the date as the sources print it,
  with the conversions \<open>%4d\<close> and \<open>%02d\<close>.
\<close>

record tm =
  tm_year :: int
  tm_mon :: int
  tm_mday :: int
  tm_hour :: int
  tm_min :: int
  tm_sec :: int

definition pad_space4 :: "int \<Rightarrow> string" where
  "pad_space4 i = replicate (4 - length (dec_int i)) (CHR '' '') @ dec_int i"

definition pad_zero2 :: "int \<Rightarrow> string" where
  "pad_zero2 i =
     (if i < 0 then CHR ''-'' # replicate (1 - length (dec_nat (nat (- i)))) (CHR ''0'') @ dec_nat (nat (- i))
      else replicate (2 - length (dec_nat (nat i))) (CHR ''0'') @ dec_nat (nat i))"

definition format_date :: "tm \<Rightarrow> string" where
  "format_date t =
     pad_space4 (tm_year t + 1900) @ pad_zero2 (tm_mon t + 1) @ pad_zero2 (tm_mday t) @ '' '' @
     pad_zero2 (tm_hour t) @ '':'' @ pad_zero2 (tm_min t) @ '':'' @ pad_zero2 (tm_sec t)"

definition toFormattedString :: "(int \<Rightarrow> tm) \<Rightarrow> bool \<Rightarrow> Timestamp \<Rightarrow> string" where
  "toFormattedString gmtime showMicroseconds t =
     (let seconds = c_div t kMicroSecondsPerSecond; tm_time = gmtime seconds
      in if showMicroseconds
         then snprintf_buf 64 (format_date tm_time @ ''.'' @ pad6 (c_mod t kMicroSecondsPerSecond))
         else snprintf_buf 64 (format_date tm_time))"

text \<open>The ranges of a broken-down time, for years of four digits.\<close>

definition tm_ok :: "tm \<Rightarrow> bool" where
  "tm_ok t \<longleftrightarrow> 1000 \<le> tm_year t + 1900 \<and> tm_year t + 1900 \<le> 9999 \<and> 0 \<le> tm_mon t \<and> tm_mon t \<le> 11 \<and>
     1 \<le> tm_mday t \<and> tm_mday t \<le> 31 \<and> 0 \<le> tm_hour t \<and> tm_hour t \<le> 23 \<and> 0 \<le> tm_min t \<and> tm_min t \<le> 59 \<and>
     0 \<le> tm_sec t \<and> tm_sec t \<le> 60"

lemma length_pad_zero2: "0 \<le> i \<Longrightarrow> i < 100 \<Longrightarrow> length (pad_zero2 i) = 2"
  using length_dec_nat [of "nat i" 2] by (simp add: pad_zero2_def)

lemma length_pad6: "0 \<le> i \<Longrightarrow> i < 1000000 \<Longrightarrow> length (pad6 i) = 6"
  using length_dec_nat [of "nat i" 6] by (simp add: pad6_def)

lemma length_pad_space4: "0 \<le> i \<Longrightarrow> i < 10000 \<Longrightarrow> length (pad_space4 i) = 4"
  using length_dec_nat [of "nat i" 4] by (simp add: pad_space4_def dec_int_def)

lemma length_format_date: "tm_ok t \<Longrightarrow> length (format_date t) = 17"
  by (simp add: format_date_def tm_ok_def length_pad_zero2 length_pad_space4)

lemma format_date_no_nul: "CHR 0x00 \<notin> set (format_date t)" "CHR 0x00 \<notin> set (pad6 i)"
  using dec_nat_no_nul by (auto simp: format_date_def pad_zero2_def pad_space4_def pad6_def dec_int_def)

lemma ts_seconds_nonneg: "0 \<le> t \<Longrightarrow> secondsSinceEpoch t = t div 1000000"
  by (simp add: secondsSinceEpoch_def kMicroSecondsPerSecond_def c_div_nonneg)

lemma fromUnixTime_seconds:
  "0 \<le> t \<Longrightarrow> 0 \<le> us \<Longrightarrow> us < 1000000 \<Longrightarrow> secondsSinceEpoch (fromUnixTime t us) = t"
  by (simp add: ts_seconds_nonneg fromUnixTime_def kMicroSecondsPerSecond_def)

lemma int64_id: "is_int64 x \<Longrightarrow> int64 x = x"
  by (simp add: int64_def is_int64_def signed_take_bit_int_eq_self)

lemma addTime64_exact: "is_int64 (t + delta) \<Longrightarrow> addTime64 t delta = addTime t delta"
  by (simp add: addTime64_def addTime_def int64_id)

lemma timeDifference_addTime: "timeDifference (addTime t delta) t * of_int kMicroSecondsPerSecond = of_int delta"
  by (simp add: timeDifference_def addTime_def kMicroSecondsPerSecond_def)

end
