(* ===== verification/TimerQueue.thy ===== *)
theory TimerQueue
  imports Timestamp SafeRun
begin

text \<open>
  Timers: \<open>Timer\<close>, \<open>TimerId\<close> and \<open>TimerQueue\<close> of \<open>net/\<close>. Timer objects live in a heap
  (a map from addresses), \<open>timers_\<close> is the set of entries in its iteration order,
  \<open>activeTimers_\<close> and \<open>cancelingTimers_\<close> are sets. The heap allocator is a parameter, and so is
  what each user callback does to the queue: a list of calls to \<open>addTimer\<close> and \<open>cancel\<close>. Every
  \<open>Timestamp::now()\<close> is an argument. All operations run in the loop's own thread.
\<close>

section \<open>State\<close>

record timer =
  tm_callback :: nat
  tm_expiration :: Timestamp
  tm_interval :: int
  tm_repeat :: bool
  tm_sequence :: int

type_synonym timer_ptr = nat
type_synonym TimerId = "timer_ptr \<times> int"
type_synonym timespec = "int \<times> int"

text \<open>
  \<open>tq_armed\<close> is the state of the timerfd: the moment of the last \<open>timerfd_settime\<close> and its
  relative value. \<open>tq_ran\<close> records the callbacks run, for the statements below.
\<close>

record timer_queue =
  tq_heap :: "timer_ptr \<rightharpoonup> timer"
  tq_timers :: "(Timestamp \<times> timer_ptr) list"
  tq_active :: "(timer_ptr \<times> int) set"
  tq_calling :: bool
  tq_canceling :: "(timer_ptr \<times> int) set"
  tq_armed :: "(Timestamp \<times> timespec) option"
  tq_numCreated :: int
  tq_ran :: "nat list"

definition uintptr_max :: nat where
  "uintptr_max = 2 ^ 64 - 1"

type_synonym allocator = "(timer_ptr \<rightharpoonup> timer) \<Rightarrow> timer_ptr option"

text \<open>What the allocator promises: a fresh address that is not the last one of the address space.\<close>

definition malloc_spec :: "allocator \<Rightarrow> bool" where
  "malloc_spec alloc \<longleftrightarrow> (\<forall>h p. alloc h = Some p \<longrightarrow> h p = None \<and> p < uintptr_max)"

section \<open>Timer and timerfd\<close>

definition new_timer :: "nat \<Rightarrow> Timestamp \<Rightarrow> int \<Rightarrow> bool \<Rightarrow> int \<Rightarrow> timer" where
  "new_timer cb when interval positive numCreated =
     \<lparr>tm_callback = cb, tm_expiration = when, tm_interval = interval, tm_repeat = positive,
      tm_sequence = numCreated + 1\<rparr>"

definition timer_restart :: "Timestamp \<Rightarrow> timer \<Rightarrow> timer" where
  "timer_restart now tm =
     (if tm_repeat tm then tm\<lparr>tm_expiration := addTime now (tm_interval tm)\<rparr>
      else tm\<lparr>tm_expiration := ts_invalid\<rparr>)"

definition howMuchTimeFromNow :: "Timestamp \<Rightarrow> Timestamp \<Rightarrow> timespec" where
  "howMuchTimeFromNow now when =
     (let microseconds = when - now;
          microseconds = (if microseconds < 100 then 100 else microseconds)
      in (c_div microseconds kMicroSecondsPerSecond,
          c_mod microseconds kMicroSecondsPerSecond * 1000))"

definition howMuchTimeFromNow64 :: "Timestamp \<Rightarrow> Timestamp \<Rightarrow> timespec" where
  "howMuchTimeFromNow64 now when =
     (let microseconds = int64 (when - now);
          microseconds = (if microseconds < 100 then 100 else microseconds)
      in (c_div microseconds kMicroSecondsPerSecond,
          c_mod microseconds kMicroSecondsPerSecond * 1000))"

definition resetTimerfd :: "Timestamp \<Rightarrow> Timestamp \<Rightarrow> timer_queue \<Rightarrow> timer_queue" where
  "resetTimerfd now expiration s = s\<lparr>tq_armed := Some (now, howMuchTimeFromNow now expiration)\<rparr>"

section \<open>Operations\<close>

definition sizes_agree :: "timer_queue \<Rightarrow> bool" where
  "sizes_agree s \<longleftrightarrow> length (tq_timers s) = card (tq_active s)"

definition tq_deref :: "timer_ptr \<Rightarrow> timer_queue \<Rightarrow> timer res" where
  "tq_deref p s = (case tq_heap s p of None \<Rightarrow> Inl UseAfterFree | Some tm \<Rightarrow> Inr tm)"

definition tq_insert :: "timer_ptr \<Rightarrow> timer_queue \<Rightarrow> (bool \<times> timer_queue) res" where
  "tq_insert p s =
     assertm (sizes_agree s)
       (rbind (tq_deref p s) (\<lambda>tm.
        let when = tm_expiration tm;
            earliestChanged = (tq_timers s = [] \<or> when < fst (hd (tq_timers s)))
        in assertm ((when, p) \<notin> set (tq_timers s))
           (assertm ((p, tm_sequence tm) \<notin> tq_active s)
            (let s' = s\<lparr>tq_timers := insort (when, p) (tq_timers s),
                       tq_active := insert (p, tm_sequence tm) (tq_active s)\<rparr>
             in assertm (sizes_agree s') (Inr (earliestChanged, s'))))))"

definition addTimerInLoop :: "Timestamp \<Rightarrow> timer_ptr \<Rightarrow> timer_queue \<Rightarrow> timer_queue res" where
  "addTimerInLoop now p s =
     rbind (tq_insert p s) (\<lambda>(earliestChanged, s1).
     if earliestChanged
     then rbind (tq_deref p s1) (\<lambda>tm. Inr (resetTimerfd now (tm_expiration tm) s1))
     else Inr s1)"

definition addTimer :: "allocator \<Rightarrow> Timestamp \<Rightarrow> nat \<Rightarrow> Timestamp \<Rightarrow> int \<Rightarrow> bool \<Rightarrow> timer_queue \<Rightarrow>
    (TimerId \<times> timer_queue) res" where
  "addTimer alloc now cb when interval positive s =
     (case alloc (tq_heap s) of
        None \<Rightarrow> Inl BadAlloc
      | Some p \<Rightarrow>
          let tm = new_timer cb when interval positive (tq_numCreated s);
              s1 = s\<lparr>tq_heap := (tq_heap s)(p \<mapsto> tm), tq_numCreated := tq_numCreated s + 1\<rparr>
          in rbind (addTimerInLoop now p s1) (\<lambda>s2. Inr ((p, tm_sequence tm), s2)))"

definition cancelInLoop :: "TimerId \<Rightarrow> timer_queue \<Rightarrow> timer_queue res" where
  "cancelInLoop timerId s =
     assertm (sizes_agree s)
       (rbind
          (if timerId \<in> tq_active s then
             rbind (tq_deref (fst timerId) s) (\<lambda>tm.
             let entry = (tm_expiration tm, fst timerId);
                 n = count_list (tq_timers s) entry
             in assertm (n = 1)
                 (Inr (s\<lparr>tq_timers := removeAll entry (tq_timers s),
                        tq_heap := (tq_heap s)(fst timerId := None),
                        tq_active := tq_active s - {timerId}\<rparr>)))
           else if tq_calling s then Inr (s\<lparr>tq_canceling := insert timerId (tq_canceling s)\<rparr>)
           else Inr s)
          (\<lambda>s'. assertm (sizes_agree s') (Inr s')))"

definition getExpired :: "Timestamp \<Rightarrow> timer_queue \<Rightarrow> ((Timestamp \<times> timer_ptr) list \<times> timer_queue) res" where
  "getExpired now s =
     assertm (sizes_agree s)
       (let sentry = (now, uintptr_max);
            expired = takeWhile (\<lambda>e. e < sentry) (tq_timers s);
            s1 = s\<lparr>tq_timers := dropWhile (\<lambda>e. e < sentry) (tq_timers s)\<rparr>
        in rbind (rfold (\<lambda>e st.
                    rbind (tq_deref (snd e) st) (\<lambda>tm.
                    assertm ((snd e, tm_sequence tm) \<in> tq_active st)
                      (Inr (st\<lparr>tq_active := tq_active st - {(snd e, tm_sequence tm)}\<rparr>)))) expired s1)
             (\<lambda>s2. assertm (sizes_agree s2) (Inr (expired, s2))))"

definition reset_one :: "Timestamp \<Rightarrow> Timestamp \<times> timer_ptr \<Rightarrow> timer_queue \<Rightarrow> timer_queue res" where
  "reset_one now e s =
     rbind (tq_deref (snd e) s) (\<lambda>tm.
     if tm_repeat tm \<and> (snd e, tm_sequence tm) \<notin> tq_canceling s
     then rbind (tq_insert (snd e) (s\<lparr>tq_heap := (tq_heap s)(snd e \<mapsto> timer_restart now tm)\<rparr>))
            (\<lambda>(_, s'). Inr s')
     else Inr (s\<lparr>tq_heap := (tq_heap s)(snd e := None)\<rparr>))"

definition tq_reset :: "Timestamp \<Rightarrow> (Timestamp \<times> timer_ptr) list \<Rightarrow> Timestamp \<Rightarrow> timer_queue \<Rightarrow> timer_queue res" where
  "tq_reset now2 expired now s =
     rbind (rfold (reset_one now) expired s) (\<lambda>s1.
     rbind (if tq_timers s1 \<noteq> []
            then rbind (tq_deref (snd (hd (tq_timers s1))) s1) (\<lambda>tm. Inr (tm_expiration tm))
            else Inr ts_invalid) (\<lambda>nextExpire.
     if ts_valid nextExpire then Inr (resetTimerfd now2 nextExpire s1) else Inr s1))"

text \<open>What a user callback does to the queue, and running it.\<close>

datatype tq_call =
    CallAdd Timestamp nat Timestamp int bool
  | CallCancel TimerId

fun tq_do_call :: "allocator \<Rightarrow> tq_call \<Rightarrow> timer_queue \<Rightarrow> timer_queue res" where
  "tq_do_call alloc (CallAdd now cb when interval positive) s =
     rbind (addTimer alloc now cb when interval positive s) (\<lambda>(tid, s'). Inr s')"
| "tq_do_call alloc (CallCancel tid) s = cancelInLoop tid s"

definition timer_run :: "allocator \<Rightarrow> (nat \<Rightarrow> tq_call list) \<Rightarrow> timer_ptr \<Rightarrow> timer_queue \<Rightarrow> timer_queue res" where
  "timer_run alloc cbs p s =
     rbind (tq_deref p s) (\<lambda>tm.
     rfold (tq_do_call alloc) (cbs (tm_callback tm)) (s\<lparr>tq_ran := tq_ran s @ [tm_callback tm]\<rparr>))"

text \<open>
  The handler of the timerfd. Reading the descriptor has no effect on the queue; the timer has
  fired, so it is no longer armed. \<open>now2\<close> is the time at which \<open>reset\<close> programs it again.
\<close>

definition tq_handleRead :: "allocator \<Rightarrow> (nat \<Rightarrow> tq_call list) \<Rightarrow> Timestamp \<Rightarrow> Timestamp \<Rightarrow> timer_queue \<Rightarrow>
    timer_queue res" where
  "tq_handleRead alloc cbs now now2 s =
     rbind (getExpired now (s\<lparr>tq_armed := None\<rparr>)) (\<lambda>(expired, s1).
     rbind (rfold (\<lambda>e. timer_run alloc cbs (snd e)) expired
              (s1\<lparr>tq_calling := True, tq_canceling := {}\<rparr>)) (\<lambda>s2.
     tq_reset now2 expired now (s2\<lparr>tq_calling := False\<rparr>)))"

text \<open>The destructor deletes the timer of every entry.\<close>

definition timer_delete :: "timer_ptr \<Rightarrow> timer_queue \<Rightarrow> timer_queue res" where
  "timer_delete p s = rbind (tq_deref p s) (\<lambda>_. Inr (s\<lparr>tq_heap := (tq_heap s)(p := None)\<rparr>))"

definition tq_destroy :: "timer_queue \<Rightarrow> timer_queue res" where
  "tq_destroy s = rfold (\<lambda>e. timer_delete (snd e)) (tq_timers s) s"

definition new_timer_queue :: timer_queue where
  "new_timer_queue = \<lparr>tq_heap = Map.empty, tq_timers = [], tq_active = {}, tq_calling = False,
     tq_canceling = {}, tq_armed = None, tq_numCreated = 0, tq_ran = []\<rparr>"


section \<open>Invariant\<close>

text \<open>
  \<open>tq_inv E s\<close> is the state between two operations when the timers at the addresses \<open>E\<close> have
  been taken out as expired and not yet been restarted or deleted; outside \<open>handleRead\<close>, \<open>E\<close> is
  empty. Heap, \<open>timers_\<close> and \<open>activeTimers_\<close> hold the same timers: none leaked, none dangling.
\<close>

definition active_of :: "(timer_ptr \<rightharpoonup> timer) \<Rightarrow> Timestamp \<times> timer_ptr \<Rightarrow> timer_ptr \<times> int" where
  "active_of h e = (snd e, tm_sequence (the (h (snd e))))"

definition timer_ok :: "(timer_ptr \<rightharpoonup> timer) \<Rightarrow> Timestamp \<times> timer_ptr \<Rightarrow> bool" where
  "timer_ok h e \<longleftrightarrow> (\<exists>tm. h (snd e) = Some tm \<and> tm_expiration tm = fst e)"

definition heap_ok :: "(timer_ptr \<rightharpoonup> timer) \<Rightarrow> bool" where
  "heap_ok h \<longleftrightarrow> (\<forall>p tm. h p = Some tm \<longrightarrow> p < uintptr_max \<and> (tm_repeat tm \<longrightarrow> 0 \<le> tm_interval tm))"

definition tq_inv :: "timer_ptr set \<Rightarrow> timer_queue \<Rightarrow> bool" where
  "tq_inv E s \<longleftrightarrow>
     sorted (tq_timers s) \<and> distinct (map snd (tq_timers s)) \<and>
     (\<forall>e \<in> set (tq_timers s). timer_ok (tq_heap s) e) \<and>
     tq_active s = active_of (tq_heap s) ` set (tq_timers s) \<and>
     dom (tq_heap s) = snd ` set (tq_timers s) \<union> E \<and>
     snd ` set (tq_timers s) \<inter> E = {} \<and> heap_ok (tq_heap s)"

lemma tq_invI:
  assumes "sorted (tq_timers s)" "distinct (map snd (tq_timers s))"
    "\<And>e. e \<in> set (tq_timers s) \<Longrightarrow> timer_ok (tq_heap s) e"
    "tq_active s = active_of (tq_heap s) ` set (tq_timers s)"
    "dom (tq_heap s) = snd ` set (tq_timers s) \<union> E" "snd ` set (tq_timers s) \<inter> E = {}"
    "heap_ok (tq_heap s)"
  shows "tq_inv E s"
  using assms unfolding tq_inv_def by blast

lemma tq_invD:
  assumes "tq_inv E s"
  shows "sorted (tq_timers s)" "distinct (map snd (tq_timers s))"
    "\<And>e. e \<in> set (tq_timers s) \<Longrightarrow> timer_ok (tq_heap s) e"
    "tq_active s = active_of (tq_heap s) ` set (tq_timers s)"
    "dom (tq_heap s) = snd ` set (tq_timers s) \<union> E" "snd ` set (tq_timers s) \<inter> E = {}"
    "heap_ok (tq_heap s)"
  using assms unfolding tq_inv_def by blast+

lemma tq_inv_cong:
  assumes "tq_inv E s" "tq_heap s' = tq_heap s" "tq_timers s' = tq_timers s" "tq_active s' = tq_active s"
  shows "tq_inv E s'"
  using assms unfolding tq_inv_def by simp

lemma inj_active_of: "distinct (map snd xs) \<Longrightarrow> inj_on (active_of h) (set xs)"
  by (auto simp: active_of_def distinct_map inj_on_def)

lemma tq_inv_sizes: "tq_inv E s \<Longrightarrow> sizes_agree s"
  unfolding sizes_agree_def
  using tq_invD(2,4) [of E s] inj_active_of [of "tq_timers s" "tq_heap s"]
  by (simp add: card_image distinct_map distinct_card)

lemma tq_inv_entry:
  assumes "tq_inv E s" "e \<in> set (tq_timers s)"
  obtains tm where "tq_heap s (snd e) = Some tm" "tm_expiration tm = fst e"
  using tq_invD(3) [OF assms] by (auto simp: timer_ok_def)

lemma tq_inv_E_live:
  assumes "tq_inv E s" "p \<in> E"
  obtains tm where "tq_heap s p = Some tm" "p < uintptr_max" "tm_repeat tm \<Longrightarrow> 0 \<le> tm_interval tm"
  using tq_invD(5,7) [OF assms(1)] assms(2) unfolding heap_ok_def by blast

lemma active_of_upd: "p \<notin> snd ` set xs \<Longrightarrow> active_of (h(p := v)) ` set xs = active_of h ` set xs"
  by (rule image_cong) (auto simp: active_of_def)

lemma timer_ok_upd: "p \<noteq> snd e \<Longrightarrow> timer_ok (h(p := v)) e = timer_ok h e"
  by (auto simp: timer_ok_def)

lemma heap_ok_delete: "heap_ok h \<Longrightarrow> heap_ok (h(p := None))"
  by (auto simp: heap_ok_def)

lemma heap_ok_put:
  "heap_ok h \<Longrightarrow> p < uintptr_max \<Longrightarrow> (tm_repeat tm \<Longrightarrow> 0 \<le> tm_interval tm) \<Longrightarrow> heap_ok (h(p \<mapsto> tm))"
  by (auto simp: heap_ok_def)

text \<open>The heap cells of \<open>E\<close> may be rewritten, freed or added to.\<close>

lemma tq_inv_write:
  assumes "tq_inv E s" "p \<notin> snd ` set (tq_timers s)" "p < uintptr_max" "tm_repeat tm \<Longrightarrow> 0 \<le> tm_interval tm"
  shows "tq_inv (insert p E) (s\<lparr>tq_heap := (tq_heap s)(p \<mapsto> tm)\<rparr>)"
proof (rule tq_invI)
  fix e assume "e \<in> set (tq_timers (s\<lparr>tq_heap := (tq_heap s)(p \<mapsto> tm)\<rparr>))"
  then have e: "e \<in> set (tq_timers s)" by simp
  with assms(2) have "p \<noteq> snd e" by blast
  with e tq_invD(3) [OF assms(1) e] show "timer_ok (tq_heap (s\<lparr>tq_heap := (tq_heap s)(p \<mapsto> tm)\<rparr>)) e"
    by (simp add: timer_ok_upd)
qed (use assms tq_invD [OF assms(1)] in \<open>auto simp: active_of_upd heap_ok_put\<close>)

lemma tq_inv_free:
  assumes "tq_inv E s" "p \<in> E"
  shows "tq_inv (E - {p}) (s\<lparr>tq_heap := (tq_heap s)(p := None)\<rparr>)"
proof (rule tq_invI)
  have p: "p \<notin> snd ` set (tq_timers s)" using tq_invD(6) [OF assms(1)] assms(2) by blast
  fix e assume "e \<in> set (tq_timers (s\<lparr>tq_heap := (tq_heap s)(p := None)\<rparr>))"
  then have e: "e \<in> set (tq_timers s)" by simp
  with p have "p \<noteq> snd e" by blast
  with e tq_invD(3) [OF assms(1) e] show "timer_ok (tq_heap (s\<lparr>tq_heap := (tq_heap s)(p := None)\<rparr>)) e"
    by (simp add: timer_ok_upd)
next
  have p: "p \<notin> snd ` set (tq_timers s)" using tq_invD(6) [OF assms(1)] assms(2) by blast
  show "tq_active (s\<lparr>tq_heap := (tq_heap s)(p := None)\<rparr>) =
    active_of (tq_heap (s\<lparr>tq_heap := (tq_heap s)(p := None)\<rparr>)) ` set (tq_timers (s\<lparr>tq_heap := (tq_heap s)(p := None)\<rparr>))"
    using p tq_invD(4) [OF assms(1)] by (simp add: active_of_upd)
  show "dom (tq_heap (s\<lparr>tq_heap := (tq_heap s)(p := None)\<rparr>)) = snd ` set (tq_timers (s\<lparr>tq_heap := (tq_heap s)(p := None)\<rparr>)) \<union> (E - {p})"
    using p tq_invD(5) [OF assms(1)] by auto
qed (use tq_invD [OF assms(1)] in \<open>auto simp: heap_ok_delete\<close>)

lemma tq_insert_ok:
  assumes inv: "tq_inv E s" and p: "p \<in> E" and tm: "tq_heap s p = Some tm"
  defines "s' \<equiv> s\<lparr>tq_timers := insort (tm_expiration tm, p) (tq_timers s),
                  tq_active := insert (p, tm_sequence tm) (tq_active s)\<rparr>"
  shows "tq_insert p s = Inr (tq_timers s = [] \<or> tm_expiration tm < fst (hd (tq_timers s)), s')"
    and "tq_inv (E - {p}) s'"
proof -
  have fresh: "p \<notin> snd ` set (tq_timers s)" using tq_invD(6) [OF inv] p by blast
  show inv': "tq_inv (E - {p}) s'"
  proof (rule tq_invI)
    show "distinct (map snd (tq_timers s'))"
      using tq_invD(2) [OF inv] fresh
      by (force simp: s'_def distinct_map distinct_insort set_insort_key inj_on_def)
    show "timer_ok (tq_heap s') e" if "e \<in> set (tq_timers s')" for e
      using that tq_invD(3) [OF inv] tm by (auto simp: s'_def set_insort_key timer_ok_def)
    show "tq_active s' = active_of (tq_heap s') ` set (tq_timers s')"
      using tq_invD(4) [OF inv] tm by (simp add: s'_def set_insort_key active_of_def)
  qed (use tq_invD [OF inv] p fresh in \<open>auto simp: s'_def sorted_insort set_insort_key\<close>)
  have "(tm_expiration tm, p) \<notin> set (tq_timers s)" using fresh by force
  moreover have "(p, tm_sequence tm) \<notin> tq_active s"
    using fresh tq_invD(4) [OF inv] by (auto simp: active_of_def)
  ultimately show "tq_insert p s = Inr (tq_timers s = [] \<or> tm_expiration tm < fst (hd (tq_timers s)), s')"
    using tq_inv_sizes [OF inv] tq_inv_sizes [OF inv'] tm
    by (simp add: tq_insert_def tq_deref_def Let_def s'_def)
qed

section \<open>Operations keep the invariant\<close>

lemma addTimerInLoop_ok:
  assumes inv: "tq_inv E s" and p: "p \<in> E" and tm: "tq_heap s p = Some tm"
  defines "s' \<equiv> s\<lparr>tq_timers := insort (tm_expiration tm, p) (tq_timers s),
                  tq_active := insert (p, tm_sequence tm) (tq_active s)\<rparr>"
  shows "addTimerInLoop now p s =
     Inr (if tq_timers s = [] \<or> tm_expiration tm < fst (hd (tq_timers s))
          then resetTimerfd now (tm_expiration tm) s' else s')"
  using tq_insert_ok [OF inv p tm] tm by (auto simp: addTimerInLoop_def s'_def tq_deref_def)

lemma addTimer_ok:
  assumes inv: "tq_inv E s" and alloc: "malloc_spec alloc" and pos: "positive \<longrightarrow> 0 \<le> interval"
  shows "(alloc (tq_heap s) = None \<and> addTimer alloc now cb when interval positive s = Inl BadAlloc) \<or>
     (\<exists>p s'. alloc (tq_heap s) = Some p \<and> tq_heap s p = None \<and>
        addTimer alloc now cb when interval positive s = Inr ((p, tq_numCreated s + 1), s') \<and>
        tq_inv E s' \<and> tq_timers s' = insort (when, p) (tq_timers s) \<and>
        tq_active s' = insert (p, tq_numCreated s + 1) (tq_active s) \<and>
        tq_heap s' = (tq_heap s)(p \<mapsto> new_timer cb when interval positive (tq_numCreated s)) \<and>
        tq_calling s' = tq_calling s \<and> tq_canceling s' = tq_canceling s \<and> tq_ran s' = tq_ran s \<and>
        tq_armed s' = (if tq_timers s = [] \<or> when < fst (hd (tq_timers s))
          then Some (now, howMuchTimeFromNow now when) else tq_armed s))"
proof (cases "alloc (tq_heap s)")
  case None
  then show ?thesis by (simp add: addTimer_def)
next
  case (Some p)
  let ?tm = "new_timer cb when interval positive (tq_numCreated s)"
  let ?s1 = "s\<lparr>tq_heap := (tq_heap s)(p \<mapsto> ?tm)\<rparr>\<lparr>tq_numCreated := tq_numCreated s + 1\<rparr>"
  let ?s2 = "?s1\<lparr>tq_timers := insort (when, p) (tq_timers s),
                  tq_active := insert (p, tq_numCreated s + 1) (tq_active s)\<rparr>"
  have p: "tq_heap s p = None" "p < uintptr_max" using alloc Some by (auto simp: malloc_spec_def)
  have np: "p \<notin> snd ` set (tq_timers s)" "p \<notin> E" using tq_invD(5) [OF inv] p(1) by auto
  have "tq_inv (insert p E) (s\<lparr>tq_heap := (tq_heap s)(p \<mapsto> ?tm)\<rparr>)"
    by (rule tq_inv_write [OF inv np(1) p(2)]) (simp add: new_timer_def pos)
  then have inv1: "tq_inv (insert p E) ?s1" by (rule tq_inv_cong) simp_all
  have tm: "tq_heap ?s1 p = Some ?tm" by simp
  note ins = tq_insert_ok(2) [OF inv1 insertI1 tm] and add = addTimerInLoop_ok [OF inv1 insertI1 tm]
  have inv2: "tq_inv E ?s2" using ins np(2) by (simp add: new_timer_def)
  let ?s3 = "if tq_timers s = [] \<or> when < fst (hd (tq_timers s)) then resetTimerfd now when ?s2 else ?s2"
  have "addTimer alloc now cb when interval positive s = Inr ((p, tq_numCreated s + 1), ?s3)"
    using add Some by (simp add: addTimer_def Let_def new_timer_def)
  moreover have "tq_inv E ?s3"
    by (rule tq_inv_cong [OF inv2]) (simp_all add: resetTimerfd_def)
  ultimately show ?thesis
    using Some p(1) by (auto simp: resetTimerfd_def)
qed

lemma removeAll_insort: "x \<notin> set xs \<Longrightarrow> removeAll x (insort x xs) = xs"
  by (induction xs) (auto simp: removeAll_id)

lemma count_list_distinct: "distinct xs \<Longrightarrow> x \<in> set xs \<Longrightarrow> count_list xs x = 1"
  by (induction xs) auto

lemma tq_inv_remove:
  assumes inv: "tq_inv E s" and e: "e \<in> set (tq_timers s)"
  shows "count_list (tq_timers s) e = 1"
    and "tq_inv E (s\<lparr>tq_timers := removeAll e (tq_timers s), tq_heap := (tq_heap s)(snd e := None),
                    tq_active := tq_active s - {active_of (tq_heap s) e}\<rparr>)"
      (is "tq_inv E ?s'")
proof -
  have dist: "distinct (tq_timers s)" using tq_invD(2) [OF inv] by (simp add: distinct_map)
  show "count_list (tq_timers s) e = 1" using dist e by (rule count_list_distinct)
  have inj: "inj_on snd (set (tq_timers s))" using tq_invD(2) [OF inv] by (simp add: distinct_map)
  have out: "snd e \<notin> snd ` set (removeAll e (tq_timers s))"
    using inj e by (auto simp: inj_on_def)
  show "tq_inv E ?s'"
  proof (rule tq_invI)
    show "sorted (tq_timers ?s')" using tq_invD(1) [OF inv] by (simp add: removeAll_filter_not_eq sorted_filter [where f=id, simplified])
    show "distinct (map snd (tq_timers ?s'))"
      using dist inj by (simp add: distinct_map distinct_removeAll inj_on_subset)
    show "timer_ok (tq_heap ?s') f" if f: "f \<in> set (tq_timers ?s')" for f
    proof -
      have "f \<in> set (tq_timers s)" "snd e \<noteq> snd f" using f out by force+
      then show ?thesis using tq_invD(3) [OF inv] by (simp add: timer_ok_upd)
    qed
    have "active_of (tq_heap s) ` (set (tq_timers s) - {e}) = tq_active s - {active_of (tq_heap s) e}"
      using tq_invD(4) [OF inv] inj_active_of [OF tq_invD(2) [OF inv]] e
      by (simp add: inj_on_image_set_diff [where C="set (tq_timers s)"])
    then show "tq_active ?s' = active_of (tq_heap ?s') ` set (tq_timers ?s')"
      using active_of_upd [OF out, of "tq_heap s" None] by simp
    show "dom (tq_heap ?s') = snd ` set (tq_timers ?s') \<union> E"
      using tq_invD(5,6) [OF inv] out e by auto
  qed (use tq_invD [OF inv] in \<open>auto simp: heap_ok_delete\<close>)
qed

lemma active_entry:
  assumes "tq_inv E s" "tid \<in> tq_active s"
  obtains e tm where "e \<in> set (tq_timers s)" "tid = active_of (tq_heap s) e"
    "tq_heap s (fst tid) = Some tm" "e = (tm_expiration tm, fst tid)"
proof -
  obtain e where e: "e \<in> set (tq_timers s)" "tid = active_of (tq_heap s) e"
    using assms tq_invD(4) by blast
  obtain tm where "tq_heap s (snd e) = Some tm" "tm_expiration tm = fst e"
    using tq_inv_entry [OF assms(1) e(1)] .
  with e show ?thesis by (intro that [of e tm]) (auto simp: active_of_def prod_eq_iff)
qed

lemma cancelInLoop_active:
  assumes inv: "tq_inv E s" and tid: "tid \<in> tq_active s"
  shows "\<exists>e s'. e \<in> set (tq_timers s) \<and> tid = active_of (tq_heap s) e \<and>
     s' = s\<lparr>tq_timers := removeAll e (tq_timers s), tq_heap := (tq_heap s)(fst tid := None),
            tq_active := tq_active s - {tid}\<rparr> \<and>
     cancelInLoop tid s = Inr s' \<and> tq_inv E s'"
proof -
  obtain e tm where e: "e \<in> set (tq_timers s)" "tid = active_of (tq_heap s) e"
    "tq_heap s (fst tid) = Some tm" "e = (tm_expiration tm, fst tid)"
    using active_entry [OF inv tid] .
  have snd: "snd e = fst tid" using e(4) by simp
  note rem = tq_inv_remove [OF inv e(1), folded e(2), unfolded snd]
  have "cancelInLoop tid s = Inr (s\<lparr>tq_timers := removeAll e (tq_timers s),
      tq_heap := (tq_heap s)(fst tid := None), tq_active := tq_active s - {tid}\<rparr>)"
    unfolding cancelInLoop_def tq_deref_def using tid e(3) rem(1) tq_inv_sizes [OF inv] tq_inv_sizes [OF rem(2)]
    by (simp add: Let_def e(4) [symmetric])
  with e rem(2) show ?thesis by blast
qed

lemma cancelInLoop_inactive:
  assumes inv: "tq_inv E s" and tid: "tid \<notin> tq_active s"
  shows "cancelInLoop tid s =
     Inr (if tq_calling s then s\<lparr>tq_canceling := insert tid (tq_canceling s)\<rparr> else s)"
  using tq_inv_sizes [OF inv] tid by (simp add: cancelInLoop_def sizes_agree_def)

lemma expire_fold:
  assumes "distinct (map snd xs)" "\<And>e. e \<in> set xs \<Longrightarrow> tq_heap st (snd e) \<noteq> None"
    "active_of (tq_heap st) ` set xs \<subseteq> tq_active st"
  shows "rfold (\<lambda>e st. rbind (tq_deref (snd e) st) (\<lambda>tm.
           assertm ((snd e, tm_sequence tm) \<in> tq_active st)
             (Inr (st\<lparr>tq_active := tq_active st - {(snd e, tm_sequence tm)}\<rparr>)))) xs st =
         Inr (st\<lparr>tq_active := tq_active st - active_of (tq_heap st) ` set xs\<rparr>)"
  using assms
proof (induction xs arbitrary: st)
  case (Cons e xs)
  obtain tm where tm: "tq_heap st (snd e) = Some tm" using Cons.prems(2) [of e] by auto
  let ?st = "st\<lparr>tq_active := tq_active st - {active_of (tq_heap st) e}\<rparr>"
  have "active_of (tq_heap st) e \<notin> active_of (tq_heap st) ` set xs"
    using Cons.prems(1) by (auto simp: active_of_def)
  then have sub: "active_of (tq_heap ?st) ` set xs \<subseteq> tq_active ?st" using Cons.prems(3) by auto
  have e: "(snd e, tm_sequence tm) = active_of (tq_heap st) e" by (simp add: active_of_def tm)
  show ?case
    using Cons.IH [OF _ _ sub] Cons.prems tm by (simp add: tq_deref_def e Diff_insert2 [symmetric])
qed simp

lemma before_sentry:
  assumes "tq_inv E s" "e \<in> set (tq_timers s)"
  shows "e < (now, uintptr_max) \<longleftrightarrow> fst e \<le> now"
proof -
  have "snd e < uintptr_max"
    using tq_inv_entry [OF assms] tq_invD(7) [OF assms(1)] unfolding heap_ok_def by metis
  then show ?thesis by (cases e) (auto simp: less_prod_def)
qed

definition expired_at :: "Timestamp \<Rightarrow> timer_queue \<Rightarrow> (Timestamp \<times> timer_ptr) list" where
  "expired_at now s = filter (\<lambda>e. fst e \<le> now) (tq_timers s)"

lemma sorted_take_drop_filter:
  fixes xs :: "(Timestamp \<times> timer_ptr) list"
  assumes "sorted xs"
  shows "takeWhile (\<lambda>e. fst e \<le> now) xs = filter (\<lambda>e. fst e \<le> now) xs"
    and "dropWhile (\<lambda>e. fst e \<le> now) xs = filter (\<lambda>e. \<not> fst e \<le> now) xs"
proof -
  have "takeWhile (\<lambda>e. fst e \<le> now) xs = filter (\<lambda>e. fst e \<le> now) xs \<and>
    dropWhile (\<lambda>e. fst e \<le> now) xs = filter (\<lambda>e. \<not> fst e \<le> now) xs"
    using assms
  proof (induction xs)
    case (Cons a xs)
    show ?case
    proof (cases "fst a \<le> now")
      case False
      then have late: "\<not> fst e \<le> now" if "e \<in> set xs" for e
        using Cons.prems that by (force simp: less_eq_prod_def)
      have "filter (\<lambda>e. fst e \<le> now) xs = []" "filter (\<lambda>e. \<not> fst e \<le> now) xs = xs"
        unfolding filter_empty_conv filter_id_conv using late by blast+
      with False show ?thesis by simp
    qed (use Cons in simp)
  qed simp
  then show "takeWhile (\<lambda>e. fst e \<le> now) xs = filter (\<lambda>e. fst e \<le> now) xs"
    and "dropWhile (\<lambda>e. fst e \<le> now) xs = filter (\<lambda>e. \<not> fst e \<le> now) xs" by blast+
qed

lemma takeWhile_dropWhile_cong:
  assumes "\<And>x. x \<in> set xs \<Longrightarrow> P x = Q x"
  shows "takeWhile P xs = takeWhile Q xs" "dropWhile P xs = dropWhile Q xs"
  using assms by (induction xs) auto

lemma getExpired_ok:
  fixes now :: Timestamp
  assumes inv: "tq_inv E s"
  defines "s' \<equiv> s\<lparr>tq_timers := filter (\<lambda>e. \<not> fst e \<le> now) (tq_timers s),
                  tq_active := active_of (tq_heap s) ` {e \<in> set (tq_timers s). \<not> fst e \<le> now}\<rparr>"
  shows "getExpired now s = Inr (expired_at now s, s')"
    and "tq_inv (snd ` set (expired_at now s) \<union> E) s'"
proof -
  let ?D = "{e \<in> set (tq_timers s). \<not> fst e \<le> now}"
  have dist: "distinct (map snd (tq_timers s))" by (rule tq_invD(2) [OF inv])
  then have inj: "inj_on snd (set (tq_timers s))" by (simp add: distinct_map)
  have disj: "snd ` ?D \<inter> snd ` set (expired_at now s) = {}"
    using inj by (auto simp: expired_at_def inj_on_def)
  have "snd ` ?D \<inter> E = {}" using tq_invD(6) [OF inv] by blast
  note disj = disj this
  show inv': "tq_inv (snd ` set (expired_at now s) \<union> E) s'"
  proof (rule tq_invI)
    show "distinct (map snd (tq_timers s'))"
      using dist by (auto simp: s'_def distinct_map inj_on_def)
    show "dom (tq_heap s') = snd ` set (tq_timers s') \<union> (snd ` set (expired_at now s) \<union> E)"
      using tq_invD(5) [OF inv] by (auto simp: s'_def expired_at_def)
    show "sorted (tq_timers s')"
      using tq_invD(1) [OF inv] by (simp add: s'_def sorted_filter [where f=id, simplified])
  qed (use tq_invD [OF inv] disj in \<open>auto simp: s'_def\<close>)
  have cut: "takeWhile (\<lambda>e. e < (now, uintptr_max)) (tq_timers s) = expired_at now s"
    "dropWhile (\<lambda>e. e < (now, uintptr_max)) (tq_timers s) = filter (\<lambda>e. \<not> fst e \<le> now) (tq_timers s)"
    using takeWhile_dropWhile_cong [of "tq_timers s", OF before_sentry [OF inv, of _ now]]
      sorted_take_drop_filter [OF tq_invD(1) [OF inv], of now]
    by (simp_all add: expired_at_def)
  let ?s1 = "s\<lparr>tq_timers := filter (\<lambda>e. \<not> fst e \<le> now) (tq_timers s)\<rparr>"
  have "active_of (tq_heap s) ` (set (tq_timers s) - set (expired_at now s)) =
        tq_active s - active_of (tq_heap s) ` set (expired_at now s)"
    using inj_active_of [OF dist] tq_invD(4) [OF inv]
    by (simp add: inj_on_image_set_diff [where C="set (tq_timers s)"] expired_at_def)
  moreover have "set (tq_timers s) - set (expired_at now s) = ?D" by (auto simp: expired_at_def)
  ultimately have act: "?s1\<lparr>tq_active := tq_active s - active_of (tq_heap s) ` set (expired_at now s)\<rparr> = s'"
    by (simp add: s'_def)
  have fold: "rfold (\<lambda>e st. rbind (tq_deref (snd e) st) (\<lambda>tm.
           assertm ((snd e, tm_sequence tm) \<in> tq_active st)
             (Inr (st\<lparr>tq_active := tq_active st - {(snd e, tm_sequence tm)}\<rparr>)))) (expired_at now s) ?s1 = Inr s'"
    unfolding act [symmetric]
  proof (rule expire_fold [of "expired_at now s" ?s1, simplified])
    show "distinct (map snd (expired_at now s))"
      using dist by (auto simp: expired_at_def distinct_map inj_on_def)
    show "\<exists>y. tq_heap s (snd e) = Some y" if "e \<in> set (expired_at now s)" for e
      using tq_invD(3) [OF inv, of e] that by (auto simp: expired_at_def timer_ok_def)
    show "active_of (tq_heap s) ` set (expired_at now s) \<subseteq> tq_active s"
      using tq_invD(4) [OF inv] by (auto simp: expired_at_def)
  qed
  show "getExpired now s = Inr (expired_at now s, s')"
    using fold tq_inv_sizes [OF inv] tq_inv_sizes [OF inv'] by (simp add: getExpired_def Let_def cut)
qed

section \<open>Wake-up\<close>

text \<open>
  The timerfd is armed for an instant no later than every pending timer: it was set, at some
  moment \<open>n\<close>, for an expiration \<open>e\<close>.
\<close>

definition armed_for :: "Timestamp \<Rightarrow> timer_queue \<Rightarrow> bool" where
  "armed_for t s \<longleftrightarrow> (\<exists>n e. tq_armed s = Some (n, howMuchTimeFromNow n e) \<and> e \<le> t)"

definition wake_ok :: "(Timestamp \<Rightarrow> bool) \<Rightarrow> timer_queue \<Rightarrow> bool" where
  "wake_ok P s \<longleftrightarrow> (\<forall>e \<in> set (tq_timers s). P (fst e) \<longrightarrow> armed_for (fst e) s)"

definition down_closed :: "(Timestamp \<Rightarrow> bool) \<Rightarrow> bool" where
  "down_closed P \<longleftrightarrow> (\<forall>a b. a \<le> b \<longrightarrow> P b \<longrightarrow> P a)"

definition timerfd_due :: "Timestamp \<times> timespec \<Rightarrow> Timestamp" where
  "timerfd_due a = fst a + fst (snd a) * 1000000 + snd (snd a) div 1000"

lemma timerfd_due_eq: "timerfd_due (n, howMuchTimeFromNow n e) = max (n + 100) e"
proof -
  have split: "n + c_div m 1000000 * 1000000 + c_mod m 1000000 * 1000 div 1000 = n + m" if "100 \<le> m" for m
    using that by (simp add: c_div_nonneg c_mod_nonneg)
  show ?thesis
    using split [of 100] split [of "e - n"]
    by (cases "e - n < 100")
      (auto simp: timerfd_due_def howMuchTimeFromNow_def Let_def kMicroSecondsPerSecond_def)
qed

lemma armed_for_mono: "armed_for t s \<Longrightarrow> t \<le> u \<Longrightarrow> armed_for u s"
  unfolding armed_for_def by force

lemma sorted_map_fst:
  fixes xs :: "(Timestamp \<times> timer_ptr) list"
  shows "sorted xs \<Longrightarrow> sorted (map fst xs)"
  by (induction xs) (auto simp: less_eq_prod_def)

lemma hd_least:
  fixes xs :: "(Timestamp \<times> timer_ptr) list"
  shows "sorted xs \<Longrightarrow> e \<in> set xs \<Longrightarrow> fst (hd xs) \<le> fst e"
  by (cases xs) (auto simp: less_eq_prod_def)

lemma wake_ok_mono:
  assumes "wake_ok P s" "set (tq_timers s') \<subseteq> set (tq_timers s)" "tq_armed s' = tq_armed s"
  shows "wake_ok P s'"
  using assms unfolding wake_ok_def armed_for_def by auto

lemma wake_ok_add:
  assumes "wake_ok P s" "down_closed P" "sorted (tq_timers s)"
    and "tq_timers s' = insort (t, p) (tq_timers s)"
    and "tq_armed s' = (if tq_timers s = [] \<or> t < fst (hd (tq_timers s))
                        then Some (now, howMuchTimeFromNow now t) else tq_armed s)"
  shows "wake_ok P s'"
proof (cases "tq_timers s = [] \<or> t < fst (hd (tq_timers s))")
  case True
  then have "t \<le> fst e" if "e \<in> set (tq_timers s')" for e
    using that assms(4) hd_least [OF assms(3), of e] by (auto simp: set_insort_key)
  then show ?thesis using True assms(5) by (auto simp: wake_ok_def armed_for_def)
next
  case False
  then have h: "tq_timers s \<noteq> []" "fst (hd (tq_timers s)) \<le> t" by auto
  have arm: "armed_for u s' = armed_for u s" for u using False assms(5) by (simp add: armed_for_def)
  have "armed_for t s" if "P t"
  proof -
    have "P (fst (hd (tq_timers s)))" using assms(2) that h(2) unfolding down_closed_def by blast
    then have "armed_for (fst (hd (tq_timers s))) s"
      using assms(1) h(1) list.set_sel(1) unfolding wake_ok_def by blast
    then show ?thesis using h(2) by (rule armed_for_mono)
  qed
  then show ?thesis using assms(1) by (auto simp: wake_ok_def assms(4) set_insort_key arm)
qed

section \<open>Handling expired timers\<close>

fun tq_call_ok :: "tq_call \<Rightarrow> bool" where
  "tq_call_ok (CallAdd now cb when interval positive) = (positive \<longrightarrow> 0 \<le> interval)"
| "tq_call_ok (CallCancel tid) = True"

text \<open>
  What stays true while callbacks run: the timers of \<open>E\<close> are untouched, whatever the callbacks
  add or cancel.
\<close>

definition calling_ok :: "timer_ptr set \<Rightarrow> (timer_ptr \<rightharpoonup> timer) \<Rightarrow> nat list \<Rightarrow> (Timestamp \<Rightarrow> bool) \<Rightarrow>
    timer_queue \<Rightarrow> bool" where
  "calling_ok E h r P s \<longleftrightarrow> tq_inv E s \<and> (\<forall>p \<in> E. tq_heap s p = h p) \<and> tq_ran s = r \<and> wake_ok P s"

lemma tq_do_call_ok:
  assumes c: "calling_ok E h r P s" and alloc: "malloc_spec alloc" and ok: "tq_call_ok call" and P: "down_closed P"
  shows "ok_or {BadAlloc} (calling_ok E h r P) (tq_do_call alloc call s)"
proof (cases call)
  case (CallAdd now cb t interval positive)
  have inv: "tq_inv E s" and w: "wake_ok P s" using c by (auto simp: calling_ok_def)
  have pos: "positive \<longrightarrow> 0 \<le> interval" using ok CallAdd by simp
  from addTimer_ok [OF inv alloc pos, of now cb t] show ?thesis
  proof (elim disjE exE conjE)
    fix p s'
    assume s': "tq_heap s p = None" "tq_inv E s'" "tq_timers s' = insort (t, p) (tq_timers s)"
      "tq_heap s' = (tq_heap s)(p \<mapsto> new_timer cb t interval positive (tq_numCreated s))"
      "tq_ran s' = tq_ran s" "addTimer alloc now cb t interval positive s = Inr ((p, tq_numCreated s + 1), s')"
      "tq_armed s' = (if tq_timers s = [] \<or> t < fst (hd (tq_timers s))
          then Some (now, howMuchTimeFromNow now t) else tq_armed s)"
    have "wake_ok P s'" by (rule wake_ok_add [OF w P tq_invD(1) [OF inv] s'(3,7)])
    moreover have "p \<notin> E" using tq_invD(5) [OF inv] s'(1) by blast
    ultimately show ?thesis using s' c CallAdd by (auto simp: calling_ok_def)
  qed (simp add: CallAdd)
next
  case (CallCancel tid)
  have inv: "tq_inv E s" using c by (simp add: calling_ok_def)
  show ?thesis
  proof (cases "tid \<in> tq_active s")
    case True
    then obtain e s' where s': "e \<in> set (tq_timers s)" "tid = active_of (tq_heap s) e" "tq_inv E s'"
      "cancelInLoop tid s = Inr s'"
      "s' = s\<lparr>tq_timers := removeAll e (tq_timers s), tq_heap := (tq_heap s)(fst tid := None),
              tq_active := tq_active s - {tid}\<rparr>"
      using cancelInLoop_active [OF inv] by blast
    have "fst tid \<notin> E" using tq_invD(6) [OF inv] s'(1,2) by (auto simp: active_of_def)
    moreover have "wake_ok P s'" using c s'(5) by (intro wake_ok_mono [of P s s']) (auto simp: calling_ok_def)
    ultimately show ?thesis using c s' CallCancel by (auto simp: calling_ok_def)
  next
    case False
    have "calling_ok E h r P (s\<lparr>tq_canceling := X\<rparr>)" for X
      using c tq_inv_cong [OF inv, of "s\<lparr>tq_canceling := X\<rparr>"]
      by (auto simp: calling_ok_def wake_ok_def armed_for_def)
    then show ?thesis using c by (simp add: CallCancel cancelInLoop_inactive [OF inv False])
  qed
qed

lemma timer_run_ok:
  assumes c: "calling_ok E h r P s" and alloc: "malloc_spec alloc" and P: "down_closed P" and p: "p \<in> E"
    and ok: "\<And>cb call. call \<in> set (cbs cb) \<Longrightarrow> tq_call_ok call"
  shows "ok_or {BadAlloc} (calling_ok E h (r @ [tm_callback (the (h p))]) P) (timer_run alloc cbs p s)"
proof -
  have inv: "tq_inv E s" and hp: "tq_heap s p = h p" using c p by (auto simp: calling_ok_def)
  obtain tm where tm: "tq_heap s p = Some tm" using tq_inv_E_live [OF inv p] .
  let ?s = "s\<lparr>tq_ran := tq_ran s @ [tm_callback tm]\<rparr>"
  have "calling_ok E h (r @ [tm_callback tm]) P ?s"
    using c tq_inv_cong [OF inv, of ?s] by (auto simp: calling_ok_def wake_ok_def armed_for_def)
  then have "ok_or {BadAlloc} (calling_ok E h (r @ [tm_callback tm]) P)
      (rfold (tq_do_call alloc) (cbs (tm_callback tm)) ?s)"
    by (rule ok_or_rfold) (rule tq_do_call_ok [OF _ alloc ok P])
  then show ?thesis using tm hp by (simp add: timer_run_def tq_deref_def)
qed

lemma run_expired_ok:
  assumes "calling_ok E h r P s" and alloc: "malloc_spec alloc" and P: "down_closed P"
    and "snd ` set xs \<subseteq> E" and ok: "\<And>cb call. call \<in> set (cbs cb) \<Longrightarrow> tq_call_ok call"
  shows "ok_or {BadAlloc} (calling_ok E h (r @ map (\<lambda>e. tm_callback (the (h (snd e)))) xs) P)
           (rfold (\<lambda>e. timer_run alloc cbs (snd e)) xs s)"
  using assms(1,4)
proof (induction xs arbitrary: r s)
  case (Cons e xs)
  show ?case
    unfolding rfold.simps
  proof (rule ok_or_bind)
    show "ok_or {BadAlloc} (calling_ok E h (r @ [tm_callback (the (h (snd e)))]) P) (timer_run alloc cbs (snd e) s)"
      using Cons.prems by (intro timer_run_ok [OF _ alloc P _ ok]) auto
  next
    fix s' assume "calling_ok E h (r @ [tm_callback (the (h (snd e)))]) P s'"
    with Cons.IH [of "r @ [tm_callback (the (h (snd e)))]" s'] Cons.prems(2)
    show "ok_or {BadAlloc} (calling_ok E h (r @ map (\<lambda>e. tm_callback (the (h (snd e)))) (e # xs)) P)
        (rfold (\<lambda>e. timer_run alloc cbs (snd e)) xs s')"
      by simp
  qed
qed simp

definition reset_cell :: "Timestamp \<Rightarrow> (timer_ptr \<times> int) set \<Rightarrow> timer_ptr \<Rightarrow> timer \<Rightarrow> timer option" where
  "reset_cell now c p tm =
     (if tm_repeat tm \<and> (p, tm_sequence tm) \<notin> c then Some (timer_restart now tm) else None)"

text \<open>One timer restarted or deleted, and what the operation leaves alone.\<close>

definition reset_frame :: "timer_queue \<Rightarrow> timer_queue \<Rightarrow> bool" where
  "reset_frame s s' \<longleftrightarrow> tq_canceling s' = tq_canceling s \<and> tq_ran s' = tq_ran s \<and>
     tq_armed s' = tq_armed s \<and> tq_calling s' = tq_calling s"

lemma reset_one_ok:
  assumes inv: "tq_inv E s" and e: "snd e \<in> E" and h: "tq_heap s (snd e) = Some tm" and now: "0 < now"
  shows "\<exists>s'. reset_one now e s = Inr s' \<and> tq_inv (E - {snd e}) s' \<and> reset_frame s s' \<and>
     tq_heap s' = (tq_heap s)(snd e := reset_cell now (tq_canceling s) (snd e) tm) \<and>
     (\<forall>f \<in> set (tq_timers s'). f \<in> set (tq_timers s) \<or> 0 < fst f)"
proof (cases "tm_repeat tm \<and> (snd e, tm_sequence tm) \<notin> tq_canceling s")
  case True
  let ?tm = "timer_restart now tm"
  let ?s1 = "s\<lparr>tq_heap := (tq_heap s)(snd e \<mapsto> ?tm)\<rparr>"
  have "snd e < uintptr_max" "0 \<le> tm_interval tm"
    using tq_inv_E_live [OF inv e] h True by auto
  then have inv1: "tq_inv (insert (snd e) E) ?s1"
    using True tq_invD(6) [OF inv] e by (intro tq_inv_write [OF inv]) (auto simp: timer_restart_def)
  have tm1: "tq_heap ?s1 (snd e) = Some ?tm" by simp
  have "0 < tm_expiration ?tm" using now True \<open>0 \<le> tm_interval tm\<close> by (simp add: timer_restart_def addTime_def)
  then show ?thesis
    using tq_insert_ok [OF inv1 insertI1 tm1] h True
    by (auto simp: reset_one_def tq_deref_def reset_frame_def reset_cell_def set_insort_key)
next
  case False
  then show ?thesis using tq_inv_free [OF inv e] h
    by (auto simp: reset_one_def tq_deref_def reset_frame_def reset_cell_def)
qed

lemma reset_fold_ok:
  assumes "tq_inv (snd ` set xs \<union> E) s" "distinct (map snd xs)" "0 < now" "wake_ok (\<lambda>t. t \<le> 0) s"
    "snd ` set xs \<inter> E = {}"
  shows "\<exists>s'. rfold (reset_one now) xs s = Inr s' \<and> tq_inv E s' \<and> reset_frame s s' \<and>
     wake_ok (\<lambda>t. t \<le> 0) s' \<and>
     (\<forall>e \<in> set xs. tq_heap s' (snd e) = reset_cell now (tq_canceling s) (snd e) (the (tq_heap s (snd e)))) \<and>
     (\<forall>p. p \<notin> snd ` set xs \<longrightarrow> tq_heap s' p = tq_heap s p)"
  using assms
proof (induction xs arbitrary: s)
  case Nil
  then show ?case by (simp add: reset_frame_def)
next
  case (Cons e xs)
  obtain tm where tm: "tq_heap s (snd e) = Some tm"
    using tq_inv_E_live [OF Cons.prems(1), of "snd e"] by auto
  obtain s1 where s1: "reset_one now e s = Inr s1" "tq_inv (snd ` set (e # xs) \<union> E - {snd e}) s1" "reset_frame s s1"
    "tq_heap s1 = (tq_heap s)(snd e := reset_cell now (tq_canceling s) (snd e) tm)"
    "\<forall>f \<in> set (tq_timers s1). f \<in> set (tq_timers s) \<or> 0 < fst f"
    using reset_one_ok [OF Cons.prems(1) _ tm Cons.prems(3)] by auto
  have "snd ` set (e # xs) \<union> E - {snd e} = snd ` set xs \<union> E" using Cons.prems(2,5) by auto
  then have inv1: "tq_inv (snd ` set xs \<union> E) s1" using s1(2) by simp
  have "wake_ok (\<lambda>t. t \<le> 0) s1"
    using Cons.prems(4) s1(3,5) by (force simp: wake_ok_def armed_for_def reset_frame_def)
  from Cons.IH [OF inv1 _ Cons.prems(3) this] Cons.prems(2,5)
  obtain s' where s': "rfold (reset_one now) xs s1 = Inr s'" "tq_inv E s'" "reset_frame s1 s'" "wake_ok (\<lambda>t. t \<le> 0) s'"
    "\<forall>e \<in> set xs. tq_heap s' (snd e) = reset_cell now (tq_canceling s1) (snd e) (the (tq_heap s1 (snd e)))"
    "\<forall>p. p \<notin> snd ` set xs \<longrightarrow> tq_heap s' p = tq_heap s1 p"
    by auto
  have "snd f \<noteq> snd e" if "f \<in> set xs" for f using that Cons.prems(2) by (auto simp: image_iff)
  then have "tq_heap s1 (snd f) = tq_heap s (snd f)" if "f \<in> set xs" for f using that s1(4) by simp
  then show ?case
    using s1 s' Cons.prems(2) tm by (auto simp: reset_frame_def)
qed

lemma tq_reset_ok:
  assumes "tq_inv (snd ` set xs \<union> E) s" "distinct (map snd xs)" "0 < now" "wake_ok (\<lambda>t. t \<le> 0) s"
    "snd ` set xs \<inter> E = {}"
  shows "\<exists>s'. tq_reset now2 xs now s = Inr s' \<and> tq_inv E s' \<and> wake_ok (\<lambda>_. True) s' \<and>
     tq_canceling s' = tq_canceling s \<and> tq_ran s' = tq_ran s \<and> tq_calling s' = tq_calling s \<and>
     (\<forall>e \<in> set xs. tq_heap s' (snd e) = reset_cell now (tq_canceling s) (snd e) (the (tq_heap s (snd e)))) \<and>
     (\<forall>p. p \<notin> snd ` set xs \<longrightarrow> tq_heap s' p = tq_heap s p)"
proof -
  obtain s1 where s1: "rfold (reset_one now) xs s = Inr s1" "tq_inv E s1" "reset_frame s s1" "wake_ok (\<lambda>t. t \<le> 0) s1"
    "\<forall>e \<in> set xs. tq_heap s1 (snd e) = reset_cell now (tq_canceling s) (snd e) (the (tq_heap s (snd e)))"
    "\<forall>p. p \<notin> snd ` set xs \<longrightarrow> tq_heap s1 p = tq_heap s p"
    using reset_fold_ok [OF assms] by blast
  let ?t = "fst (hd (tq_timers s1))"
  show ?thesis
  proof (cases "tq_timers s1 = []")
    case True
    then have "wake_ok (\<lambda>_. True) s1" by (simp add: wake_ok_def)
    with True s1 show ?thesis by (auto simp: tq_reset_def ts_valid_def ts_invalid_def reset_frame_def)
  next
    case False
    have le: "?t \<le> fst e" if "e \<in> set (tq_timers s1)" for e using hd_least [OF tq_invD(1) [OF s1(2)] that] .
    obtain tm where tm: "tq_heap s1 (snd (hd (tq_timers s1))) = Some tm" "tm_expiration tm = ?t"
      using tq_inv_entry [OF s1(2), of "hd (tq_timers s1)"] False by auto
    let ?s2 = "if 0 < ?t then resetTimerfd now2 ?t s1 else s1"
    have "tq_reset now2 xs now s = Inr ?s2"
      using s1(1) tm False by (auto simp: tq_reset_def tq_deref_def ts_valid_def)
    moreover have "tq_inv E ?s2" by (rule tq_inv_cong [OF s1(2)]) (auto simp: resetTimerfd_def)
    moreover have "wake_ok (\<lambda>_. True) ?s2"
    proof (cases "0 < ?t")
      case True
      then show ?thesis using le by (auto simp: wake_ok_def armed_for_def resetTimerfd_def)
    next
      case early: False
      then have "armed_for ?t s1" using s1(4) False unfolding wake_ok_def by (auto simp: list.set_sel)
      then show ?thesis using early le by (auto simp: wake_ok_def intro: armed_for_mono)
    qed
    ultimately show ?thesis using s1 by (auto simp: reset_frame_def resetTimerfd_def)
  qed
qed

lemma tq_handleRead_ok:
  assumes inv: "tq_inv E s" and alloc: "malloc_spec alloc" and now: "0 < now"
    and ok: "\<And>cb call. call \<in> set (cbs cb) \<Longrightarrow> tq_call_ok call"
  shows "ok_or {BadAlloc} (\<lambda>s'. tq_inv E s' \<and> wake_ok (\<lambda>_. True) s' \<and>
       tq_ran s' = tq_ran s @ map (\<lambda>e. tm_callback (the (tq_heap s (snd e)))) (expired_at now s) \<and>
       (\<forall>e \<in> set (expired_at now s).
          tq_heap s' (snd e) = reset_cell now (tq_canceling s') (snd e) (the (tq_heap s (snd e)))) \<and>
       (\<forall>p \<in> E. tq_heap s' p = tq_heap s p))
     (tq_handleRead alloc cbs now now2 s)"
proof -
  let ?X = "expired_at now s" and ?P = "\<lambda>t. t \<le> (0::Timestamp)"
  let ?E = "snd ` set ?X \<union> E" and ?r = "map (\<lambda>e. tm_callback (the (tq_heap s (snd e)))) (expired_at now s)"
  let ?s0 = "s\<lparr>tq_armed := None\<rparr>"
  have inv0: "tq_inv E ?s0" by (rule tq_inv_cong [OF inv]) simp_all
  have X0: "expired_at now ?s0 = ?X" by (simp add: expired_at_def)
  obtain s1 where s1: "getExpired now ?s0 = Inr (?X, s1)" "tq_inv ?E s1" "tq_heap s1 = tq_heap s" "tq_ran s1 = tq_ran s"
    "\<forall>e \<in> set (tq_timers s1). now < fst e"
    using getExpired_ok [OF inv0, of now] by (auto simp: X0)
  let ?s1 = "s1\<lparr>tq_calling := True, tq_canceling := {}\<rparr>"
  have "wake_ok ?P ?s1" using s1(5) now by (auto simp: wake_ok_def)
  then have c1: "calling_ok ?E (tq_heap s) (tq_ran s) ?P ?s1"
    using s1 tq_inv_cong [OF s1(2), of ?s1] by (simp add: calling_ok_def)
  have dist: "distinct (map snd ?X)"
    using tq_invD(2) [OF inv] by (auto simp: expired_at_def distinct_map inj_on_def)
  have sub: "snd ` set ?X \<subseteq> ?E" by simp
  have disj: "snd ` set ?X \<inter> E = {}" using tq_invD(6) [OF inv] by (auto simp: expired_at_def)
  show ?thesis
    unfolding tq_handleRead_def s1(1) rbind.simps prod.case
  proof (rule ok_or_bind [OF run_expired_ok [OF c1 alloc _ sub ok]])
    show "down_closed ?P" by (simp add: down_closed_def)
    fix s2 assume "calling_ok ?E (tq_heap s) (tq_ran s @ ?r) ?P s2"
    then have s2: "tq_inv ?E s2" "\<forall>p \<in> ?E. tq_heap s2 p = tq_heap s p" "tq_ran s2 = tq_ran s @ ?r" "wake_ok ?P s2"
      by (auto simp: calling_ok_def)
    let ?s2 = "s2\<lparr>tq_calling := False\<rparr>"
    have "tq_inv ?E ?s2" by (rule tq_inv_cong [OF s2(1)]) simp_all
    moreover have "wake_ok ?P ?s2" by (rule wake_ok_mono [OF s2(4)]) simp_all
    ultimately show "ok_or {BadAlloc} (\<lambda>s'. tq_inv E s' \<and> wake_ok (\<lambda>_. True) s' \<and>
       tq_ran s' = tq_ran s @ ?r \<and> (\<forall>e \<in> set ?X.
          tq_heap s' (snd e) = reset_cell now (tq_canceling s') (snd e) (the (tq_heap s (snd e)))) \<and>
       (\<forall>p \<in> E. tq_heap s' p = tq_heap s p))
       (tq_reset now2 ?X now ?s2)"
      using tq_reset_ok [OF _ dist now _ disj, of ?s2 now2] s2 disj by fastforce
  qed
qed

lemma destroy_fold:
  assumes "distinct (map snd xs)" "\<And>e. e \<in> set xs \<Longrightarrow> tq_heap s (snd e) \<noteq> None"
  shows "rfold (\<lambda>e. timer_delete (snd e)) xs s =
    Inr (s\<lparr>tq_heap := tq_heap s |` (- snd ` set xs)\<rparr>)"
  using assms
proof (induction xs arbitrary: s)
  case Nil
  then show ?case by (simp add: restrict_map_def)
next
  case (Cons e xs)
  obtain tm where tm: "tq_heap s (snd e) = Some tm" using Cons.prems(2) [of e] by auto
  have ne: "snd f \<noteq> snd e" if "f \<in> set xs" for f using that Cons.prems(1) by (auto simp: image_iff)
  let ?s = "s\<lparr>tq_heap := (tq_heap s)(snd e := None)\<rparr>"
  have del: "timer_delete (snd e) s = Inr ?s" by (simp add: timer_delete_def tq_deref_def tm)
  have "rfold (\<lambda>e. timer_delete (snd e)) xs ?s = Inr (?s\<lparr>tq_heap := tq_heap ?s |` (- snd ` set xs)\<rparr>)"
    using Cons.prems ne by (intro Cons.IH) auto
  moreover have "tq_heap ?s |` (- snd ` set xs) = tq_heap s |` (- snd ` set (e # xs))"
    by (auto simp: restrict_map_def fun_eq_iff)
  ultimately show ?case using del by simp
qed

text \<open>The destructor frees every live timer, and none twice.\<close>

lemma tq_destroy_frees:
  assumes "tq_inv {} s"
  shows "\<exists>s'. tq_destroy s = Inr s' \<and> tq_heap s' = Map.empty"
proof -
  have "tq_heap s |` (- snd ` set (tq_timers s)) = Map.empty"
    using tq_invD(5) [OF assms] by (auto simp: restrict_map_def fun_eq_iff domIff)
  moreover have "tq_heap s (snd e) \<noteq> None" if "e \<in> set (tq_timers s)" for e
    using tq_invD(3) [OF assms that] by (auto simp: timer_ok_def)
  ultimately show ?thesis
    using destroy_fold [OF tq_invD(2) [OF assms], of s] by (simp add: tq_destroy_def)
qed

section \<open>Runs of the timer queue\<close>

text \<open>Everything that happens to a queue: calls from its loop's thread and firings of the timerfd.\<close>

datatype tq_op =
    TQCall tq_call
  | TQFire Timestamp Timestamp

fun tq_op_ok :: "tq_op \<Rightarrow> bool" where
  "tq_op_ok (TQCall call) = tq_call_ok call"
| "tq_op_ok (TQFire now now2) = (0 < now)"

fun tq_step :: "allocator \<Rightarrow> (nat \<Rightarrow> tq_call list) \<Rightarrow> tq_op \<Rightarrow> timer_queue \<Rightarrow> timer_queue res" where
  "tq_step alloc cbs (TQCall call) s = tq_do_call alloc call s"
| "tq_step alloc cbs (TQFire now now2) s = tq_handleRead alloc cbs now now2 s"

definition tq_good :: "timer_queue \<Rightarrow> bool" where
  "tq_good s \<longleftrightarrow> tq_inv {} s \<and> wake_ok (\<lambda>_. True) s"

lemma tq_good_new: "tq_good new_timer_queue"
  by (simp add: tq_good_def tq_inv_def new_timer_queue_def wake_ok_def heap_ok_def)

lemma tq_step_good:
  assumes "malloc_spec alloc" "\<And>cb call. call \<in> set (cbs cb) \<Longrightarrow> tq_call_ok call" "tq_good s" "tq_op_ok op"
  shows "ok_or {BadAlloc} tq_good (tq_step alloc cbs op s)"
proof (cases op)
  case (TQCall call)
  have "calling_ok {} (tq_heap s) (tq_ran s) (\<lambda>_. True) s" using assms(3) by (simp add: tq_good_def calling_ok_def)
  from tq_do_call_ok [OF this assms(1), of call] assms(4) TQCall show ?thesis
    by (auto simp: down_closed_def tq_good_def calling_ok_def elim: ok_or_mono)
next
  case (TQFire now now2)
  then show ?thesis
    using tq_handleRead_ok [of "{}" s alloc now cbs now2] assms
    by (auto simp: tq_good_def elim: ok_or_mono)
qed

definition tq_env_ok :: "allocator \<Rightarrow> (nat \<Rightarrow> tq_call list) \<Rightarrow> bool" where
  "tq_env_ok alloc cbs \<longleftrightarrow> malloc_spec alloc \<and> (\<forall>cb. \<forall>call \<in> set (cbs cb). tq_call_ok call)"

interpretation tqm: safe_machine "tq_step alloc cbs" "\<lambda>op s. tq_env_ok alloc cbs \<and> tq_op_ok op" tq_good "{BadAlloc}"
  for alloc cbs
proof
  show "ok_or {BadAlloc} tq_good (tq_step alloc cbs op s)"
    if "tq_good s" "tq_env_ok alloc cbs \<and> tq_op_ok op" for s op
    using that tq_step_good [of alloc cbs s op] unfolding tq_env_ok_def by blast
qed

lemma tq_inv_live_entry:
  assumes "tq_inv {} s" "tq_heap s p = Some tm"
  shows "(tm_expiration tm, p) \<in> set (tq_timers s)"
proof -
  have "p \<in> snd ` set (tq_timers s)" using tq_invD(5) [OF assms(1)] assms(2) by auto
  then obtain e where e: "e \<in> set (tq_timers s)" "snd e = p" by auto
  obtain tm' where "tq_heap s (snd e) = Some tm'" "tm_expiration tm' = fst e" using tq_inv_entry [OF assms(1) e(1)] .
  with e assms(2) have "e = (tm_expiration tm, p)" by (simp add: prod_eq_iff)
  with e(1) show ?thesis by simp
qed

text \<open>A first-fit allocator, for the concrete runs.\<close>

definition first_fit :: "timer_ptr list \<Rightarrow> allocator" where
  "first_fit ps h = List.find (\<lambda>p. h p = None) ps"

lemma first_fit_spec: "\<forall>p \<in> set ps. p < uintptr_max \<Longrightarrow> malloc_spec (first_fit ps)"
  by (auto simp: malloc_spec_def first_fit_def find_Some_iff)

section \<open>Properties\<close>

text \<open>
  C9: whatever sequence of additions, cancellations and firings happens to a new timer queue,
  and whatever its callbacks add or cancel, no assertion fails and no deleted timer is touched
  (only the allocator can fail), the live timers are exactly those in \<open>timers_\<close>, each under its
  expiration, \<open>activeTimers_\<close> has the same timers, and while a timer is pending the timerfd is
  armed to fire no later than its expiration, or 100 microseconds after it was set.
\<close>

theorem timer_queue_safe:
  assumes "tq_env_ok alloc cbs" "\<forall>op \<in> set ops. tq_op_ok op"
  shows "ok_or {BadAlloc} (\<lambda>s. sizes_agree s \<and> dom (tq_heap s) = snd ` set (tq_timers s) \<and>
       (\<forall>p tm. tq_heap s p = Some tm \<longrightarrow> (tm_expiration tm, p) \<in> set (tq_timers s) \<and>
          (p, tm_sequence tm) \<in> tq_active s \<and>
          (\<exists>a. tq_armed s = Some a \<and> timerfd_due a \<le> max (fst a + 100) (tm_expiration tm))))
     (rfold (tq_step alloc cbs) ops new_timer_queue)"
proof (rule ok_or_mono [OF tqm.run_safe [OF tq_good_new]])
  show "run_legal (\<lambda>op s. tq_env_ok alloc cbs \<and> tq_op_ok op) (tq_step alloc cbs) ops new_timer_queue"
    using assms by (intro run_legal_static) simp
next
  fix s assume "tq_good s"
  then have inv: "tq_inv {} s" and w: "wake_ok (\<lambda>_. True) s" by (auto simp: tq_good_def)
  have live: "(tm_expiration tm, p) \<in> set (tq_timers s) \<and> (p, tm_sequence tm) \<in> tq_active s \<and>
      (\<exists>a. tq_armed s = Some a \<and> timerfd_due a \<le> max (fst a + 100) (tm_expiration tm))"
    if tm: "tq_heap s p = Some tm" for p tm
  proof -
    have e: "(tm_expiration tm, p) \<in> set (tq_timers s)" by (rule tq_inv_live_entry [OF inv tm])
    then have "(p, tm_sequence tm) \<in> tq_active s"
      unfolding tq_invD(4) [OF inv] by (rule rev_image_eqI) (simp add: active_of_def tm)
    moreover obtain n x where "tq_armed s = Some (n, howMuchTimeFromNow n x)" "x \<le> tm_expiration tm"
      using w e unfolding wake_ok_def armed_for_def by fastforce
    ultimately show ?thesis using e by (intro conjI exI [of _ "(n, howMuchTimeFromNow n x)"]) (auto simp: timerfd_due_eq)
  qed
  show "sizes_agree s \<and> dom (tq_heap s) = snd ` set (tq_timers s) \<and>
       (\<forall>p tm. tq_heap s p = Some tm \<longrightarrow> (tm_expiration tm, p) \<in> set (tq_timers s) \<and>
          (p, tm_sequence tm) \<in> tq_active s \<and>
          (\<exists>a. tq_armed s = Some a \<and> timerfd_due a \<le> max (fst a + 100) (tm_expiration tm)))"
    using tq_inv_sizes [OF inv] tq_invD(5) [OF inv] live by (simp del: split_paired_All)
qed

text \<open>
  C19: a firing at \<open>now\<close> runs the callbacks of exactly the timers due by then, once each and in
  order of expiration; afterwards each of them has been restarted, one interval after \<open>now\<close>, if
  it repeats and no callback cancelled it, and deleted otherwise.
\<close>

theorem handleRead_runs_expired:
  assumes "tq_inv {} s" "tq_env_ok alloc cbs" "0 < now" "tq_handleRead alloc cbs now now2 s = Inr s'"
  shows "tq_ran s' = tq_ran s @ map (\<lambda>e. tm_callback (the (tq_heap s (snd e)))) (expired_at now s) \<and>
     sorted (map fst (expired_at now s)) \<and>
     (\<forall>e tm. e \<in> set (tq_timers s) \<longrightarrow> fst e \<le> now \<longrightarrow> tq_heap s (snd e) = Some tm \<longrightarrow>
       (if tm_repeat tm \<and> (snd e, tm_sequence tm) \<notin> tq_canceling s'
        then tq_heap s' (snd e) = Some (tm\<lparr>tm_expiration := now + tm_interval tm\<rparr>) \<and>
             (now + tm_interval tm, snd e) \<in> set (tq_timers s')
        else tq_heap s' (snd e) = None))"
proof -
  have post: "tq_inv {} s'"
    "tq_ran s' = tq_ran s @ map (\<lambda>e. tm_callback (the (tq_heap s (snd e)))) (expired_at now s)"
    "\<And>e. e \<in> set (expired_at now s) \<Longrightarrow>
          tq_heap s' (snd e) = reset_cell now (tq_canceling s') (snd e) (the (tq_heap s (snd e)))"
    using tq_handleRead_ok [of "{}" s alloc now cbs now2] assms by (auto simp: tq_env_ok_def)
  have "sorted (map fst (tq_timers s))" using tq_invD(1) [OF assms(1)] by (rule sorted_map_fst)
  then have "sorted (map fst (expired_at now s))" unfolding expired_at_def by (rule sorted_filter)
  moreover have "if tm_repeat tm \<and> (snd e, tm_sequence tm) \<notin> tq_canceling s'
        then tq_heap s' (snd e) = Some (tm\<lparr>tm_expiration := now + tm_interval tm\<rparr>) \<and>
             (now + tm_interval tm, snd e) \<in> set (tq_timers s')
        else tq_heap s' (snd e) = None"
    if "e \<in> set (tq_timers s)" "fst e \<le> now" "tq_heap s (snd e) = Some tm" for e tm
    using post(3) [of e] tq_inv_live_entry [OF post(1), of "snd e"] that
    by (auto simp: expired_at_def reset_cell_def timer_restart_def addTime_def)
  ultimately show ?thesis using post(2) by blast
qed

text \<open>
  Cancelling a timer with the id its creation returned takes it out again: the timers, the
  active set and the heap are those from before \<open>addTimer\<close>, whatever state the queue was in.
\<close>

theorem add_cancel_round_trip:
  assumes "tq_inv E s" "malloc_spec alloc" "positive \<longrightarrow> 0 \<le> interval"
    and "addTimer alloc now cb t interval positive s = Inr (tid, s1)"
  shows "\<exists>s2. cancelInLoop tid s1 = Inr s2 \<and> tq_timers s2 = tq_timers s \<and>
     tq_active s2 = tq_active s \<and> tq_heap s2 = tq_heap s"
proof -
  obtain p where p: "tq_heap s p = None" "tid = (p, tq_numCreated s + 1)" "tq_inv E s1"
      "tq_timers s1 = insort (t, p) (tq_timers s)" "tq_active s1 = insert tid (tq_active s)"
      "tq_heap s1 = (tq_heap s)(p \<mapsto> new_timer cb t interval positive (tq_numCreated s))"
    using addTimer_ok [OF assms(1-3), of now cb t] assms(4) by auto
  have new: "p \<notin> snd ` set (tq_timers s)" using tq_invD(5) [OF assms(1)] p(1) by auto
  then have act: "tid \<notin> tq_active s" using tq_invD(4) [OF assms(1)] p(2) by (auto simp: active_of_def)
  obtain e s2 where e: "e \<in> set (tq_timers s1)" "tid = active_of (tq_heap s1) e" "cancelInLoop tid s1 = Inr s2"
    "s2 = s1\<lparr>tq_timers := removeAll e (tq_timers s1), tq_heap := (tq_heap s1)(fst tid := None),
             tq_active := tq_active s1 - {tid}\<rparr>"
    using cancelInLoop_active [OF p(3), of tid] p(5) by blast
  have "snd e = p" using e(2) p(2) by (simp add: active_of_def)
  then have "e = (t, p)" using e(1) p(4) new by (auto simp: set_insort_key image_iff)
  moreover have "(t, p) \<notin> set (tq_timers s)" using new by force
  then have "removeAll (t, p) (insort (t, p) (tq_timers s)) = tq_timers s" by (rule removeAll_insort)
  moreover have "(tq_heap s1)(fst tid := None) = tq_heap s" using p(1,2,6) by (auto simp: fun_eq_iff)
  ultimately show ?thesis using e(3,4) p(4,5) act by simp
qed

text \<open>
  C34: the value handed to \<open>timerfd_settime\<close>, computed in 64 bits, is always a legal timespec that is
  not zero (a zero value would disarm the timer). When the expiration lies within 64 bits of the
  time now, which is so whenever it is not before the epoch, the timer fires at the expiration
  asked for, or 100 microseconds from now when that is later, as in the computation without overflow.
\<close>

theorem howMuchTimeFromNow_bounds:
  assumes "is_int64 now" "is_int64 t" "0 \<le> now"
  shows "let ts = howMuchTimeFromNow64 now t
    in 0 \<le> fst ts \<and> 0 \<le> snd ts \<and> snd ts < 1000000000 \<and> ts \<noteq> (0, 0) \<and>
       (0 \<le> t \<or> is_int64 (t - now) \<longrightarrow> ts = howMuchTimeFromNow now t \<and> timerfd_due (now, ts) = max (now + 100) t)"
proof -
  have "0 \<le> c_div m 1000000 \<and> 0 \<le> c_mod m 1000000 * 1000 \<and> c_mod m 1000000 * 1000 < 1000000000 \<and>
      (c_div m 1000000 \<noteq> 0 \<or> c_mod m 1000000 * 1000 \<noteq> 0)" if "100 \<le> m" for m
    using that by (auto simp: c_div_nonneg c_mod_nonneg)
  from this [of 100] this [of "int64 (t - now)"]
  have "let ts = howMuchTimeFromNow64 now t in 0 \<le> fst ts \<and> 0 \<le> snd ts \<and> snd ts < 1000000000 \<and> ts \<noteq> (0, 0)"
    by (cases "int64 (t - now) < 100") (auto simp: howMuchTimeFromNow64_def Let_def kMicroSecondsPerSecond_def)
  moreover have "howMuchTimeFromNow64 now t = howMuchTimeFromNow now t" if "0 \<le> t \<or> is_int64 (t - now)"
  proof -
    have "is_int64 (t - now)" using that assms by (auto simp: is_int64_def)
    then show ?thesis by (simp add: howMuchTimeFromNow64_def howMuchTimeFromNow_def int64_id)
  qed
  ultimately show ?thesis using timerfd_due_eq [of now t] by (simp add: Let_def)
qed

text \<open>
  An expiration more than \<open>2 ^ 63\<close> microseconds in the past overflows: instead of at once, the timer
  is armed for a time that is never reached.
\<close>

theorem howMuchTimeFromNow_wraps:
  assumes "is_int64 now" "is_int64 t" "t - now < - (2 ^ 63)"
  shows "timerfd_due (now, howMuchTimeFromNow64 now t) = max (now + 100) (t + 2 ^ 64)"
proof -
  have "is_int64 (t - now + 2 ^ 64)" using assms by (simp add: is_int64_def)
  moreover have "int64 (t - now + 2 ^ 64) = int64 (t - now)"
    unfolding int64_def signed_take_bit_eq_take_bit_shift take_bit_eq_mod
    using mod_add_self2 [of "t - now + 2 ^ 63" "2 ^ 64 :: int"] by (simp add: add.commute)
  ultimately have "int64 (t - now) = t + 2 ^ 64 - now" by (simp add: int64_id)
  then have "howMuchTimeFromNow64 now t = howMuchTimeFromNow now (t + 2 ^ 64)"
    by (simp add: howMuchTimeFromNow64_def howMuchTimeFromNow_def)
  then show ?thesis by (simp only: timerfd_due_eq)
qed

section \<open>Concrete runs\<close>

definition sample_queue :: timer_queue where
  "sample_queue = new_timer_queue\<lparr>
     tq_heap := [8 \<mapsto> \<lparr>tm_callback = 7, tm_expiration = 2000, tm_interval = 500, tm_repeat = True, tm_sequence = 1\<rparr>],
     tq_timers := [(2000, 8)], tq_active := {(8, 1)}, tq_numCreated := 1\<rparr>"

lemma sample_queue_inv: "tq_inv {} sample_queue"
  by (auto simp: tq_inv_def sample_queue_def new_timer_queue_def timer_ok_def active_of_def heap_ok_def uintptr_max_def)

lemma sample_env_ok: "tq_env_ok (first_fit [8, 16]) (\<lambda>_. [CallAdd 2500 9 3000 0 False])"
  unfolding tq_env_ok_def by (auto intro!: first_fit_spec simp: uintptr_max_def)

lemma sample_fire:
  "\<exists>s'. tq_handleRead (first_fit [8, 16]) (\<lambda>_. [CallAdd 2500 9 3000 0 False]) 2500 2501 sample_queue = Inr s'"
  by (simp add: tq_handleRead_def getExpired_def sizes_agree_def sample_queue_def new_timer_queue_def uintptr_max_def
      less_prod_def tq_deref_def timer_run_def addTimer_def first_fit_def addTimerInLoop_def tq_insert_def Let_def
      new_timer_def resetTimerfd_def tq_reset_def reset_one_def timer_restart_def addTime_def ts_valid_def)

theorem timer_queue_safe_witness:
  "ok_or {BadAlloc} sizes_agree (rfold (tq_step (first_fit [8, 16]) (\<lambda>_. [CallAdd 2500 9 3000 0 False]))
     [TQCall (CallAdd 1500 7 2000 500 True), TQFire 2500 2501, TQCall (CallCancel (8, 1))] new_timer_queue)"
  by (rule ok_or_mono [OF timer_queue_safe [OF sample_env_ok]]) auto

theorem handleRead_runs_expired_witness:
  "\<exists>s'. tq_handleRead (first_fit [8, 16]) (\<lambda>_. [CallAdd 2500 9 3000 0 False]) 2500 2501 sample_queue = Inr s' \<and>
     tq_ran s' = [7]"
proof -
  obtain s' where s': "tq_handleRead (first_fit [8, 16]) (\<lambda>_. [CallAdd 2500 9 3000 0 False]) 2500 2501 sample_queue = Inr s'"
    using sample_fire by blast
  from handleRead_runs_expired [OF sample_queue_inv sample_env_ok _ s'] have "tq_ran s' = [7]"
    by (simp add: sample_queue_def new_timer_queue_def expired_at_def)
  with s' show ?thesis by blast
qed

theorem add_cancel_round_trip_witness:
  "\<exists>tid s1 s2. addTimer (first_fit [8, 16]) 1 5 10 0 False sample_queue = Inr (tid, s1) \<and>
     cancelInLoop tid s1 = Inr s2 \<and> tq_timers s2 = [(2000, 8)]"
proof -
  have alloc: "malloc_spec (first_fit [8, 16])" by (rule first_fit_spec) (simp add: uintptr_max_def)
  obtain tid s1 where a: "addTimer (first_fit [8, 16]) 1 5 10 0 False sample_queue = Inr (tid, s1)"
    using addTimer_ok [OF sample_queue_inv alloc, of False 0 1 5 10]
    by (auto simp: sample_queue_def new_timer_queue_def first_fit_def)
  from add_cancel_round_trip [OF sample_queue_inv alloc _ a] a show ?thesis
    by (auto simp: sample_queue_def)
qed

theorem howMuchTimeFromNow_bounds_witness:
  "timerfd_due (1000, howMuchTimeFromNow64 1000 1050) = 1100 \<and> timerfd_due (1000, howMuchTimeFromNow64 1000 2000) = 2000"
  using howMuchTimeFromNow_bounds [of 1000 1050] howMuchTimeFromNow_bounds [of 1000 2000]
  by (auto simp: is_int64_def Let_def timerfd_due_eq)

end
