(* ===== verification/Channel.thy ===== *)
theory Channel
  imports Timestamp
begin

text \<open>
  \<open>class Channel\<close> of \<open>net/Channel.h\<close> and \<open>net/Channel.cc\<close>: the events a descriptor is
  registered for, the events that are ready and the dispatch of ready events to the callbacks.
  The two calls into the loop, \<open>update\<close> and \<open>remove\<close>, are in \<open>Epoller\<close>.
\<close>

unbundle bit_operations_syntax

type_synonym event_mask = "32 word"

text \<open>The event bits of \<open>poll.h\<close>.\<close>

definition POLLIN :: event_mask where "POLLIN = 0x1"
definition POLLPRI :: event_mask where "POLLPRI = 0x2"
definition POLLOUT :: event_mask where "POLLOUT = 0x4"
definition POLLERR :: event_mask where "POLLERR = 0x8"
definition POLLHUP :: event_mask where "POLLHUP = 0x10"
definition POLLNVAL :: event_mask where "POLLNVAL = 0x20"
definition POLLRDHUP :: event_mask where "POLLRDHUP = 0x2000"

lemmas poll_bits = POLLIN_def POLLPRI_def POLLOUT_def POLLERR_def POLLHUP_def POLLNVAL_def POLLRDHUP_def

definition kNoneEvent :: event_mask where
  "kNoneEvent = 0"

definition kReadEvent :: event_mask where
  "kReadEvent = POLLIN OR POLLPRI"

definition kWriteEvent :: event_mask where
  "kWriteEvent = POLLOUT"

text \<open>
  \<open>ch_loop\<close> identifies the owner loop; the callbacks are present or not, what they do belongs to
  the object that set them.
\<close>

record channel =
  ch_loop :: nat
  ch_fd :: int
  ch_events :: event_mask
  ch_revents :: event_mask
  ch_readCallback :: bool
  ch_writeCallback :: bool
  ch_closeCallback :: bool
  ch_errorCallback :: bool
  ch_tied :: bool
  ch_eventHandling :: bool
  ch_addedToLoop :: bool
  ch_index :: int

definition new_channel :: "nat \<Rightarrow> int \<Rightarrow> channel" where
  "new_channel loop fd =
     \<lparr>ch_loop = loop, ch_fd = fd, ch_events = 0, ch_revents = 0, ch_readCallback = False,
      ch_writeCallback = False, ch_closeCallback = False, ch_errorCallback = False, ch_tied = False,
      ch_eventHandling = False, ch_addedToLoop = False, ch_index = -1\<rparr>"

definition setReadCallback :: "channel \<Rightarrow> channel" where
  "setReadCallback c = c\<lparr>ch_readCallback := True\<rparr>"

definition setWriteCallback :: "channel \<Rightarrow> channel" where
  "setWriteCallback c = c\<lparr>ch_writeCallback := True\<rparr>"

definition setCloseCallback :: "channel \<Rightarrow> channel" where
  "setCloseCallback c = c\<lparr>ch_closeCallback := True\<rparr>"

definition setErrorCallback :: "channel \<Rightarrow> channel" where
  "setErrorCallback c = c\<lparr>ch_errorCallback := True\<rparr>"

text \<open>The five switches change \<open>events_\<close> and then call \<open>update\<close>.\<close>

datatype switch = EnableReading | DisableReading | EnableWriting | DisableWriting | DisableAll

fun switch_events :: "switch \<Rightarrow> event_mask \<Rightarrow> event_mask" where
  "switch_events EnableReading ev = ev OR kReadEvent"
| "switch_events DisableReading ev = ev AND NOT kReadEvent"
| "switch_events EnableWriting ev = ev OR kWriteEvent"
| "switch_events DisableWriting ev = ev AND NOT kWriteEvent"
| "switch_events DisableAll ev = kNoneEvent"

definition isWriting :: "channel \<Rightarrow> bool" where
  "isWriting c \<longleftrightarrow> ch_events c AND kWriteEvent \<noteq> 0"

definition isReading :: "channel \<Rightarrow> bool" where
  "isReading c \<longleftrightarrow> ch_events c AND kReadEvent \<noteq> 0"

definition isNoneEvent :: "channel \<Rightarrow> bool" where
  "isNoneEvent c \<longleftrightarrow> ch_events c = kNoneEvent"

definition set_revents :: "event_mask \<Rightarrow> channel \<Rightarrow> channel" where
  "set_revents revt c = c\<lparr>ch_revents := revt\<rparr>"

definition set_index :: "int \<Rightarrow> channel \<Rightarrow> channel" where
  "set_index idx c = c\<lparr>ch_index := idx\<rparr>"

definition chan_tie :: "channel \<Rightarrow> channel" where
  "chan_tie c = c\<lparr>ch_tied := True\<rparr>"

section \<open>Dispatch\<close>

datatype chan_cb = CbClose | CbError | CbRead Timestamp | CbWrite

text \<open>
  \<open>handleEvent\<close> over the state of the object the channel belongs to: \<open>chan\<close> and \<open>upd\<close> reach the
  channel in it, \<open>run\<close> runs one of its callbacks, and \<open>alive\<close> says whether the weak pointer of
  \<open>tie\<close> can still be locked.
\<close>

definition handleEvent :: "('s \<Rightarrow> channel) \<Rightarrow> ((channel \<Rightarrow> channel) \<Rightarrow> 's \<Rightarrow> 's) \<Rightarrow>
    (chan_cb \<Rightarrow> 's \<Rightarrow> 's res) \<Rightarrow> bool \<Rightarrow> Timestamp \<Rightarrow> 's \<Rightarrow> 's res" where
  "handleEvent chan upd run alive receiveTime s =
     (if ch_tied (chan s) \<and> \<not> alive then Inr s
      else
        let s0 = upd (\<lambda>c. c\<lparr>ch_eventHandling := True\<rparr>) s in
        rbind (if ch_revents (chan s0) AND POLLHUP \<noteq> 0 \<and> ch_revents (chan s0) AND POLLIN = 0
               then (if ch_closeCallback (chan s0) then run CbClose s0 else Inr s0) else Inr s0) (\<lambda>s1.
        rbind (if ch_revents (chan s1) AND (POLLERR OR POLLNVAL) \<noteq> 0
               then (if ch_errorCallback (chan s1) then run CbError s1 else Inr s1) else Inr s1) (\<lambda>s2.
        rbind (if ch_revents (chan s2) AND (POLLIN OR POLLPRI OR POLLRDHUP) \<noteq> 0
               then (if ch_readCallback (chan s2) then run (CbRead receiveTime) s2 else Inr s2) else Inr s2) (\<lambda>s3.
        rbind (if ch_revents (chan s3) AND POLLOUT \<noteq> 0
               then (if ch_writeCallback (chan s3) then run CbWrite s3 else Inr s3) else Inr s3) (\<lambda>s4.
        Inr (upd (\<lambda>c. c\<lparr>ch_eventHandling := False\<rparr>) s4))))))"

definition eventsToString :: "int \<Rightarrow> event_mask \<Rightarrow> string" where
  "eventsToString fd ev =
     dec_int fd @ '': ''
     @ (if ev AND POLLIN \<noteq> 0 then ''IN '' else [])
     @ (if ev AND POLLPRI \<noteq> 0 then ''PRI '' else [])
     @ (if ev AND POLLOUT \<noteq> 0 then ''OUT '' else [])
     @ (if ev AND POLLHUP \<noteq> 0 then ''HUP '' else [])
     @ (if ev AND POLLRDHUP \<noteq> 0 then ''RDHUP '' else [])
     @ (if ev AND POLLERR \<noteq> 0 then ''ERR '' else [])
     @ (if ev AND POLLNVAL \<noteq> 0 then ''NVAL '' else [])"

definition chan_reventsToString :: "channel \<Rightarrow> string" where
  "chan_reventsToString c = eventsToString (ch_fd c) (ch_revents c)"

definition chan_eventsToString :: "channel \<Rightarrow> string" where
  "chan_eventsToString c = eventsToString (ch_fd c) (ch_events c)"

section \<open>Lemmas\<close>

lemma switch_writing:
  "switch_events EnableWriting ev AND kWriteEvent \<noteq> 0"
  "switch_events DisableWriting ev AND kWriteEvent = 0"
  "switch_events DisableAll ev AND kWriteEvent = 0"
  "switch_events EnableReading ev AND kWriteEvent = ev AND kWriteEvent"
  "switch_events DisableReading ev AND kWriteEvent = ev AND kWriteEvent"
proof -
  have d: "kReadEvent AND kWriteEvent = 0" "kWriteEvent \<noteq> 0"
    by (simp_all add: kReadEvent_def kWriteEvent_def poll_bits)
  have "(ev OR kWriteEvent) AND kWriteEvent = kWriteEvent" by (rule bit_eqI) (auto simp: bit_simps)
  with d show "switch_events EnableWriting ev AND kWriteEvent \<noteq> 0" by simp
  show "switch_events DisableWriting ev AND kWriteEvent = 0"
    by (rule bit_eqI) (auto simp: bit_simps)
  show "switch_events DisableAll ev AND kWriteEvent = 0" by (simp add: kNoneEvent_def)
  have nb: "\<not> (bit kReadEvent n \<and> bit kWriteEvent n)" for n
    using arg_cong [OF d(1), of "\<lambda>w. bit w n"] by (simp add: bit_simps)
  show "switch_events EnableReading ev AND kWriteEvent = ev AND kWriteEvent"
    "switch_events DisableReading ev AND kWriteEvent = ev AND kWriteEvent"
    using nb by (auto intro!: bit_eqI simp: bit_simps)
qed

lemma switch_reading:
  "switch_events EnableReading ev AND kReadEvent \<noteq> 0"
  "switch_events DisableReading ev AND kReadEvent = 0"
  "switch_events DisableAll ev AND kReadEvent = 0"
  "switch_events EnableWriting ev AND kReadEvent = ev AND kReadEvent"
  "switch_events DisableWriting ev AND kReadEvent = ev AND kReadEvent"
proof -
  have d: "kReadEvent AND kWriteEvent = 0" "kReadEvent \<noteq> 0"
    by (simp_all add: kReadEvent_def kWriteEvent_def poll_bits)
  have "(ev OR kReadEvent) AND kReadEvent = kReadEvent" by (rule bit_eqI) (auto simp: bit_simps)
  with d show "switch_events EnableReading ev AND kReadEvent \<noteq> 0" by simp
  show "switch_events DisableReading ev AND kReadEvent = 0"
    by (rule bit_eqI) (auto simp: bit_simps)
  show "switch_events DisableAll ev AND kReadEvent = 0" by (simp add: kNoneEvent_def)
  have nb: "\<not> (bit kReadEvent n \<and> bit kWriteEvent n)" for n
    using arg_cong [OF d(1), of "\<lambda>w. bit w n"] by (simp add: bit_simps)
  show "switch_events EnableWriting ev AND kReadEvent = ev AND kReadEvent"
    "switch_events DisableWriting ev AND kReadEvent = ev AND kReadEvent"
    using nb by (auto intro!: bit_eqI simp: bit_simps)
qed

text \<open>When the ready events and the callbacks that are set ask for a callback.\<close>

fun asks :: "channel \<Rightarrow> chan_cb \<Rightarrow> bool" where
  "asks c CbClose \<longleftrightarrow> ch_revents c AND POLLHUP \<noteq> 0 \<and> ch_revents c AND POLLIN = 0 \<and> ch_closeCallback c"
| "asks c CbError \<longleftrightarrow> ch_revents c AND (POLLERR OR POLLNVAL) \<noteq> 0 \<and> ch_errorCallback c"
| "asks c (CbRead receiveTime) \<longleftrightarrow> ch_revents c AND (POLLIN OR POLLPRI OR POLLRDHUP) \<noteq> 0 \<and> ch_readCallback c"
| "asks c CbWrite \<longleftrightarrow> ch_revents c AND POLLOUT \<noteq> 0 \<and> ch_writeCallback c"

lemma handleEvent_fold:
  "handleEvent chan upd run alive receiveTime s =
     (if ch_tied (chan s) \<and> \<not> alive then Inr s
      else
        rbind (rfold (\<lambda>cb s. if asks (chan s) cb then run cb s else Inr s)
                 [CbClose, CbError, CbRead receiveTime, CbWrite]
                 (upd (\<lambda>c. c\<lparr>ch_eventHandling := True\<rparr>) s)) (\<lambda>s'.
        Inr (upd (\<lambda>c. c\<lparr>ch_eventHandling := False\<rparr>) s')))"
proof -
  have two: "(if p then (if q then x else y) else y) = (if p \<and> q then x else y)" for p q and x y :: "'s res" by simp
  show ?thesis by (simp only: handleEvent_def Let_def two rfold.simps asks.simps rbind_assoc conj_assoc) simp
qed

text \<open>
  As long as the callbacks leave \<open>revents_\<close> and the set of callbacks alone, the ones run are those
  the ready events asked for at the start.
\<close>

definition same_dispatch :: "channel \<Rightarrow> channel \<Rightarrow> bool" where
  "same_dispatch c d \<longleftrightarrow> ch_revents d = ch_revents c \<and> ch_closeCallback d = ch_closeCallback c \<and>
     ch_errorCallback d = ch_errorCallback c \<and> ch_readCallback d = ch_readCallback c \<and>
     ch_writeCallback d = ch_writeCallback c"

lemma asks_cong: "same_dispatch c d \<Longrightarrow> asks d cb = asks c cb"
  by (cases cb) (auto simp: same_dispatch_def)

lemma same_dispatch_trans: "same_dispatch a b \<Longrightarrow> same_dispatch b c \<Longrightarrow> same_dispatch a c"
  by (auto simp: same_dispatch_def)

end
