(* ===== verification/Epoller.thy ===== *)
theory Epoller
  imports Channel SafeRun
begin

text \<open>
  \<open>class EPollPoller\<close> of \<open>net/Epoller.h\<close> and \<open>net/Epoller.cc\<close>, with the two calls a channel
  makes into its loop (\<open>Channel::update\<close>, \<open>Channel::remove\<close>) and the loop's checks on the way
  (\<open>EventLoop::updateChannel\<close>, \<open>removeChannel\<close>). Channels live in a heap. The kernel is a
  parameter: \<open>ctl\<close> is \<open>epoll_ctl\<close> on a kernel state \<open>'k\<close>, and \<open>interest\<close> reads the interest list.
  All calls are made in the loop's thread.
\<close>

section \<open>State\<close>

type_synonym chan_ptr = nat

definition kNew :: int where "kNew = -1"
definition kAdded :: int where "kAdded = 1"
definition kDeleted :: int where "kDeleted = 2"

lemma index_distinct [simp]: "kNew \<noteq> kAdded" "kAdded \<noteq> kNew" "kNew \<noteq> kDeleted" "kDeleted \<noteq> kNew"
  "kAdded \<noteq> kDeleted" "kDeleted \<noteq> kAdded"
  by (simp_all add: kNew_def kAdded_def kDeleted_def)

definition kInitEventListSize :: nat where "kInitEventListSize = 16"

datatype ctl_op = EPOLL_CTL_ADD | EPOLL_CTL_DEL | EPOLL_CTL_MOD

text \<open>\<open>epoll_ctl\<close> answers whether it succeeded; an \<open>epoll_event\<close> is a mask and the data pointer.\<close>

type_synonym epoll_event = "event_mask \<times> chan_ptr"
type_synonym 'k epoll_ctl = "ctl_op \<Rightarrow> int \<Rightarrow> epoll_event \<Rightarrow> 'k \<Rightarrow> bool \<times> 'k"
type_synonym 'k interest = "'k \<Rightarrow> int \<Rightarrow> epoll_event option"

record 'k poller =
  ep_loop :: nat
  ep_chans :: "chan_ptr \<rightharpoonup> channel"
  ep_channels :: "int \<rightharpoonup> chan_ptr"
  ep_events_size :: nat
  ep_kernel :: 'k
  ep_activeChannels :: "chan_ptr list"
  ep_eventHandling :: bool
  ep_current :: "chan_ptr option"

definition new_poller :: "nat \<Rightarrow> 'k \<Rightarrow> 'k poller" where
  "new_poller loop k =
     \<lparr>ep_loop = loop, ep_chans = Map.empty, ep_channels = Map.empty, ep_events_size = kInitEventListSize,
      ep_kernel = k, ep_activeChannels = [], ep_eventHandling = False, ep_current = None\<rparr>"

section \<open>Operations\<close>

definition chan_deref :: "chan_ptr \<Rightarrow> 'k poller \<Rightarrow> channel res" where
  "chan_deref p w = (case ep_chans w p of None \<Rightarrow> Inl UseAfterFree | Some c \<Rightarrow> Inr c)"

definition chan_put :: "chan_ptr \<Rightarrow> channel \<Rightarrow> 'k poller \<Rightarrow> 'k poller" where
  "chan_put p c w = w\<lparr>ep_chans := (ep_chans w)(p \<mapsto> c)\<rparr>"

definition epoll_update :: "'k epoll_ctl \<Rightarrow> ctl_op \<Rightarrow> chan_ptr \<Rightarrow> 'k poller \<Rightarrow> 'k poller res" where
  "epoll_update ctl op p w =
     rbind (chan_deref p w) (\<lambda>c.
     case ctl op (ch_fd c) (ch_events c, p) (ep_kernel w) of
       (ok, k) \<Rightarrow>
         if \<not> ok \<and> op \<noteq> EPOLL_CTL_DEL then Inl FatalLog else Inr (w\<lparr>ep_kernel := k\<rparr>))"

definition poller_updateChannel :: "'k epoll_ctl \<Rightarrow> chan_ptr \<Rightarrow> 'k poller \<Rightarrow> 'k poller res" where
  "poller_updateChannel ctl p w =
     rbind (chan_deref p w) (\<lambda>c.
     if ch_index c = kNew \<or> ch_index c = kDeleted then
       epoll_update ctl EPOLL_CTL_ADD p
         (chan_put p (set_index kAdded c) (w\<lparr>ep_channels := (ep_channels w)(ch_fd c \<mapsto> p)\<rparr>))
     else if isNoneEvent c then
       rbind (epoll_update ctl EPOLL_CTL_DEL p w) (\<lambda>w'. Inr (chan_put p (set_index kDeleted c) w'))
     else epoll_update ctl EPOLL_CTL_MOD p w)"

definition poller_removeChannel :: "'k epoll_ctl \<Rightarrow> chan_ptr \<Rightarrow> 'k poller \<Rightarrow> 'k poller res" where
  "poller_removeChannel ctl p w =
     rbind (chan_deref p w) (\<lambda>c.
     assertm (ep_channels w (ch_fd c) \<noteq> None)
     (assertm (ep_channels w (ch_fd c) = Some p)
     (assertm (isNoneEvent c)
     (assertm (ch_index c = kAdded \<or> ch_index c = kDeleted)
     (let w1 = w\<lparr>ep_channels := (ep_channels w)(ch_fd c := None)\<rparr>
      in rbind (if ch_index c = kAdded then epoll_update ctl EPOLL_CTL_DEL p w1 else Inr w1) (\<lambda>w2.
         Inr (chan_put p (set_index kNew c) w2)))))))"

definition poller_hasChannel :: "chan_ptr \<Rightarrow> 'k poller \<Rightarrow> bool res" where
  "poller_hasChannel p w = rbind (chan_deref p w) (\<lambda>c. Inr (ep_channels w (ch_fd c) = Some p))"

definition operationToString :: "ctl_op \<Rightarrow> string" where
  "operationToString op =
     (case op of EPOLL_CTL_ADD \<Rightarrow> ''ADD'' | EPOLL_CTL_DEL \<Rightarrow> ''DEL'' | EPOLL_CTL_MOD \<Rightarrow> ''MOD'')"

text \<open>
  \<open>poll\<close> with what \<open>epoll_wait\<close> answered: the events it stored, or the error number. Errors other
  than \<open>EINTR\<close> are logged; either way no channel becomes active.
\<close>

fun fillActiveChannels :: "epoll_event list \<Rightarrow> 'k poller \<Rightarrow> 'k poller res" where
  "fillActiveChannels [] w = Inr w"
| "fillActiveChannels ((ev, p) # evs) w =
     rbind (chan_deref p w) (\<lambda>c.
     fillActiveChannels evs
       ((chan_put p (set_revents ev c) w)\<lparr>ep_activeChannels := ep_activeChannels w @ [p]\<rparr>))"

definition poller_poll :: "int + epoll_event list \<Rightarrow> 'k poller \<Rightarrow> 'k poller res" where
  "poller_poll answer w =
     (case answer of
        Inl errno \<Rightarrow> Inr w
      | Inr evs \<Rightarrow>
          if evs \<noteq> [] then
            rbind (fillActiveChannels evs w) (\<lambda>w'.
            Inr (if length evs = ep_events_size w' then w'\<lparr>ep_events_size := ep_events_size w' * 2\<rparr> else w'))
          else Inr w)"

text \<open>The loop's side of a channel's calls.\<close>

definition loop_updateChannel :: "'k epoll_ctl \<Rightarrow> chan_ptr \<Rightarrow> 'k poller \<Rightarrow> 'k poller res" where
  "loop_updateChannel ctl p w =
     rbind (chan_deref p w) (\<lambda>c.
     assertm (ch_loop c = ep_loop w) (poller_updateChannel ctl p w))"

definition loop_removeChannel :: "'k epoll_ctl \<Rightarrow> chan_ptr \<Rightarrow> 'k poller \<Rightarrow> 'k poller res" where
  "loop_removeChannel ctl p w =
     rbind (chan_deref p w) (\<lambda>c.
     assertm (ch_loop c = ep_loop w)
     (assertm (ep_eventHandling w \<longrightarrow> ep_current w = Some p \<or> p \<notin> set (ep_activeChannels w))
       (poller_removeChannel ctl p w)))"

definition loop_hasChannel :: "chan_ptr \<Rightarrow> 'k poller \<Rightarrow> bool res" where
  "loop_hasChannel p w =
     rbind (chan_deref p w) (\<lambda>c. assertm (ch_loop c = ep_loop w) (poller_hasChannel p w))"

definition channel_update :: "'k epoll_ctl \<Rightarrow> chan_ptr \<Rightarrow> 'k poller \<Rightarrow> 'k poller res" where
  "channel_update ctl p w =
     rbind (chan_deref p w) (\<lambda>c. loop_updateChannel ctl p (chan_put p (c\<lparr>ch_addedToLoop := True\<rparr>) w))"

definition channel_remove :: "'k epoll_ctl \<Rightarrow> chan_ptr \<Rightarrow> 'k poller \<Rightarrow> 'k poller res" where
  "channel_remove ctl p w =
     rbind (chan_deref p w) (\<lambda>c.
     assertm (isNoneEvent c) (loop_removeChannel ctl p (chan_put p (c\<lparr>ch_addedToLoop := False\<rparr>) w)))"

definition channel_switch :: "'k epoll_ctl \<Rightarrow> switch \<Rightarrow> chan_ptr \<Rightarrow> 'k poller \<Rightarrow> 'k poller res" where
  "channel_switch ctl sw p w =
     rbind (chan_deref p w) (\<lambda>c.
     channel_update ctl p (chan_put p (c\<lparr>ch_events := switch_events sw (ch_events c)\<rparr>) w))"

definition channel_destroy :: "chan_ptr \<Rightarrow> 'k poller \<Rightarrow> 'k poller res" where
  "channel_destroy p w =
     rbind (chan_deref p w) (\<lambda>c.
     assertm (\<not> ch_eventHandling c)
     (assertm (\<not> ch_addedToLoop c)
     (rbind (loop_hasChannel p w) (\<lambda>has.
     assertm (\<not> has) (Inr (w\<lparr>ep_chans := (ep_chans w)(p := None)\<rparr>))))))"

section \<open>The kernel's side\<close>

text \<open>
  The documented behaviour of \<open>epoll_ctl\<close>: MOD and DEL of a registered descriptor succeed, of
  another one fail; ADD of a registered descriptor fails, of another one it succeeds or is refused
  (resource limits). A call that fails changes nothing.
\<close>

definition ctl_spec :: "'k interest \<Rightarrow> ctl_op \<Rightarrow> int \<Rightarrow> epoll_event \<Rightarrow> 'k \<Rightarrow> bool \<times> 'k \<Rightarrow> bool" where
  "ctl_spec interest op fd ev k r \<longleftrightarrow>
     (let k' = snd r in
      if fst r then (case op of
             EPOLL_CTL_ADD \<Rightarrow> interest k fd = None \<and> interest k' = (interest k)(fd \<mapsto> ev)
           | EPOLL_CTL_MOD \<Rightarrow> interest k fd \<noteq> None \<and> interest k' = (interest k)(fd \<mapsto> ev)
           | EPOLL_CTL_DEL \<Rightarrow> interest k fd \<noteq> None \<and> interest k' = (interest k)(fd := None))
      else interest k' = interest k \<and> (op \<noteq> EPOLL_CTL_ADD \<longrightarrow> interest k fd = None))"

definition epoll_spec :: "'k epoll_ctl \<Rightarrow> 'k interest \<Rightarrow> bool" where
  "epoll_spec ctl interest \<longleftrightarrow> (\<forall>op fd ev k. ctl_spec interest op fd ev k (ctl op fd ev k))"

text \<open>A kernel that never refuses a new registration.\<close>

definition add_accepts :: "'k epoll_ctl \<Rightarrow> 'k interest \<Rightarrow> bool" where
  "add_accepts ctl interest \<longleftrightarrow> (\<forall>fd ev k. interest k fd = None \<longrightarrow> fst (ctl EPOLL_CTL_ADD fd ev k))"

section \<open>Invariant\<close>

definition chan_inv :: "'k interest \<Rightarrow> 'k poller \<Rightarrow> chan_ptr \<Rightarrow> channel \<Rightarrow> bool" where
  "chan_inv interest w p c \<longleftrightarrow>
     (ch_index c = kNew \<or> ch_index c = kAdded \<or> ch_index c = kDeleted) \<and>
     (ch_addedToLoop c \<longleftrightarrow> ch_index c \<noteq> kNew) \<and> ch_loop c = ep_loop w \<and>
     (ch_index c \<noteq> kNew \<longleftrightarrow> ep_channels w (ch_fd c) = Some p) \<and>
     (ch_index c = kAdded \<longrightarrow> interest (ep_kernel w) (ch_fd c) = Some (ch_events c, p)) \<and>
     (ch_index c = kDeleted \<longrightarrow> interest (ep_kernel w) (ch_fd c) = None \<and> isNoneEvent c)"

definition fd_inv :: "'k interest \<Rightarrow> 'k poller \<Rightarrow> int \<Rightarrow> bool" where
  "fd_inv interest w fd \<longleftrightarrow>
     (case ep_channels w fd of
        None \<Rightarrow> interest (ep_kernel w) fd = None
      | Some p \<Rightarrow> (\<exists>c. ep_chans w p = Some c \<and> ch_fd c = fd))"

definition poller_inv :: "'k interest \<Rightarrow> 'k poller \<Rightarrow> bool" where
  "poller_inv interest w \<longleftrightarrow>
     (\<forall>p c. ep_chans w p = Some c \<longrightarrow> chan_inv interest w p c) \<and> (\<forall>fd. fd_inv interest w fd) \<and>
     0 < ep_events_size w"

lemma poller_inv_upd:
  assumes inv: "poller_inv interest w" and c: "ep_chans w p = Some c"
    and own: "ep_channels w (ch_fd c) = None \<or> ep_channels w (ch_fd c) = Some p"
    and fd: "ch_fd c' = ch_fd c" and v: "v = None \<and> x = None \<or> v = Some p"
    and w': "ep_chans w' = (ep_chans w)(p \<mapsto> c')" "ep_channels w' = (ep_channels w)(ch_fd c := v)"
      "interest (ep_kernel w') = (interest (ep_kernel w))(ch_fd c := x)" "ep_loop w' = ep_loop w"
      "0 < ep_events_size w'"
    and new: "chan_inv interest w' p c'"
  shows "poller_inv interest w'"
proof -
  have other: "chan_inv interest w' q d" if q: "q \<noteq> p" "ep_chans w q = Some d" for q d
  proof (cases "ch_fd d = ch_fd c")
    case True
    have "chan_inv interest w q d" using inv q(2) by (simp add: poller_inv_def)
    moreover from this True own q(1) have "ch_index d = kNew" by (auto simp: chan_inv_def)
    ultimately show ?thesis using w' v q(1) True by (auto simp: chan_inv_def)
  next
    case False
    with inv q w' show ?thesis by (simp add: poller_inv_def chan_inv_def)
  qed
  have "fd_inv interest w' f" for f
  proof (cases "f = ch_fd c")
    case True
    then show ?thesis using v w' fd by (auto simp: fd_inv_def)
  next
    case False
    have "fd_inv interest w f" using inv by (simp add: poller_inv_def)
    then show ?thesis using False w' c fd by (auto simp: fd_inv_def split: option.splits)
  qed
  then show ?thesis using other new w' by (auto simp: poller_inv_def)
qed

lemma poller_inv_chan:
  assumes "poller_inv interest w" "ep_chans w p = Some c"
  shows "chan_inv interest w p c" "fd_inv interest w (ch_fd c)" "0 < ep_events_size w"
  using assms by (auto simp: poller_inv_def)

lemma epoll_ctl_cases:
  assumes "epoll_spec ctl interest"
  obtains (fails) k' where "ctl op fd ev k = (False, k')" "interest k' = interest k"
      "op \<noteq> EPOLL_CTL_ADD \<Longrightarrow> interest k fd = None"
  | (add) k' where "op = EPOLL_CTL_ADD" "ctl op fd ev k = (True, k')" "interest k fd = None"
      "interest k' = (interest k)(fd \<mapsto> ev)"
  | (md) k' where "op = EPOLL_CTL_MOD" "ctl op fd ev k = (True, k')" "interest k' = (interest k)(fd \<mapsto> ev)"
  | (del) k' where "op = EPOLL_CTL_DEL" "ctl op fd ev k = (True, k')" "interest k' = (interest k)(fd := None)"
proof -
  obtain ok k' where r: "ctl op fd ev k = (ok, k')" by (cases "ctl op fd ev k")
  have "ctl_spec interest op fd ev k (ctl op fd ev k)" using assms unfolding epoll_spec_def by blast
  with r that show ?thesis by (cases ok; cases op) (auto simp: ctl_spec_def)
qed

lemma ctl_del:
  assumes "epoll_spec ctl interest" "interest k fd = Some x"
  obtains k' where "ctl EPOLL_CTL_DEL fd ev k = (True, k')" "interest k' = (interest k)(fd := None)"
  using assms(1)
  by (cases rule: epoll_ctl_cases [where op = EPOLL_CTL_DEL and fd = fd and ev = ev and k = k])
    (use assms(2) that in simp_all)

lemma ctl_mod:
  assumes "epoll_spec ctl interest" "interest k fd = Some x"
  obtains k' where "ctl EPOLL_CTL_MOD fd ev k = (True, k')" "interest k' = (interest k)(fd \<mapsto> ev)"
  using assms(1)
  by (cases rule: epoll_ctl_cases [where op = EPOLL_CTL_MOD and fd = fd and ev = ev and k = k])
    (use assms(2) that in simp_all)

lemma channel_switch_unfold:
  fixes sw :: switch
  assumes c: "ep_chans w p = Some c" and loop: "ch_loop c = ep_loop w"
  defines "c' \<equiv> c\<lparr>ch_events := switch_events sw (ch_events c), ch_addedToLoop := True\<rparr>"
  shows "channel_switch ctl sw p w = poller_updateChannel ctl p (chan_put p c' w)"
  using c loop
  by (simp add: channel_switch_def chan_deref_def chan_put_def channel_update_def loop_updateChannel_def c'_def)

definition switch_legal :: "chan_ptr \<Rightarrow> 'k poller \<Rightarrow> bool" where
  "switch_legal p w \<longleftrightarrow>
     (case ep_chans w p of None \<Rightarrow> False
      | Some c \<Rightarrow> ch_index c = kNew \<longrightarrow> ep_channels w (ch_fd c) = None)"

text \<open>What the calls of a channel leave alone: its dispatch, the loop's flags and list.\<close>

definition chan_frame :: "channel \<Rightarrow> channel \<Rightarrow> bool" where
  "chan_frame c c' \<longleftrightarrow> ch_fd c' = ch_fd c \<and> ch_eventHandling c' = ch_eventHandling c \<and> ch_tied c' = ch_tied c \<and> same_dispatch c c'"

definition ep_frame :: "'k poller \<Rightarrow> 'k poller \<Rightarrow> bool" where
  "ep_frame w w' \<longleftrightarrow> ep_loop w' = ep_loop w \<and> ep_activeChannels w' = ep_activeChannels w \<and>
     ep_eventHandling w' = ep_eventHandling w \<and> ep_current w' = ep_current w"

lemmas frame_defs = chan_frame_def ep_frame_def same_dispatch_def

text \<open>
  What a switch does to a channel: its mask changes and the registration with it; only a first
  registration can be refused.
\<close>

lemma channel_switch_ok:
  fixes sw :: switch
  assumes inv: "poller_inv interest w" and spec: "epoll_spec ctl interest"
    and c: "ep_chans w p = Some c" and new: "ch_index c = kNew \<Longrightarrow> ep_channels w (ch_fd c) = None"
  defines "e' \<equiv> switch_events sw (ch_events c)"
  shows "(channel_switch ctl sw p w = Inl FatalLog \<and> ch_index c \<noteq> kAdded \<and>
      \<not> fst (ctl EPOLL_CTL_ADD (ch_fd c) (e', p) (ep_kernel w)) \<and> interest (ep_kernel w) (ch_fd c) = None) \<or>
    (\<exists>w' c'. channel_switch ctl sw p w = Inr w' \<and> poller_inv interest w' \<and>
       ep_chans w' = (ep_chans w)(p \<mapsto> c') \<and> ch_events c' = e' \<and> ch_fd c' = ch_fd c \<and> ch_index c' \<noteq> kNew \<and>
       chan_frame c c' \<and> ep_frame w w')"
proof -
  let ?fd = "ch_fd c" and ?c1 = "c\<lparr>ch_events := e', ch_addedToLoop := True\<rparr>"
  note ci = poller_inv_chan [OF inv c]
  have eq: "channel_switch ctl sw p w = poller_updateChannel ctl p (chan_put p ?c1 w)"
    using channel_switch_unfold [OF c] ci(1) by (simp add: chan_inv_def e'_def)
  have own: "ep_channels w ?fd = None \<or> ep_channels w ?fd = Some p"
    using ci(1) new by (auto simp: chan_inv_def)
  show ?thesis
  proof (cases "ch_index c = kAdded")
    case False
    let ?c2 = "?c1\<lparr>ch_index := kAdded\<rparr>"
    have free: "interest (ep_kernel w) ?fd = None"
      using ci new False by (auto simp: chan_inv_def fd_inv_def)
    have idx: "ch_index c = kNew \<or> ch_index c = kDeleted" using ci(1) False by (auto simp: chan_inv_def)
    have up: "channel_switch ctl sw p w = epoll_update ctl EPOLL_CTL_ADD p
        (w\<lparr>ep_channels := (ep_channels w)(?fd \<mapsto> p), ep_chans := (ep_chans w)(p \<mapsto> ?c2)\<rparr>)"
      using idx unfolding eq by (auto simp: poller_updateChannel_def chan_deref_def chan_put_def set_index_def)
    show ?thesis
      using spec
    proof (cases rule: epoll_ctl_cases [where op = EPOLL_CTL_ADD and fd = ?fd and ev = "(e', p)" and k = "ep_kernel w"])
      case (fails k')
      then show ?thesis using up False free by (simp add: epoll_update_def chan_deref_def)
    next
      case (add k')
      let ?w' = "w\<lparr>ep_channels := (ep_channels w)(?fd \<mapsto> p), ep_chans := (ep_chans w)(p \<mapsto> ?c2), ep_kernel := k'\<rparr>"
      have "channel_switch ctl sw p w = Inr ?w'"
        using up add(2) by (simp add: epoll_update_def chan_deref_def)
      moreover have "poller_inv interest ?w'"
        by (rule poller_inv_upd [OF inv c own, where c' = ?c2 and v = "Some p" and x = "Some (e', p)"])
          (use ci add in \<open>auto simp: chan_inv_def\<close>)
      ultimately show ?thesis by (intro disjI2 exI [of _ ?w'] exI [of _ ?c2]) (simp add: frame_defs)
    qed simp_all
  next
    case True
    have reg: "interest (ep_kernel w) ?fd = Some (ch_events c, p)" "ep_channels w ?fd = Some p"
      using ci(1) True by (auto simp: chan_inv_def)
    let ?w1 = "w\<lparr>ep_chans := (ep_chans w)(p \<mapsto> ?c1)\<rparr>"
    show ?thesis
    proof (cases "e' = kNoneEvent")
      case none: True
      let ?c2 = "?c1\<lparr>ch_index := kDeleted\<rparr>"
      have up: "channel_switch ctl sw p w =
          rbind (epoll_update ctl EPOLL_CTL_DEL p ?w1) (\<lambda>w'. Inr (chan_put p ?c2 w'))"
        using True none unfolding eq
        by (simp add: poller_updateChannel_def chan_deref_def chan_put_def set_index_def isNoneEvent_def)
      obtain k' where k': "ctl EPOLL_CTL_DEL ?fd (e', p) (ep_kernel w) = (True, k')"
          "interest k' = (interest (ep_kernel w))(?fd := None)"
        using ctl_del [OF spec reg(1)] .
      let ?w' = "w\<lparr>ep_chans := (ep_chans w)(p \<mapsto> ?c2), ep_kernel := k'\<rparr>"
      have "channel_switch ctl sw p w = Inr ?w'"
        using up k' by (simp add: epoll_update_def chan_deref_def chan_put_def)
      moreover have "poller_inv interest ?w'"
        by (rule poller_inv_upd [OF inv c own, where c' = ?c2 and v = "Some p" and x = None])
          (use ci reg k' none in \<open>auto simp: chan_inv_def isNoneEvent_def\<close>)
      ultimately show ?thesis by (intro disjI2 exI [of _ ?w'] exI [of _ ?c2]) (simp add: frame_defs)
    next
      case some: False
      have up: "channel_switch ctl sw p w = epoll_update ctl EPOLL_CTL_MOD p ?w1"
        using True some unfolding eq
        by (simp add: poller_updateChannel_def chan_deref_def chan_put_def isNoneEvent_def)
      obtain k' where k': "ctl EPOLL_CTL_MOD ?fd (e', p) (ep_kernel w) = (True, k')"
          "interest k' = (interest (ep_kernel w))(?fd \<mapsto> (e', p))"
        using ctl_mod [OF spec reg(1)] .
      let ?w' = "w\<lparr>ep_chans := (ep_chans w)(p \<mapsto> ?c1), ep_kernel := k'\<rparr>"
      have "channel_switch ctl sw p w = Inr ?w'"
        using up k' by (simp add: epoll_update_def chan_deref_def)
      moreover have "poller_inv interest ?w'"
        by (rule poller_inv_upd [OF inv c own, where c' = ?c1 and v = "Some p" and x = "Some (e', p)"])
          (use ci reg k' True in \<open>auto simp: chan_inv_def\<close>)
      ultimately show ?thesis using True by (intro disjI2 exI [of _ ?w'] exI [of _ ?c1]) (simp add: frame_defs)
    qed
  qed
qed

definition remove_legal :: "chan_ptr \<Rightarrow> 'k poller \<Rightarrow> bool" where
  "remove_legal p w \<longleftrightarrow>
     (case ep_chans w p of None \<Rightarrow> False | Some c \<Rightarrow> isNoneEvent c \<and> ch_index c \<noteq> kNew) \<and>
     (ep_eventHandling w \<longrightarrow> ep_current w = Some p \<or> p \<notin> set (ep_activeChannels w))"

lemma channel_remove_ok:
  assumes inv: "poller_inv interest w" and spec: "epoll_spec ctl interest" and legal: "remove_legal p w"
  shows "\<exists>w' c c'. channel_remove ctl p w = Inr w' \<and> poller_inv interest w' \<and> ep_chans w p = Some c \<and>
     ep_chans w' = (ep_chans w)(p \<mapsto> c') \<and> ch_index c' = kNew \<and> ch_fd c' = ch_fd c \<and>
     interest (ep_kernel w') (ch_fd c) = None \<and> chan_frame c c' \<and> ep_frame w w'"
proof -
  obtain c where c: "ep_chans w p = Some c" "isNoneEvent c" "ch_index c \<noteq> kNew"
    using legal by (auto simp: remove_legal_def split: option.splits)
  note ci = poller_inv_chan [OF inv c(1)]
  have reg: "ep_channels w (ch_fd c) = Some p" using ci(1) c(3) by (simp add: chan_inv_def)
  let ?c1 = "c\<lparr>ch_addedToLoop := False\<rparr>" and ?c2 = "c\<lparr>ch_addedToLoop := False, ch_index := kNew\<rparr>"
  let ?w1 = "w\<lparr>ep_chans := (ep_chans w)(p \<mapsto> ?c1), ep_channels := (ep_channels w)(ch_fd c := None)\<rparr>"
  have idx: "ch_index c = kAdded \<or> ch_index c = kDeleted" using ci(1) c(3) by (auto simp: chan_inv_def)
  have up: "channel_remove ctl p w = rbind (if ch_index c = kAdded then epoll_update ctl EPOLL_CTL_DEL p ?w1 else Inr ?w1)
      (\<lambda>w2. Inr (chan_put p ?c2 w2))"
    using c reg idx ci(1) legal
    by (simp add: channel_remove_def chan_deref_def chan_put_def loop_removeChannel_def poller_removeChannel_def
        chan_inv_def remove_legal_def isNoneEvent_def set_index_def Let_def)
  obtain k' where k': "(if ch_index c = kAdded then epoll_update ctl EPOLL_CTL_DEL p ?w1 else Inr ?w1) = Inr (?w1\<lparr>ep_kernel := k'\<rparr>)"
      "interest k' = (interest (ep_kernel w))(ch_fd c := None)"
  proof (cases "ch_index c = kAdded")
    case True
    then have reg': "interest (ep_kernel w) (ch_fd c) = Some (ch_events c, p)" using ci(1) by (simp add: chan_inv_def)
    obtain k' where "ctl EPOLL_CTL_DEL (ch_fd c) (ch_events c, p) (ep_kernel w) = (True, k')"
          "interest k' = (interest (ep_kernel w))(ch_fd c := None)"
      using ctl_del [OF spec reg'] .
    with True show ?thesis by (intro that [of k']) (simp_all add: epoll_update_def chan_deref_def)
  next
    case False
    then have "interest (ep_kernel w) (ch_fd c) = None" using ci(1) idx by (auto simp: chan_inv_def)
    with False show ?thesis by (intro that [of "ep_kernel w"]) (auto simp: fun_eq_iff)
  qed
  let ?w' = "chan_put p ?c2 (?w1\<lparr>ep_kernel := k'\<rparr>)"
  have "channel_remove ctl p w = Inr ?w'" using up k'(1) by simp
  moreover have "poller_inv interest ?w'"
    by (rule poller_inv_upd [OF inv c(1) disjI2 [OF reg], where c' = ?c2 and v = None and x = None])
      (use ci k'(2) in \<open>auto simp: chan_inv_def chan_put_def\<close>)
  ultimately show ?thesis using c(1) k'(2)
    by (intro exI [of _ ?w'] exI [of _ c] exI [of _ ?c2]) (simp add: chan_put_def frame_defs)
qed

lemma channel_destroy_ok:
  assumes inv: "poller_inv interest w" and c: "ep_chans w p = Some c" "ch_index c = kNew" "\<not> ch_eventHandling c"
  shows "\<exists>w'. channel_destroy p w = Inr w' \<and> poller_inv interest w' \<and> ep_chans w' = (ep_chans w)(p := None) \<and> ep_frame w w'"
proof -
  note ci = poller_inv_chan [OF inv c(1)]
  let ?w' = "w\<lparr>ep_chans := (ep_chans w)(p := None)\<rparr>"
  have gone: "ep_channels w fd \<noteq> Some p" for fd
    using inv ci(1) c by (fastforce simp: poller_inv_def fd_inv_def chan_inv_def split: option.splits)
  have "channel_destroy p w = Inr ?w'"
    using c ci(1) gone
    by (simp add: channel_destroy_def chan_deref_def loop_hasChannel_def poller_hasChannel_def chan_inv_def)
  moreover have "fd_inv interest ?w' fd" for fd
  proof -
    have "fd_inv interest w fd" using inv by (simp add: poller_inv_def)
    then show ?thesis using gone [of fd] by (auto simp: fd_inv_def split: option.splits)
  qed
  then have "poller_inv interest ?w'" using inv by (auto simp: poller_inv_def chan_inv_def)
  ultimately show ?thesis by (intro exI [of _ ?w']) (simp add: ep_frame_def)
qed

lemma chan_create_ok:
  assumes inv: "poller_inv interest w" and p: "ep_chans w p = None"
  shows "poller_inv interest (chan_put p (new_channel (ep_loop w) fd) w)"
proof -
  let ?w' = "chan_put p (new_channel (ep_loop w) fd) w"
  have fd: "fd_inv interest w f" for f using inv by (simp add: poller_inv_def)
  have gone: "ep_channels w f \<noteq> Some p" for f
    using fd [of f] p by (auto simp: fd_inv_def split: option.splits)
  have "fd_inv interest ?w' f" for f
    using fd [of f] gone [of f] by (auto simp: fd_inv_def chan_put_def split: option.splits)
  moreover have "chan_inv interest ?w' p (new_channel (ep_loop w) fd)"
    using gone by (simp add: chan_inv_def new_channel_def chan_put_def kNew_def kAdded_def kDeleted_def)
  ultimately show ?thesis using inv by (auto simp: poller_inv_def chan_inv_def chan_put_def)
qed

text \<open>The events of one \<open>epoll_wait\<close> point to channels of the interest list.\<close>

definition answer_legal :: "'k interest \<Rightarrow> int + epoll_event list \<Rightarrow> 'k poller \<Rightarrow> bool" where
  "answer_legal interest answer w \<longleftrightarrow>
     (case answer of Inl _ \<Rightarrow> True
      | Inr evs \<Rightarrow> length evs \<le> ep_events_size w \<and>
          (\<forall>(ev, p) \<in> set evs. \<exists>fd ev'. interest (ep_kernel w) fd = Some (ev', p)))"

lemma interest_live:
  assumes inv: "poller_inv interest w" and "interest (ep_kernel w) fd = Some (ev, p)"
  obtains c where "ep_chans w p = Some c" "ch_fd c = fd" "ch_index c = kAdded" "ch_events c = ev"
proof -
  have "fd_inv interest w fd" using inv by (simp add: poller_inv_def)
  with assms(2) obtain q c where c: "ep_channels w fd = Some q" "ep_chans w q = Some c" "ch_fd c = fd"
    by (auto simp: fd_inv_def split: option.splits)
  have "chan_inv interest w q c" using inv c(2) by (simp add: poller_inv_def)
  with assms(2) c that show ?thesis by (auto simp: chan_inv_def)
qed

lemma set_revents_inv:
  assumes "poller_inv interest w" "ep_chans w p = Some c"
  shows "poller_inv interest ((chan_put p (set_revents ev c) w)\<lparr>ep_activeChannels := a\<rparr>)"
proof -
  have fd: "fd_inv interest w f" for f using assms by (simp add: poller_inv_def)
  have "fd_inv interest ((chan_put p (set_revents ev c) w)\<lparr>ep_activeChannels := a\<rparr>) f" for f
    using fd [of f] assms(2) by (auto simp: fd_inv_def chan_put_def set_revents_def split: option.splits)
  moreover have "chan_inv interest ((chan_put p (set_revents ev c) w)\<lparr>ep_activeChannels := a\<rparr>) q d"
    if "ep_chans (chan_put p (set_revents ev c) w) q = Some d" for q d
  proof (cases "q = p")
    case True
    then have "d = c\<lparr>ch_revents := ev\<rparr>" using that by (simp add: chan_put_def set_revents_def)
    then show ?thesis using True poller_inv_chan(1) [OF assms]
      by (simp add: chan_inv_def chan_put_def isNoneEvent_def)
  next
    case False
    then have "ep_chans w q = Some d" using that by (simp add: chan_put_def)
    from poller_inv_chan(1) [OF assms(1) this] show ?thesis by (simp add: chan_inv_def chan_put_def)
  qed
  ultimately show ?thesis using assms(1) by (auto simp: poller_inv_def chan_put_def)
qed

lemma fillActiveChannels_ok:
  assumes "poller_inv interest w" "\<forall>(ev, p) \<in> set evs. \<exists>fd ev'. interest (ep_kernel w) fd = Some (ev', p)"
  shows "\<exists>w'. fillActiveChannels evs w = Inr w' \<and> poller_inv interest w' \<and>
     ep_activeChannels w' = ep_activeChannels w @ map snd evs \<and> ep_kernel w' = ep_kernel w \<and> ep_eventHandling w' = ep_eventHandling w \<and> ep_current w' = ep_current w"
  using assms
proof (induction evs w rule: fillActiveChannels.induct)
  case (2 ev p evs w)
  obtain fd ev' where "interest (ep_kernel w) fd = Some (ev', p)" using "2.prems"(2) by auto
  then obtain c where c: "ep_chans w p = Some c" using interest_live [OF "2.prems"(1)] by metis
  let ?w = "(chan_put p (set_revents ev c) w)\<lparr>ep_activeChannels := ep_activeChannels w @ [p]\<rparr>"
  have k: "ep_kernel ?w = ep_kernel w" "ep_eventHandling ?w = ep_eventHandling w" "ep_current ?w = ep_current w"
    by (simp_all add: chan_put_def)
  have rest: "\<forall>(ev, p) \<in> set evs. \<exists>fd ev'. interest (ep_kernel ?w) fd = Some (ev', p)" using "2.prems"(2) by (simp add: k(1))
  obtain w' where "fillActiveChannels evs ?w = Inr w'" "poller_inv interest w'"
    "ep_activeChannels w' = ep_activeChannels ?w @ map snd evs" "ep_kernel w' = ep_kernel ?w"
    "ep_eventHandling w' = ep_eventHandling ?w" "ep_current w' = ep_current ?w"
    using "2.IH" [OF set_revents_inv [OF "2.prems"(1) c] rest] by (elim exE conjE) rule
  then show ?case unfolding k by (simp add: chan_deref_def c)
qed simp

section \<open>Runs of the poller\<close>

text \<open>
  What happens to a loop's channels: creation, the five switches, removal, destruction, a poll and
  the loop marking the channel whose event it handles.
\<close>

datatype ep_op =
    EpNew chan_ptr int
  | EpSwitch switch chan_ptr
  | EpRemove chan_ptr
  | EpDestroy chan_ptr
  | EpPoll "int + epoll_event list"
  | EpHandle chan_ptr
  | EpHandled

fun ep_step :: "'k epoll_ctl \<Rightarrow> ep_op \<Rightarrow> 'k poller \<Rightarrow> 'k poller res" where
  "ep_step ctl (EpNew p fd) w = Inr (chan_put p (new_channel (ep_loop w) fd) w)"
| "ep_step ctl (EpSwitch sw p) w = channel_switch ctl sw p w"
| "ep_step ctl (EpRemove p) w = channel_remove ctl p w"
| "ep_step ctl (EpDestroy p) w = channel_destroy p w"
| "ep_step ctl (EpPoll answer) w = poller_poll answer (w\<lparr>ep_activeChannels := []\<rparr>)"
| "ep_step ctl (EpHandle p) w = Inr (w\<lparr>ep_eventHandling := True, ep_current := Some p\<rparr>)"
| "ep_step ctl EpHandled w = Inr (w\<lparr>ep_eventHandling := False, ep_current := None\<rparr>)"

text \<open>
  What the users of channels keep to: a new channel gets a fresh address, two channels of one
  descriptor are never registered together, only a registered channel without events is removed
  (and not one whose event is still to be handled), only an unregistered one is destroyed.
\<close>

fun ep_legal :: "'k interest \<Rightarrow> ep_op \<Rightarrow> 'k poller \<Rightarrow> bool" where
  "ep_legal interest (EpNew p fd) w \<longleftrightarrow> ep_chans w p = None"
| "ep_legal interest (EpSwitch sw p) w \<longleftrightarrow> switch_legal p w"
| "ep_legal interest (EpRemove p) w \<longleftrightarrow> remove_legal p w"
| "ep_legal interest (EpDestroy p) w \<longleftrightarrow>
     (case ep_chans w p of None \<Rightarrow> False | Some c \<Rightarrow> ch_index c = kNew \<and> \<not> ch_eventHandling c)"
| "ep_legal interest (EpPoll answer) w \<longleftrightarrow> answer_legal interest answer w"
| "ep_legal interest (EpHandle p) w \<longleftrightarrow> True"
| "ep_legal interest EpHandled w \<longleftrightarrow> True"

definition refusals :: "'k epoll_ctl \<Rightarrow> 'k interest \<Rightarrow> fault set" where
  "refusals ctl interest = (if add_accepts ctl interest then {} else {FatalLog})"

lemma poller_inv_cong:
  assumes "poller_inv interest w" "ep_chans w' = ep_chans w" "ep_channels w' = ep_channels w"
    "ep_kernel w' = ep_kernel w" "ep_loop w' = ep_loop w" "0 < ep_events_size w'"
  shows "poller_inv interest w'"
proof -
  have "chan_inv interest w' = chan_inv interest w" "fd_inv interest w' = fd_inv interest w"
    unfolding chan_inv_def fd_inv_def assms(2-5) by simp_all
  then show ?thesis using assms(1,2,6) by (simp add: poller_inv_def)
qed

lemma poller_poll_ok:
  assumes inv: "poller_inv interest w" and legal: "answer_legal interest answer w"
  shows "\<exists>w'. poller_poll answer w = Inr w' \<and> poller_inv interest w'"
proof (cases answer)
  case (Inl e)
  then show ?thesis using inv by (simp add: poller_poll_def)
next
  case (Inr evs)
  then obtain w' where w': "fillActiveChannels evs w = Inr w'" "poller_inv interest w'"
    using fillActiveChannels_ok [OF inv, of evs] legal by (auto simp: answer_legal_def)
  have "poller_inv interest (w'\<lparr>ep_events_size := ep_events_size w' * 2\<rparr>)"
    by (rule poller_inv_cong [OF w'(2)]) (use w'(2) in \<open>simp_all add: poller_inv_def\<close>)
  then show ?thesis using w' inv Inr by (simp add: poller_poll_def)
qed

lemma ep_step_ok:
  assumes spec: "epoll_spec ctl interest" and inv: "poller_inv interest w" and legal: "ep_legal interest op w"
  shows "ok_or (refusals ctl interest) (poller_inv interest) (ep_step ctl op w)"
proof (cases op)
  case (EpNew p fd)
  then show ?thesis using chan_create_ok [OF inv] legal by simp
next
  case (EpSwitch sw p)
  then obtain c where c: "ep_chans w p = Some c" "ch_index c = kNew \<Longrightarrow> ep_channels w (ch_fd c) = None"
    using legal by (auto simp: switch_legal_def split: option.splits)
  then show ?thesis using channel_switch_ok [OF inv spec c, of sw] EpSwitch
    by (auto simp: refusals_def add_accepts_def)
next
  case (EpRemove p)
  then show ?thesis using channel_remove_ok [OF inv spec, of p] legal by auto
next
  case (EpDestroy p)
  then obtain c where "ep_chans w p = Some c" "ch_index c = kNew" "\<not> ch_eventHandling c"
    using legal by (auto split: option.splits)
  from channel_destroy_ok [OF inv this] EpDestroy show ?thesis by auto
next
  case (EpPoll answer)
  let ?w = "w\<lparr>ep_activeChannels := []\<rparr>"
  have "poller_inv interest ?w" by (rule poller_inv_cong [OF inv]) (use inv in \<open>simp_all add: poller_inv_def\<close>)
  moreover have "answer_legal interest answer ?w" using legal EpPoll by (simp add: answer_legal_def split: sum.splits)
  ultimately show ?thesis using poller_poll_ok [of interest ?w answer] EpPoll by auto
next
  case (EpHandle p)
  have "poller_inv interest (w\<lparr>ep_eventHandling := True, ep_current := Some p\<rparr>)"
    by (rule poller_inv_cong [OF inv]) (use inv in \<open>simp_all add: poller_inv_def\<close>)
  with EpHandle show ?thesis by simp
next
  case EpHandled
  have "poller_inv interest (w\<lparr>ep_eventHandling := False, ep_current := None\<rparr>)"
    by (rule poller_inv_cong [OF inv]) (use inv in \<open>simp_all add: poller_inv_def\<close>)
  with EpHandled show ?thesis by simp
qed

interpretation epm: safe_machine "ep_step ctl" "\<lambda>op w. epoll_spec ctl interest \<and> ep_legal interest op w"
    "poller_inv interest" "refusals ctl interest"
  for ctl :: "'k epoll_ctl" and interest :: "'k interest"
proof
  show "ok_or (refusals ctl interest) (poller_inv interest) (ep_step ctl op w)"
    if "poller_inv interest w" "epoll_spec ctl interest \<and> ep_legal interest op w"
    for op and w :: "'k poller"
    using ep_step_ok that by blast
qed

lemma new_poller_inv: "\<forall>fd. interest k fd = None \<Longrightarrow> poller_inv interest (new_poller loop k)"
  by (simp add: poller_inv_def fd_inv_def new_poller_def kInitEventListSize_def)

section \<open>Properties\<close>

text \<open>
  C11: through every legal run from a new poller no assertion fails and no destroyed channel is
  touched, also not by the pointers the kernel hands back; the only fatal error is a refused first
  registration. At every moment the kernel's interest list holds exactly the channels with index
  \<open>kAdded\<close>, each under its descriptor, with its current event mask and its own address.
\<close>

theorem poller_registration:
  assumes "epoll_spec ctl interest" "\<forall>fd. interest k fd = None"
    and "run_legal (ep_legal interest) (ep_step ctl) ops (new_poller loop k)"
  shows "ok_or (if add_accepts ctl interest then {} else {FatalLog})
     (\<lambda>w. \<forall>fd ev p. interest (ep_kernel w) fd = Some (ev, p) \<longleftrightarrow>
        (\<exists>c. ep_chans w p = Some c \<and> ch_fd c = fd \<and> ch_events c = ev \<and> ch_index c = kAdded))
     (rfold (ep_step ctl) ops (new_poller loop k))"
  unfolding refusals_def [symmetric]
proof (rule ok_or_mono [OF epm.run_safe])
  show "poller_inv interest (new_poller loop k)" using assms(2) by (rule new_poller_inv)
  show "run_legal (\<lambda>op w. epoll_spec ctl interest \<and> ep_legal interest op w) (ep_step ctl) ops (new_poller loop k)"
    using assms(1,3) by (rule run_legal_conj)
next
  fix w assume inv: "poller_inv interest w"
  show "\<forall>fd ev p. interest (ep_kernel w) fd = Some (ev, p) \<longleftrightarrow>
      (\<exists>c. ep_chans w p = Some c \<and> ch_fd c = fd \<and> ch_events c = ev \<and> ch_index c = kAdded)"
    using interest_live [OF inv] poller_inv_chan(1) [OF inv] unfolding chan_inv_def by metis
qed

section \<open>Concrete runs\<close>

text \<open>A kernel with the documented behaviour: the interest list itself.\<close>

fun list_ctl :: "(int \<Rightarrow> epoll_event option) epoll_ctl" where
  "list_ctl EPOLL_CTL_ADD fd ev k = (if k fd = None then (True, k(fd \<mapsto> ev)) else (False, k))"
| "list_ctl EPOLL_CTL_MOD fd ev k = (if k fd = None then (False, k) else (True, k(fd \<mapsto> ev)))"
| "list_ctl EPOLL_CTL_DEL fd ev k = (if k fd = None then (False, k) else (True, k(fd := None)))"

lemma list_ctl_spec: "epoll_spec list_ctl (\<lambda>k. k)"
proof -
  have "ctl_spec (\<lambda>k. k) op fd ev k (list_ctl op fd ev k)" for op fd ev k
    by (cases op) (auto simp: ctl_spec_def)
  then show ?thesis by (simp add: epoll_spec_def)
qed

theorem poller_registration_witness:
  "\<exists>w. rfold (ep_step list_ctl) [EpNew 1 7, EpSwitch EnableReading 1, EpPoll (Inr [(POLLIN, 1)]),
        EpHandle 1, EpSwitch DisableAll 1, EpRemove 1, EpHandled, EpDestroy 1] (new_poller 0 Map.empty) = Inr w \<and>
     (\<forall>fd ev p. ep_kernel w fd = Some (ev, p) \<longleftrightarrow>
        (\<exists>c. ep_chans w p = Some c \<and> ch_fd c = fd \<and> ch_events c = ev \<and> ch_index c = kAdded))"
proof -
  let ?ops = "[EpNew 1 7, EpSwitch EnableReading 1, EpPoll (Inr [(POLLIN, 1)]),
        EpHandle 1, EpSwitch DisableAll 1, EpRemove 1, EpHandled, EpDestroy 1]"
  have legal: "run_legal (ep_legal (\<lambda>k. k)) (ep_step list_ctl) ?ops (new_poller 0 Map.empty)"
    by (simp add: new_poller_def kInitEventListSize_def chan_put_def new_channel_def switch_legal_def channel_switch_def
        chan_deref_def channel_update_def loop_updateChannel_def poller_updateChannel_def epoll_update_def set_index_def
        kNew_def kAdded_def kDeleted_def isNoneEvent_def kReadEvent_def kNoneEvent_def poll_bits answer_legal_def poller_poll_def
        set_revents_def remove_legal_def channel_remove_def loop_removeChannel_def poller_removeChannel_def
        channel_destroy_def loop_hasChannel_def poller_hasChannel_def Let_def)
  have "add_accepts list_ctl (\<lambda>k. k)" by (simp add: add_accepts_def)
  with poller_registration [OF list_ctl_spec _ legal] show ?thesis by (simp only: ok_or_total if_True) simp
qed

end
