(* ===== verification/EventLoop.thy ===== *)
theory EventLoop
  imports Prelude
begin

text \<open>
  The cross-thread side of \<open>class EventLoop\<close> (\<open>net/EventLoop.h\<close>, \<open>net/EventLoop.cc\<close>): the
  pending functors, the eventfd that wakes the loop, \<open>quit\<close> and the phases of \<open>loop\<close>. The loop
  thread and the other threads interleave in an \<open>inductive\<close> step relation whose steps are the
  stretches of code between two accesses to shared state; the mutex makes a push and the swap one
  step each. Functors are numbers; \<open>el_queued\<close> and \<open>el_ran\<close> record the order of all pushes and runs.
\<close>

section \<open>State\<close>

text \<open>
  Where the loop thread is: outside \<open>loop\<close>, at the test of \<open>quit_\<close>, in \<open>poll\<close>, in the event
  handlers (with the wakeup descriptor among the active channels or not), at the swap of
  \<open>doPendingFunctors\<close>, or running the functors swapped out.
\<close>

datatype loop_pc =
    Stopped
  | Check
  | AtPoll
  | Handling bool
  | Swapping
  | Running "nat list"

text \<open>
  \<open>el_waking\<close> counts the other threads between their change and their write to the eventfd, \<open>el_other\<close>
  says that \<open>poll\<close> has another reason to return (a channel is ready, a signal, the timeout), and
  \<open>el_early\<close> counts the pending functors that the loop's own thread queued outside \<open>loop\<close>.
\<close>

record event_loop =
  el_pc :: loop_pc
  el_looping :: bool
  el_quit :: bool
  el_eventHandling :: bool
  el_calling :: bool
  el_wakeupFd :: nat
  el_pending :: "nat list"
  el_waking :: nat
  el_other :: bool
  el_early :: nat
  el_queued :: "nat list"
  el_ran :: "nat list"

definition new_event_loop :: event_loop where
  "new_event_loop =
     \<lparr>el_pc = Stopped, el_looping = False, el_quit = False, el_eventHandling = False, el_calling = False,
      el_wakeupFd = 0, el_pending = [], el_waking = 0, el_other = False, el_early = 0,
      el_queued = [], el_ran = []\<rparr>"

section \<open>Operations\<close>

text \<open>
  The eventfd counter: a write adds one, or fails with \<open>EAGAIN\<close> at the largest value (and is
  logged); a read takes the whole value.
\<close>

definition eventfd_max :: nat where
  "eventfd_max = 2 ^ 64 - 2"

definition el_wakeup :: "event_loop \<Rightarrow> event_loop" where
  "el_wakeup s = (if el_wakeupFd s < eventfd_max then s\<lparr>el_wakeupFd := el_wakeupFd s + 1\<rparr> else s)"

definition el_handleRead :: "event_loop \<Rightarrow> event_loop" where
  "el_handleRead s = s\<lparr>el_wakeupFd := 0\<rparr>"

definition el_push :: "nat \<Rightarrow> event_loop \<Rightarrow> event_loop" where
  "el_push f s = s\<lparr>el_pending := el_pending s @ [f], el_queued := el_queued s @ [f]\<rparr>"

text \<open>
  \<open>queueInLoop\<close> called in the loop's thread runs to its end at once; called in another thread the
  push and the wakeup are two steps.
\<close>

definition queue_wakes :: "bool \<Rightarrow> event_loop \<Rightarrow> bool" where
  "queue_wakes inLoop s \<longleftrightarrow> \<not> inLoop \<or> el_calling s"

definition queueInLoop :: "bool \<Rightarrow> nat \<Rightarrow> event_loop \<Rightarrow> event_loop" where
  "queueInLoop inLoop f s =
     (let s' = el_push f s in if queue_wakes inLoop s' then el_wakeup s' else s')"

definition run_functor :: "nat \<Rightarrow> event_loop \<Rightarrow> event_loop" where
  "run_functor f s = s\<lparr>el_ran := el_ran s @ [f]\<rparr>"

definition runInLoop :: "bool \<Rightarrow> nat \<Rightarrow> event_loop \<Rightarrow> event_loop" where
  "runInLoop inLoop f s =
     (if inLoop then run_functor f s else queueInLoop inLoop f s)"

definition queueSize :: "event_loop \<Rightarrow> nat" where
  "queueSize s = length (el_pending s)"

definition loop_enter :: "event_loop \<Rightarrow> event_loop res" where
  "loop_enter s =
     assertm (\<not> el_looping s) (Inr (s\<lparr>el_looping := True, el_quit := False, el_pc := Check\<rparr>))"

definition dpf_swap :: "event_loop \<Rightarrow> event_loop" where
  "dpf_swap s = s\<lparr>el_pc := Running (el_pending s), el_pending := [], el_early := 0\<rparr>"

text \<open>\<open>doPendingFunctors\<close> as the loop thread runs it alone; \<open>fx f\<close> are the functors \<open>f\<close> queues.\<close>

fun run_functors :: "(nat \<Rightarrow> nat list) \<Rightarrow> nat list \<Rightarrow> event_loop \<Rightarrow> event_loop" where
  "run_functors fx [] s = s"
| "run_functors fx (f # fs) s =
     run_functors fx fs (fold (queueInLoop True) (fx f) (run_functor f s))"

definition doPendingFunctors :: "(nat \<Rightarrow> nat list) \<Rightarrow> event_loop \<Rightarrow> event_loop" where
  "doPendingFunctors fx s =
     (let functors = el_pending s;
          s1 = s\<lparr>el_calling := True, el_pending := []\<rparr>
      in (run_functors fx functors s1)\<lparr>el_calling := False\<rparr>)"

definition el_quit_set :: "event_loop \<Rightarrow> event_loop" where
  "el_quit_set s = s\<lparr>el_quit := True\<rparr>"

definition quit_wakes :: "bool \<Rightarrow> bool" where
  "quit_wakes inLoop \<longleftrightarrow> \<not> inLoop"

section \<open>Interleaving\<close>

inductive loop_step :: "event_loop \<Rightarrow> event_loop \<Rightarrow> bool" where
  other_queue: "loop_step s ((el_push f s)\<lparr>el_waking := el_waking s + (if queue_wakes False (el_push f s) then 1 else 0)\<rparr>)"
| other_quit: "loop_step s ((el_quit_set s)\<lparr>el_waking := el_waking s + (if quit_wakes False then 1 else 0)\<rparr>)"
| other_wakeup: "0 < el_waking s \<Longrightarrow> loop_step s ((el_wakeup s)\<lparr>el_waking := el_waking s - 1\<rparr>)"
| own_queue: "el_pc s = Stopped \<Longrightarrow> loop_step s ((queueInLoop True f s)\<lparr>el_early := el_early s + 1\<rparr>)"
| own_quit: "el_pc s = Stopped \<Longrightarrow> loop_step s (el_quit_set s)"
| other_event: "loop_step s (s\<lparr>el_other := True\<rparr>)"
| enter: "el_pc s = Stopped \<Longrightarrow> loop_enter s = Inr s' \<Longrightarrow> loop_step s s'"
| leave: "el_pc s = Check \<Longrightarrow> el_quit s \<Longrightarrow> loop_step s (s\<lparr>el_pc := Stopped, el_looping := False\<rparr>)"
| go_on: "el_pc s = Check \<Longrightarrow> \<not> el_quit s \<Longrightarrow> loop_step s (s\<lparr>el_pc := AtPoll\<rparr>)"
| poll_woken: "el_pc s = AtPoll \<Longrightarrow> 0 < el_wakeupFd s \<Longrightarrow>
    loop_step s (s\<lparr>el_pc := Handling True, el_eventHandling := True\<rparr>)"
| poll_other: "el_pc s = AtPoll \<Longrightarrow> el_other s \<Longrightarrow>
    loop_step s (s\<lparr>el_pc := Handling False, el_eventHandling := True, el_other := False\<rparr>)"
| read_wakeup: "el_pc s = Handling True \<Longrightarrow> loop_step s ((el_handleRead s)\<lparr>el_pc := Handling False\<rparr>)"
| handler_queue: "el_pc s = Handling b \<Longrightarrow> loop_step s (queueInLoop True f s)"
| handler_quit: "el_pc s = Handling b \<Longrightarrow> loop_step s (el_quit_set s)"
| handled: "el_pc s = Handling False \<Longrightarrow>
    loop_step s (s\<lparr>el_pc := Swapping, el_eventHandling := False, el_calling := True\<rparr>)"
| swap: "el_pc s = Swapping \<Longrightarrow> loop_step s (dpf_swap s)"
| run: "el_pc s = Running (f # fs) \<Longrightarrow> loop_step s ((run_functor f s)\<lparr>el_pc := Running fs\<rparr>)"
| functor_queue: "el_pc s = Running fs \<Longrightarrow> loop_step s (queueInLoop True f s)"
| functor_quit: "el_pc s = Running fs \<Longrightarrow> loop_step s (el_quit_set s)"
| finish: "el_pc s = Running [] \<Longrightarrow> loop_step s (s\<lparr>el_pc := Check, el_calling := False\<rparr>)"

definition loop_reachable :: "event_loop \<Rightarrow> bool" where
  "loop_reachable s \<longleftrightarrow> loop_step\<^sup>*\<^sup>* new_event_loop s"

fun running :: "loop_pc \<Rightarrow> nat list" where
  "running (Running fs) = fs"
| "running _ = []"

text \<open>The wakeup descriptor is readable, or a thread is about to make it so.\<close>

definition woken :: "event_loop \<Rightarrow> bool" where
  "woken s \<longleftrightarrow> 0 < el_wakeupFd s \<or> 0 < el_waking s"

definition loop_inv :: "event_loop \<Rightarrow> bool" where
  "loop_inv s \<longleftrightarrow>
     el_queued s = el_ran s @ running (el_pc s) @ el_pending s \<and> el_early s \<le> length (el_pending s) \<and>
     (case el_pc s of
        Stopped \<Rightarrow> \<not> el_looping s \<and> \<not> el_calling s \<and> (el_early s < length (el_pending s) \<longrightarrow> woken s)
      | Check \<Rightarrow> el_looping s \<and> \<not> el_calling s \<and> (el_early s < length (el_pending s) \<longrightarrow> woken s)
      | AtPoll \<Rightarrow> el_looping s \<and> \<not> el_calling s \<and> (el_early s < length (el_pending s) \<or> el_quit s \<longrightarrow> woken s)
      | Handling b \<Rightarrow> el_looping s \<and> \<not> el_calling s
      | Swapping \<Rightarrow> el_looping s \<and> el_calling s
      | Running fs \<Rightarrow> el_looping s \<and> el_calling s \<and> (el_early s < length (el_pending s) \<longrightarrow> woken s))"

lemma woken_simps [simp]:
  "woken (el_wakeup s)" "woken (s\<lparr>el_waking := Suc n\<rparr>)"
  "woken (s\<lparr>el_pc := pc\<rparr>) = woken s"
  by (auto simp: woken_def el_wakeup_def eventfd_max_def)

lemmas loop_simps = loop_inv_def woken_def el_push_def queue_wakes_def quit_wakes_def el_quit_set_def el_wakeup_def
  el_handleRead_def run_functor_def eventfd_max_def

lemma loop_step_inv:
  assumes "loop_step s s'" "loop_inv s"
  shows "loop_inv s'"
  using assms
proof (cases rule: loop_step.cases)
  case (other_queue f)
  then show ?thesis using assms(2) by (cases "el_pc s") (auto simp: loop_simps)
next
  case other_quit
  then show ?thesis using assms(2) by (cases "el_pc s") (auto simp: loop_simps)
next
  case other_wakeup
  then show ?thesis using assms(2) by (cases "el_pc s") (auto simp: loop_simps)
next
  case (own_queue f)
  then show ?thesis using assms(2) by (auto simp: loop_simps queueInLoop_def)
next
  case other_event
  then show ?thesis using assms(2) by (cases "el_pc s") (auto simp: loop_simps)
next
  case enter
  then show ?thesis using assms(2) by (auto simp: loop_simps loop_enter_def assertm_def split: if_splits)
next
  case (handler_queue b f)
  then show ?thesis using assms(2) by (auto simp: loop_simps queueInLoop_def)
next
  case (functor_queue fs f)
  then show ?thesis using assms(2) by (auto simp: loop_simps queueInLoop_def Let_def)
qed (auto simp: loop_simps dpf_swap_def)

lemma other_steps:
  "loop_step s ((el_push f s)\<lparr>el_waking := el_waking s + 1\<rparr>)" "loop_step s ((el_quit_set s)\<lparr>el_waking := el_waking s + 1\<rparr>)"
  using loop_step.other_queue [of s f] loop_step.other_quit [of s] by (simp_all add: queue_wakes_def quit_wakes_def)

lemma reachable_inv: "loop_reachable s \<Longrightarrow> loop_inv s"
  unfolding loop_reachable_def
proof (induction rule: rtranclp_induct)
  case base
  show ?case by (simp add: loop_inv_def new_event_loop_def)
next
  case (step s s')
  then show ?case by (blast intro: loop_step_inv)
qed


section \<open>Lemmas on runs\<close>

lemma queue_calling:
  assumes "el_calling s"
  shows "el_pending (queueInLoop True f s) = el_pending s @ [f]" "el_ran (queueInLoop True f s) = el_ran s"
    "el_calling (queueInLoop True f s)" "0 < el_wakeupFd (queueInLoop True f s)"
  using assms by (auto simp: queueInLoop_def queue_wakes_def el_push_def el_wakeup_def Let_def eventfd_max_def)

lemma fold_queue_calling:
  assumes "el_calling s"
  shows "el_pending (fold (queueInLoop True) fs s) = el_pending s @ fs \<and>
     el_ran (fold (queueInLoop True) fs s) = el_ran s \<and> el_calling (fold (queueInLoop True) fs s) \<and>
     el_wakeupFd s \<le> el_wakeupFd (fold (queueInLoop True) fs s) \<and>
     (fs \<noteq> [] \<longrightarrow> 0 < el_wakeupFd (fold (queueInLoop True) fs s))"
  using assms
proof (induction fs arbitrary: s)
  case (Cons f fs)
  have "el_wakeupFd s \<le> el_wakeupFd (queueInLoop True f s)"
    by (auto simp: queueInLoop_def queue_wakes_def el_push_def el_wakeup_def Let_def)
  with Cons.IH [OF queue_calling(3) [OF Cons.prems, of f]] queue_calling [OF Cons.prems, of f] show ?case
    by (cases "fs = []") auto
qed simp

lemma run_functors_ok:
  assumes "el_calling s"
  shows "el_ran (run_functors fx fs s) = el_ran s @ fs \<and>
     el_pending (run_functors fx fs s) = el_pending s @ concat (map fx fs) \<and>
     el_wakeupFd s \<le> el_wakeupFd (run_functors fx fs s) \<and>
     (concat (map fx fs) \<noteq> [] \<longrightarrow> 0 < el_wakeupFd (run_functors fx fs s))"
  using assms
proof (induction fs arbitrary: s)
  case (Cons f fs)
  let ?s = "fold (queueInLoop True) (fx f) (run_functor f s)"
  have c: "el_calling (run_functor f s)" using Cons.prems by (simp add: run_functor_def)
  note q = fold_queue_calling [OF c, of "fx f"]
  have "el_wakeupFd s \<le> el_wakeupFd ?s" using q by (simp add: run_functor_def)
  with Cons.IH [of ?s] q show ?case by (auto simp: run_functor_def)
qed simp

text \<open>
  The loop thread by itself: its next step while its handlers and functors queue nothing, or \<open>None\<close>
  when it is outside \<open>loop\<close> or asleep in \<open>poll\<close>.
\<close>

definition loop_next :: "event_loop \<Rightarrow> event_loop option" where
  "loop_next s =
     (case el_pc s of
        Stopped \<Rightarrow> None
      | Check \<Rightarrow> Some (if el_quit s then s\<lparr>el_pc := Stopped, el_looping := False\<rparr> else s\<lparr>el_pc := AtPoll\<rparr>)
      | AtPoll \<Rightarrow> if 0 < el_wakeupFd s then Some (s\<lparr>el_pc := Handling True, el_eventHandling := True\<rparr>)
                  else if el_other s then Some (s\<lparr>el_pc := Handling False, el_eventHandling := True, el_other := False\<rparr>)
                  else None
      | Handling True \<Rightarrow> Some ((el_handleRead s)\<lparr>el_pc := Handling False\<rparr>)
      | Handling False \<Rightarrow> Some (s\<lparr>el_pc := Swapping, el_eventHandling := False, el_calling := True\<rparr>)
      | Swapping \<Rightarrow> Some (dpf_swap s)
      | Running [] \<Rightarrow> Some (s\<lparr>el_pc := Check, el_calling := False\<rparr>)
      | Running (f # fs) \<Rightarrow> Some ((run_functor f s)\<lparr>el_pc := Running fs\<rparr>))"

lemma loop_next_step: "loop_next s = Some s' \<Longrightarrow> loop_step s s'"
  by (auto simp: loop_next_def intro: loop_step.intros split: loop_pc.splits bool.splits list.splits if_splits)

fun loop_iter :: "nat \<Rightarrow> event_loop \<Rightarrow> event_loop option" where
  "loop_iter 0 s = Some s"
| "loop_iter (Suc n) s = Option.bind (loop_next s) (loop_iter n)"

lemma loop_iter_add: "loop_iter (m + n) s = Option.bind (loop_iter m s) (loop_iter n)"
  by (induction m arbitrary: s) (auto simp: Option.bind_assoc split: Option.bind_split)

lemma loop_iter_steps: "loop_iter n s = Some s' \<Longrightarrow> loop_step\<^sup>*\<^sup>* s s'"
proof (induction n arbitrary: s)
  case (Suc n)
  then obtain s1 where "loop_next s = Some s1" "loop_iter n s1 = Some s'" by (auto split: Option.bind_splits)
  then show ?case using Suc.IH loop_next_step by (metis converse_rtranclp_into_rtranclp)
qed simp

text \<open>The other threads between a change and its wakeup write to the eventfd.\<close>

fun wakeups_written :: "nat \<Rightarrow> event_loop \<Rightarrow> event_loop" where
  "wakeups_written 0 s = s"
| "wakeups_written (Suc n) s = wakeups_written n ((el_wakeup s)\<lparr>el_waking := el_waking s - 1\<rparr>)"

lemma wakeups_steps: "n \<le> el_waking s \<Longrightarrow> loop_step\<^sup>*\<^sup>* s (wakeups_written n s)"
proof (induction n arbitrary: s)
  case (Suc n)
  let ?s = "(el_wakeup s)\<lparr>el_waking := el_waking s - 1\<rparr>"
  have "loop_step s ?s" using Suc.prems by (intro loop_step.other_wakeup) simp
  moreover have "loop_step\<^sup>*\<^sup>* ?s (wakeups_written n ?s)" using Suc.prems by (intro Suc.IH) simp
  ultimately show ?case by simp
qed simp

lemma wakeups_fields:
  "el_pc (wakeups_written n s) = el_pc s \<and> el_pending (wakeups_written n s) = el_pending s \<and>
   el_ran (wakeups_written n s) = el_ran s \<and> el_queued (wakeups_written n s) = el_queued s \<and>
   (0 < n \<or> 0 < el_wakeupFd s \<longrightarrow> 0 < el_wakeupFd (wakeups_written n s))"
proof (induction n arbitrary: s)
  case (Suc n)
  let ?s = "(el_wakeup s)\<lparr>el_waking := el_waking s - 1\<rparr>"
  have "0 < el_wakeupFd ?s" "el_pc ?s = el_pc s" "el_pending ?s = el_pending s" "el_ran ?s = el_ran s" "el_queued ?s = el_queued s"
    by (auto simp: el_wakeup_def eventfd_max_def)
  with Suc.IH [of ?s] show ?case by simp
qed simp

lemma run_all: "el_pc s = Running fs \<Longrightarrow>
   loop_iter (length fs) s = Some (s\<lparr>el_pc := Running [], el_ran := el_ran s @ fs\<rparr>)"
proof (induction fs arbitrary: s)
  case (Cons f fs)
  let ?s = "(run_functor f s)\<lparr>el_pc := Running fs\<rparr>"
  have "loop_next s = Some ?s" using Cons.prems by (simp add: loop_next_def)
  moreover have "loop_iter (length fs) ?s = Some (?s\<lparr>el_pc := Running [], el_ran := el_ran ?s @ fs\<rparr>)" by (rule Cons.IH) simp
  ultimately show ?case by (simp add: run_functor_def)
qed simp

text \<open>From a readable wakeup descriptor the loop thread alone gets everything pending run.\<close>

lemma drain_from_poll:
  assumes pc: "el_pc s = AtPoll" and w: "0 < el_wakeupFd s"
  shows "\<exists>s'. loop_iter (length (el_pending s) + 5) s = Some s' \<and> el_pc s' = Check \<and> el_pending s' = [] \<and>
    el_ran s' = el_ran s @ el_pending s"
proof -
  let ?s4 = "dpf_swap (s\<lparr>el_wakeupFd := 0, el_pc := Swapping, el_eventHandling := False, el_calling := True\<rparr>)"
  let ?s5 = "?s4\<lparr>el_pc := Running [], el_ran := el_ran ?s4 @ el_pending s\<rparr>"
  have "loop_iter 4 s = Some ?s4"
    using pc w by (simp add: numeral_eq_Suc loop_next_def el_handleRead_def)
  moreover have "loop_iter (length (el_pending s)) ?s4 = Some ?s5" by (rule run_all) (simp add: dpf_swap_def)
  moreover have "loop_iter 1 ?s5 = Some (?s5\<lparr>el_pc := Check, el_calling := False\<rparr>)" by (simp add: loop_next_def)
  ultimately have "loop_iter (4 + (length (el_pending s) + 1)) s = Some (?s5\<lparr>el_pc := Check, el_calling := False\<rparr>)"
    by (simp only: loop_iter_add Option.bind.simps)
  then show ?thesis by (simp add: add.commute dpf_swap_def)
qed

section \<open>Properties\<close>


text \<open>
  C10: the loop does not sleep on work. Whenever it is in \<open>poll\<close> while \<open>quit\<close> has been requested, or a
  functor is pending that another thread, a handler or a functor queued, the wakeup descriptor is
  readable or the requesting thread is about to write to it. Functors that the loop's own thread
  queued outside \<open>loop\<close> are the exception, see below.
\<close>

theorem no_lost_wakeup:
  assumes "loop_reachable s" "el_pc s = AtPoll" "el_early s < length (el_pending s) \<or> el_quit s"
  shows "0 < el_wakeupFd s \<or> 0 < el_waking s"
  using reachable_inv [OF assms(1)] assms(2,3) by (auto simp: loop_inv_def woken_def)

text \<open>
  \<open>queueInLoop\<close> on the loop's own thread before \<open>loop\<close> does not write to the eventfd: the loop goes to
  sleep in its first \<open>poll\<close> with the functor pending and nothing to wake it.
\<close>

theorem early_functor_sleeps:
  "\<exists>s. loop_reachable s \<and> el_pc s = AtPoll \<and> el_pending s = [f] \<and> \<not> woken s \<and> \<not> el_other s"
proof -
  let ?s1 = "(queueInLoop True f new_event_loop)\<lparr>el_early := el_early new_event_loop + 1\<rparr>"
  let ?s2 = "?s1\<lparr>el_looping := True, el_quit := False, el_pc := Check\<rparr>"
  let ?s3 = "?s2\<lparr>el_pc := AtPoll\<rparr>"
  have "loop_step new_event_loop ?s1" by (rule loop_step.own_queue) (simp add: new_event_loop_def)
  moreover have "loop_step ?s1 ?s2"
    by (rule loop_step.enter) (simp_all add: queueInLoop_def loop_simps new_event_loop_def loop_enter_def)
  moreover have "loop_step ?s2 ?s3" by (rule loop_step.go_on) simp_all
  ultimately have "loop_reachable ?s3" unfolding loop_reachable_def by (meson converse_rtranclp_into_rtranclp r_into_rtranclp)
  then show ?thesis by (intro exI [of _ ?s3]) (simp add: queueInLoop_def loop_simps new_event_loop_def)
qed

text \<open>
  C20: so pending work gets done. From every reachable state in which the loop is in \<open>poll\<close> and a
  functor is pending that was not queued outside \<open>loop\<close> by its own thread, once the threads that are
  about to write to the eventfd have done so, the loop thread by itself, whatever other
  channels are ready, gets out of \<open>poll\<close> and after one step per functor and five more has run all functors pushed
  so far, in order.
\<close>

theorem pending_gets_run:
  assumes "loop_reachable s" "el_pc s = AtPoll" "el_early s < length (el_pending s)"
  shows "\<exists>s'. loop_iter (length (el_pending s) + 5) (wakeups_written (el_waking s) s) = Some s' \<and>
    loop_step\<^sup>*\<^sup>* s s' \<and> el_pc s' = Check \<and> el_pending s' = [] \<and> el_ran s' = el_queued s"
proof -
  have inv: "loop_inv s" by (rule reachable_inv [OF assms(1)])
  have q: "el_queued s = el_ran s @ el_pending s" using inv assms(2) by (simp add: loop_inv_def)
  have wk: "0 < el_waking s \<or> 0 < el_wakeupFd s" using inv assms(2,3) by (auto simp: loop_inv_def woken_def)
  let ?s = "wakeups_written (el_waking s) s"
  have f: "el_pc ?s = AtPoll" "el_pending ?s = el_pending s" "el_ran ?s = el_ran s" "0 < el_wakeupFd ?s"
    using wakeups_fields [of "el_waking s" s] wk assms(2) by simp_all
  from drain_from_poll [OF f(1,4)] obtain s' where s': "loop_iter (length (el_pending s) + 5) ?s = Some s'" "el_pc s' = Check"
    "el_pending s' = []" "el_ran s' = el_queued s"
    unfolding f(2,3) q by blast
  have "loop_step\<^sup>*\<^sup>* s s'"
    using wakeups_steps [of "el_waking s" s] loop_iter_steps [OF s'(1)] by simp
  with s' show ?thesis by blast
qed

text \<open>
  \<open>doPendingFunctors\<close> runs the functors pending on entry, in order, each once; functors they
  queue are not run in the same call but stay pending in order, and the eventfd is then readable,
  so the next \<open>poll\<close> returns at once.
\<close>

theorem doPendingFunctors_runs:
  "el_ran (doPendingFunctors fx s) = el_ran s @ el_pending s \<and>
   el_pending (doPendingFunctors fx s) = concat (map fx (el_pending s)) \<and>
   (el_pending (doPendingFunctors fx s) = [] \<or> 0 < el_wakeupFd (doPendingFunctors fx s))"
  using run_functors_ok [of "s\<lparr>el_calling := True, el_pending := []\<rparr>" fx "el_pending s"]
  by (auto simp: doPendingFunctors_def Let_def)

text \<open>
  A \<open>quit\<close> that comes before \<open>loop\<close> is lost: \<open>loop\<close> resets the flag, the loop reaches
  \<open>poll\<close>, reads the wakeup and goes on looping with the flag down and nothing left to wake it.
\<close>

theorem quit_before_loop_lost:
  "\<exists>s0 s1 s2. loop_reachable s0 \<and> el_pc s0 = Stopped \<and> el_quit s0 \<and>
     loop_enter s0 = Inr s1 \<and> loop_step\<^sup>*\<^sup>* s1 s2 \<and>
     el_pc s2 = AtPoll \<and> \<not> el_quit s2 \<and> el_wakeupFd s2 = 0 \<and> el_waking s2 = 0"
proof -
  let ?a = "(el_quit_set new_event_loop)\<lparr>el_waking := el_waking new_event_loop + 1\<rparr>"
  let ?s0 = "(el_wakeup ?a)\<lparr>el_waking := el_waking ?a - 1\<rparr>"
  let ?s1 = "?s0\<lparr>el_looping := True, el_quit := False, el_pc := Check\<rparr>"
  let ?p = "?s1\<lparr>el_pc := AtPoll\<rparr>"
  have "loop_step new_event_loop ?a" by (rule other_steps)
  moreover have "loop_step ?a ?s0" by (rule loop_step.other_wakeup) simp
  ultimately have r: "loop_reachable ?s0" unfolding loop_reachable_def by simp
  have e: "loop_enter ?s0 = Inr ?s1"
    by (simp add: loop_enter_def el_wakeup_def el_quit_set_def new_event_loop_def)
  have p: "loop_step ?s1 ?p" by (rule loop_step.go_on) simp_all
  let ?q1 = "?p\<lparr>el_pc := Handling True, el_eventHandling := True\<rparr>"
  let ?q2 = "(el_handleRead ?q1)\<lparr>el_pc := Handling False\<rparr>"
  let ?q3 = "?q2\<lparr>el_pc := Swapping, el_eventHandling := False, el_calling := True\<rparr>"
  let ?q4 = "dpf_swap ?q3"
  let ?q5 = "?q4\<lparr>el_pc := Check, el_calling := False\<rparr>"
  let ?q6 = "?q5\<lparr>el_pc := AtPoll\<rparr>"
  have "loop_step ?p ?q1"
    by (rule loop_step.poll_woken) (simp_all add: el_wakeup_def el_quit_set_def new_event_loop_def eventfd_max_def)
  moreover have "loop_step ?q1 ?q2" by (rule loop_step.read_wakeup) simp
  moreover have "loop_step ?q2 ?q3" by (rule loop_step.handled) simp
  moreover have "loop_step ?q3 ?q4" by (rule loop_step.swap) simp
  moreover have "loop_step ?q4 ?q5"
    by (rule loop_step.finish) (simp add: dpf_swap_def el_handleRead_def el_wakeup_def el_quit_set_def new_event_loop_def)
  moreover have "loop_step ?q5 ?q6"
    by (rule loop_step.go_on) (simp_all add: dpf_swap_def el_handleRead_def)
  ultimately have "loop_step\<^sup>*\<^sup>* ?s1 ?q6" using p by (meson converse_rtranclp_into_rtranclp r_into_rtranclp)
  then show ?thesis using r e
    by (intro exI [of _ ?s0] exI [of _ ?s1] exI [of _ ?q6])
      (simp add: dpf_swap_def el_handleRead_def el_wakeup_def el_quit_set_def new_event_loop_def)
qed

section \<open>Concrete runs\<close>

text \<open>A loop in its first \<open>poll\<close> when another thread has pushed functor 7.\<close>

definition sample_loop :: event_loop where
  "sample_loop = new_event_loop\<lparr>el_pc := AtPoll, el_looping := True, el_pending := [7], el_queued := [7], el_waking := 1\<rparr>"

lemma sample_loop_reachable: "loop_reachable sample_loop"
proof -
  let ?s1 = "new_event_loop\<lparr>el_looping := True, el_quit := False, el_pc := Check\<rparr>"
  let ?s2 = "?s1\<lparr>el_pc := AtPoll\<rparr>"
  have "loop_step new_event_loop ?s1"
    by (rule loop_step.enter) (simp_all add: loop_enter_def new_event_loop_def)
  moreover have "loop_step ?s1 ?s2" by (rule loop_step.go_on) simp_all
  moreover have "loop_step ?s2 ((el_push 7 ?s2)\<lparr>el_waking := el_waking ?s2 + 1\<rparr>)" by (rule other_steps)
  moreover have "(el_push 7 ?s2)\<lparr>el_waking := el_waking ?s2 + 1\<rparr> = sample_loop"
    by (simp add: el_push_def sample_loop_def new_event_loop_def)
  ultimately show ?thesis unfolding loop_reachable_def
    by (metis converse_rtranclp_into_rtranclp r_into_rtranclp)
qed


theorem no_lost_wakeup_witness: "el_pending sample_loop = [7] \<and> (0 < el_wakeupFd sample_loop \<or> 0 < el_waking sample_loop)"
  using no_lost_wakeup [OF sample_loop_reachable] by (simp add: sample_loop_def new_event_loop_def)

theorem pending_gets_run_witness:
  "\<exists>s'. loop_iter 6 (wakeups_written 1 sample_loop) = Some s' \<and> el_ran s' = [7]"
  using pending_gets_run [OF sample_loop_reachable] by (auto simp: sample_loop_def new_event_loop_def)
end
