(* ===== verification/TcpConnection.thy ===== *)
theory TcpConnection
  imports NetBuffer Channel SafeRun
begin

text \<open>
  \<open>class TcpConnection\<close> of \<open>net/TcpConnection.h\<close> and \<open>net/TcpConnection.cc\<close>: the connection's
  state machine, its two buffers and the writing of the output as the kernel accepts it. The
  answers of \<open>read\<close> and \<open>write\<close> and the callbacks the server registers are parameters. Functors a
  connection hands to its loop are kept in the order of queueing (\<open>EventLoop\<close> runs them in that
  order). Registering the channel's mask with the poller is in \<open>Epoller\<close>; here a switch changes
  the mask.
\<close>

section \<open>State\<close>

datatype StateE = kDisconnected | kConnecting | kConnected | kDisconnecting

text \<open>An answer of \<open>write(2)\<close>: the number of bytes taken, or the error number.\<close>

datatype io_result = IoOk nat | IoErr int

definition EAGAIN :: int where "EAGAIN = 11"
definition EPIPE :: int where "EPIPE = 32"
definition ECONNRESET :: int where "ECONNRESET = 104"

text \<open>What the \<open>write\<close> manual promises: never more bytes taken than offered.\<close>

definition write_spec :: "nat \<Rightarrow> io_result \<Rightarrow> bool" where
  "write_spec len r \<longleftrightarrow> (case r of IoOk n \<Rightarrow> n \<le> len | IoErr _ \<Rightarrow> True)"

datatype conn_task =
    TaskSend string
  | TaskShutdown
  | TaskStartRead
  | TaskStopRead
  | TaskWriteComplete
  | TaskHighWaterMark nat
  | TaskConnectDestroyed

text \<open>
  \<open>c_wire\<close> is what the kernel has taken for the peer and \<open>c_shut\<close> that the write end was shut
  down. \<open>c_accepted\<close>, \<open>c_dropped\<close> and \<open>c_closes\<close> record, for the statements below, the data the
  connection took charge of, the data it gave up on a broken connection and the calls of the
  close callback.
\<close>

record conn =
  c_state :: StateE
  c_reading :: bool
  c_chan :: channel
  c_in :: buffer
  c_out :: buffer
  c_writeCompleteCallback :: bool
  c_highWaterMarkCallback :: bool
  c_highWaterMark :: nat
  c_inLoop :: bool
  c_tasks :: "conn_task list"
  c_wire :: string
  c_shut :: bool
  c_accepted :: string
  c_dropped :: "string list"
  c_closes :: nat

text \<open>The callbacks the server registers.\<close>

record 's conn_cbs =
  on_message :: "Timestamp \<Rightarrow> 's \<Rightarrow> 's res"
  on_close :: "'s \<Rightarrow> 's res"
  on_connection :: "'s \<Rightarrow> 's res"

section \<open>Operations\<close>

definition new_connection :: "nat \<Rightarrow> int \<Rightarrow> bool \<Rightarrow> conn res" where
  "new_connection loop sockfd writeComplete =
     rbind (new_buffer kInitialSize) (\<lambda>bin.
     rbind (new_buffer kInitialSize) (\<lambda>bout.
     Inr \<lparr>c_state = kConnecting, c_reading = True,
          c_chan = setErrorCallback (setCloseCallback (setWriteCallback (setReadCallback (new_channel loop sockfd)))),
          c_in = bin, c_out = bout, c_writeCompleteCallback = writeComplete,
          c_highWaterMarkCallback = False, c_highWaterMark = 64 * 1024 * 1024, c_inLoop = False,
          c_tasks = [], c_wire = [], c_shut = False, c_accepted = [], c_dropped = [], c_closes = 0\<rparr>))"

definition conn_destroy :: "'a conn_scheme \<Rightarrow> unit res" where
  "conn_destroy s = assertm (c_state s = kDisconnected) (Inr ())"

definition setHighWaterMarkCallback :: "nat \<Rightarrow> 'a conn_scheme \<Rightarrow> 'a conn_scheme" where
  "setHighWaterMarkCallback n s = s\<lparr>c_highWaterMarkCallback := True, c_highWaterMark := n\<rparr>"

definition connected :: "'a conn_scheme \<Rightarrow> bool" where
  "connected s \<longleftrightarrow> c_state s = kConnected"

definition disconnected :: "'a conn_scheme \<Rightarrow> bool" where
  "disconnected s \<longleftrightarrow> c_state s = kDisconnected"

definition stateToString :: "StateE \<Rightarrow> string" where
  "stateToString st =
     (case st of kDisconnected \<Rightarrow> ''kDisconnected'' | kConnecting \<Rightarrow> ''kConnecting''
      | kConnected \<Rightarrow> ''kConnected'' | kDisconnecting \<Rightarrow> ''kDisconnecting'')"

definition setState :: "StateE \<Rightarrow> 'a conn_scheme \<Rightarrow> 'a conn_scheme" where
  "setState st s = s\<lparr>c_state := st\<rparr>"

definition conn_switch :: "switch \<Rightarrow> 'a conn_scheme \<Rightarrow> 'a conn_scheme" where
  "conn_switch sw s = s\<lparr>c_chan := (c_chan s)\<lparr>ch_events := switch_events sw (ch_events (c_chan s)), ch_addedToLoop := True\<rparr>\<rparr>"

definition queue_task :: "conn_task \<Rightarrow> 'a conn_scheme \<Rightarrow> 'a conn_scheme" where
  "queue_task t s = s\<lparr>c_tasks := c_tasks s @ [t]\<rparr>"

definition write_attempt :: "io_result \<Rightarrow> nat \<times> bool \<times> bool" where
  "write_attempt wr =
     (case wr of
        IoOk n \<Rightarrow> (n, True, False)
      | IoErr e \<Rightarrow> (0, False, e \<noteq> EAGAIN \<and> (e = EPIPE \<or> e = ECONNRESET)))"

definition sendInLoop :: "io_result \<Rightarrow> string \<Rightarrow> 'a conn_scheme \<Rightarrow> 'a conn_scheme res" where
  "sendInLoop wr data s =
     (if c_state s = kDisconnected then Inr s
      else
        let len = length data;
            direct = (\<not> isWriting (c_chan s) \<and> readableBytes (c_out s) = 0);
            (nwrote, wrote, faultError) = (if direct then write_attempt wr else (0, False, False));
            remaining = usub len nwrote;
            s1 = s\<lparr>c_wire := c_wire s @ take nwrote data,
                   c_accepted := c_accepted s @ (if faultError then [] else data),
                   c_dropped := (if faultError then c_dropped s @ [data] else c_dropped s)\<rparr>;
            s2 = (if wrote \<and> remaining = 0 \<and> c_writeCompleteCallback s
                  then queue_task TaskWriteComplete s1 else s1)
        in assertm (remaining \<le> len)
            (if \<not> faultError \<and> remaining > 0 then
               let oldLen = readableBytes (c_out s2);
                   s3 = (if uadd oldLen remaining \<ge> c_highWaterMark s \<and> c_highWaterMarkCallback s
                         then queue_task (TaskHighWaterMark (uadd oldLen remaining)) s2 else s2)
               in rbind (buffer_append (take remaining (drop nwrote data)) (c_out s3)) (\<lambda>b.
                  let s4 = s3\<lparr>c_out := b\<rparr>
                  in Inr (if \<not> isWriting (c_chan s4) then conn_switch EnableWriting s4 else s4))
             else Inr s2))"

definition conn_send :: "bool \<Rightarrow> io_result \<Rightarrow> string \<Rightarrow> 'a conn_scheme \<Rightarrow> 'a conn_scheme res" where
  "conn_send inLoop wr message s =
     (if c_state s = kConnected
      then (if inLoop then sendInLoop wr message s else Inr (queue_task (TaskSend message) s))
      else Inr s)"

definition conn_send_buffer :: "bool \<Rightarrow> io_result \<Rightarrow> buffer \<Rightarrow> 'a conn_scheme \<Rightarrow> (buffer \<times> 'a conn_scheme) res" where
  "conn_send_buffer inLoop wr message s =
     (if c_state s = kConnected
      then (if inLoop
            then rbind (read_at (buf_data message) (peek message) (readableBytes message)) (\<lambda>data.
                 rbind (sendInLoop wr data s) (\<lambda>s'. Inr (retrieveAll message, s')))
            else rbind (retrieveAllAsString message) (\<lambda>(str, b). Inr (b, queue_task (TaskSend str) s)))
      else Inr (message, s))"

definition startReadInLoop :: "'a conn_scheme \<Rightarrow> 'a conn_scheme" where
  "startReadInLoop s =
     (if \<not> c_reading s \<or> \<not> isReading (c_chan s)
      then (conn_switch EnableReading s)\<lparr>c_reading := True\<rparr> else s)"

definition startRead :: "bool \<Rightarrow> 'a conn_scheme \<Rightarrow> 'a conn_scheme" where
  "startRead inLoop s = (if inLoop then startReadInLoop s else queue_task TaskStartRead s)"

definition stopReadInLoop :: "'a conn_scheme \<Rightarrow> 'a conn_scheme" where
  "stopReadInLoop s =
     (if c_reading s \<or> isReading (c_chan s)
      then (conn_switch DisableReading s)\<lparr>c_reading := False\<rparr> else s)"

definition stopRead :: "bool \<Rightarrow> 'a conn_scheme \<Rightarrow> 'a conn_scheme" where
  "stopRead inLoop s = (if inLoop then stopReadInLoop s else queue_task TaskStopRead s)"

definition shutdownInLoop :: "'a conn_scheme \<Rightarrow> 'a conn_scheme" where
  "shutdownInLoop s = (if \<not> isWriting (c_chan s) then s\<lparr>c_shut := True\<rparr> else s)"

definition conn_shutdown :: "bool \<Rightarrow> 'a conn_scheme \<Rightarrow> 'a conn_scheme" where
  "conn_shutdown inLoop s =
     (if c_state s = kConnected
      then (let s1 = setState kDisconnecting s
            in if inLoop then shutdownInLoop s1 else queue_task TaskShutdown s1)
      else s)"

definition connectEstablished :: "'a conn_scheme conn_cbs \<Rightarrow> 'a conn_scheme \<Rightarrow> 'a conn_scheme res" where
  "connectEstablished cbs s =
     assertm (c_state s = kConnecting)
       (let s1 = (setState kConnected s)\<lparr>c_inLoop := True\<rparr>;
            s2 = s1\<lparr>c_chan := chan_tie (c_chan s1)\<rparr>
        in on_connection cbs (conn_switch EnableReading s2))"

definition connectDestroyed :: "'a conn_scheme conn_cbs \<Rightarrow> 'a conn_scheme \<Rightarrow> 'a conn_scheme res" where
  "connectDestroyed cbs s =
     rbind (if c_state s = kConnected
            then on_connection cbs (conn_switch DisableAll (setState kDisconnected s))
            else Inr s) (\<lambda>s1.
     assertm (c_inLoop s1)
     (let s2 = s1\<lparr>c_inLoop := False\<rparr>
      in assertm (isNoneEvent (c_chan s2)) (Inr (s2\<lparr>c_chan := (c_chan s2)\<lparr>ch_addedToLoop := False\<rparr>\<rparr>))))"

definition handleClose :: "'a conn_scheme conn_cbs \<Rightarrow> 'a conn_scheme \<Rightarrow> 'a conn_scheme res" where
  "handleClose cbs s =
     assertm (c_state s = kConnected \<or> c_state s = kDisconnecting)
       (on_close cbs ((conn_switch DisableAll (setState kDisconnected s))\<lparr>c_closes := c_closes s + 1\<rparr>))"

text \<open>\<open>handleError\<close> reads and logs \<open>SO_ERROR\<close>.\<close>

definition handleError :: "'a conn_scheme \<Rightarrow> 'a conn_scheme" where
  "handleError s = s"

definition conn_handleRead :: "'a conn_scheme conn_cbs \<Rightarrow> readv_fun \<Rightarrow> Timestamp \<Rightarrow> 'a conn_scheme \<Rightarrow> 'a conn_scheme res" where
  "conn_handleRead cbs readv receiveTime s =
     rbind (readFd readv (c_in s)) (\<lambda>(n, savedErrno, b).
     let s1 = s\<lparr>c_in := b\<rparr> in
     if n > 0 then on_message cbs receiveTime s1
     else if n = 0 then handleClose cbs s1
     else Inr (handleError s1))"

definition handleWrite :: "io_result \<Rightarrow> 'a conn_scheme \<Rightarrow> 'a conn_scheme res" where
  "handleWrite wr s =
     (if isWriting (c_chan s) then
        rbind (read_at (buf_data (c_out s)) (peek (c_out s)) (readableBytes (c_out s))) (\<lambda>data.
        case wr of
          IoErr e \<Rightarrow> Inr s
        | IoOk n \<Rightarrow>
            if n > 0 then
              rbind (retrieve n (c_out s)) (\<lambda>b.
              let s1 = s\<lparr>c_out := b, c_wire := c_wire s @ take n data\<rparr> in
              if readableBytes b = 0 then
                let s2 = conn_switch DisableWriting s1;
                    s3 = (if c_writeCompleteCallback s2 then queue_task TaskWriteComplete s2 else s2)
                in Inr (if c_state s3 = kDisconnecting then shutdownInLoop s3 else s3)
              else Inr s1)
            else Inr s)
      else Inr s)"

text \<open>One functor of the connection, run by its loop.\<close>

definition run_task :: "'a conn_scheme conn_cbs \<Rightarrow> io_result \<Rightarrow> conn_task \<Rightarrow> 'a conn_scheme \<Rightarrow> 'a conn_scheme res" where
  "run_task cbs wr t s =
     (case t of
        TaskSend data \<Rightarrow> sendInLoop wr data s
      | TaskShutdown \<Rightarrow> Inr (shutdownInLoop s)
      | TaskStartRead \<Rightarrow> Inr (startReadInLoop s)
      | TaskStopRead \<Rightarrow> Inr (stopReadInLoop s)
      | TaskWriteComplete \<Rightarrow> Inr s
      | TaskHighWaterMark n \<Rightarrow> Inr s
      | TaskConnectDestroyed \<Rightarrow> connectDestroyed cbs s)"

text \<open>
  The callbacks a connection gives its channel, and the channel's dispatch over it; \<open>wr\<close> answers a
  write of the given length.
\<close>

definition conn_callback :: "'a conn_scheme conn_cbs \<Rightarrow> readv_fun \<Rightarrow> (nat \<Rightarrow> io_result) \<Rightarrow> chan_cb \<Rightarrow> 'a conn_scheme \<Rightarrow> 'a conn_scheme res" where
  "conn_callback cbs readv wr cb s =
     (case cb of
        CbClose \<Rightarrow> handleClose cbs s
      | CbError \<Rightarrow> Inr (handleError s)
      | CbRead t \<Rightarrow> conn_handleRead cbs readv t s
      | CbWrite \<Rightarrow> handleWrite (wr (readableBytes (c_out s))) s)"

definition conn_handleEvent :: "'a conn_scheme conn_cbs \<Rightarrow> readv_fun \<Rightarrow> (nat \<Rightarrow> io_result) \<Rightarrow> bool \<Rightarrow> Timestamp \<Rightarrow>
    'a conn_scheme \<Rightarrow> 'a conn_scheme res" where
  "conn_handleEvent cbs readv wr alive t s =
     handleEvent c_chan (\<lambda>f s. s\<lparr>c_chan := f (c_chan s)\<rparr>) (conn_callback cbs readv wr) alive t s"


section \<open>Invariant\<close>

text \<open>
  Both buffers are well-formed; what the connection took charge of is what the kernel has taken
  followed by what is still buffered; while the connection is open it watches for writability
  exactly when output is buffered, and after it was closed it watches for nothing.
\<close>

definition conn_inv :: "'a conn_scheme \<Rightarrow> bool" where
  "conn_inv s \<longleftrightarrow>
     buffer_wf (c_in s) \<and> buffer_wf (c_out s) \<and> c_accepted s = c_wire s @ readable (c_out s) \<and>
     (if c_state s = kDisconnected then ch_events (c_chan s) = kNoneEvent
      else isWriting (c_chan s) \<longleftrightarrow> readable (c_out s) \<noteq> []) \<and>
     c_closes s = (if c_state s = kDisconnected then 1 else 0) \<and>
     (c_shut s \<longrightarrow> c_state s = kDisconnecting \<or> c_state s = kDisconnected)"

text \<open>What the operations that neither close nor connect leave alone.\<close>

definition conn_frame :: "'a conn_scheme \<Rightarrow> 'a conn_scheme \<Rightarrow> bool" where
  "conn_frame s s' \<longleftrightarrow> c_inLoop s' = c_inLoop s \<and> c_closes s' = c_closes s \<and>
     same_dispatch (c_chan s) (c_chan s')"

lemma switch_isWriting [simp]:
  "isWriting (c_chan (conn_switch EnableWriting s))" "\<not> isWriting (c_chan (conn_switch DisableWriting s))"
  "\<not> isWriting (c_chan (conn_switch DisableAll s))"
  "isWriting (c_chan (conn_switch EnableReading s)) = isWriting (c_chan s)"
  "isWriting (c_chan (conn_switch DisableReading s)) = isWriting (c_chan s)"
  using switch_writing [of "ch_events (c_chan s)"] by (simp_all add: conn_switch_def isWriting_def)

lemma conn_switch_simps [simp]:
  "c_state (conn_switch sw s) = c_state s" "c_in (conn_switch sw s) = c_in s" "c_out (conn_switch sw s) = c_out s"
  "c_accepted (conn_switch sw s) = c_accepted s" "c_wire (conn_switch sw s) = c_wire s"
  "c_closes (conn_switch sw s) = c_closes s" "c_shut (conn_switch sw s) = c_shut s"
  "c_inLoop (conn_switch sw s) = c_inLoop s" "same_dispatch c (c_chan (conn_switch sw s)) = same_dispatch c (c_chan s)"
  "c_writeCompleteCallback (conn_switch sw s) = c_writeCompleteCallback s" "c_dropped (conn_switch sw s) = c_dropped s"
  "ch_events (c_chan (conn_switch sw s)) = switch_events sw (ch_events (c_chan s))"
  by (simp_all add: conn_switch_def same_dispatch_def)

lemma queue_task_simps [simp]:
  "c_state (queue_task t s) = c_state s" "c_in (queue_task t s) = c_in s" "c_out (queue_task t s) = c_out s"
  "c_accepted (queue_task t s) = c_accepted s" "c_wire (queue_task t s) = c_wire s"
  "c_closes (queue_task t s) = c_closes s" "c_shut (queue_task t s) = c_shut s"
  "c_inLoop (queue_task t s) = c_inLoop s" "c_chan (queue_task t s) = c_chan s"
  "c_dropped (queue_task t s) = c_dropped s"
  by (simp_all add: queue_task_def)

lemma same_dispatch_refl [simp]: "same_dispatch c c"
  by (simp add: same_dispatch_def)

lemma kNoneEvent_not_writing: "ch_events c = kNoneEvent \<Longrightarrow> \<not> isWriting c"
  by (simp add: isWriting_def kNoneEvent_def)

definition conn_same :: "'a conn_scheme \<Rightarrow> 'a conn_scheme \<Rightarrow> bool" where
  "conn_same s s' \<longleftrightarrow> conn_frame s s' \<and> c_state s' = c_state s \<and> c_shut s' = c_shut s \<and> c_in s' = c_in s"

text \<open>
  The data of one send: handed to the kernel at once as far as it takes them, the rest buffered
  behind what is buffered already, unless the connection turns out to be broken.
\<close>

lemma sendInLoop_ok:
  assumes inv: "conn_inv s" and wr: "write_spec (length data) wr" and len: "length data \<le> vec_max"
  shows "ok_or {LengthError} (\<lambda>s'. conn_inv s' \<and> conn_same s s' \<and>
     (if c_state s = kDisconnected then c_accepted s' = c_accepted s \<and> c_wire s' = c_wire s \<and> c_dropped s' = c_dropped s
      else c_accepted s' = c_accepted s @ data \<and> c_dropped s' = c_dropped s \<or>
           c_accepted s' = c_accepted s \<and> c_dropped s' = c_dropped s @ [data] \<and>
           (wr = IoErr EPIPE \<or> wr = IoErr ECONNRESET))) (sendInLoop wr data s)"
proof (cases "c_state s = kDisconnected")
  case True
  then show ?thesis using inv by (simp add: sendInLoop_def conn_same_def conn_frame_def)
next
  case opn: False
  have wf: "buffer_wf (c_out s)" and acc: "c_accepted s = c_wire s @ readable (c_out s)"
    and iw: "isWriting (c_chan s) \<longleftrightarrow> readable (c_out s) \<noteq> []"
    using inv opn by (auto simp: conn_inv_def)
  define a where "a = (if \<not> isWriting (c_chan s) \<and> readableBytes (c_out s) = 0 then write_attempt wr else (0, False, False))"
  obtain nw wrote fe where a: "a = (nw, wrote, fe)" by (cases a)
  have nw: "nw \<le> length data" using a wr
    by (auto simp: a_def write_attempt_def write_spec_def split: if_splits io_result.splits)
  have rem: "usub (length data) nw = length data - nw"
    using nw len by (simp add: usub_exact vec_max_less)
  have fe: "nw = 0 \<and> (wr = IoErr EPIPE \<or> wr = IoErr ECONNRESET)" if fe using that a
    by (auto simp: a_def write_attempt_def split: if_splits io_result.splits)
  have out: "readable (c_out s) = []" if "0 < nw" using that a wf
    by (auto simp: a_def readableBytes_length split: if_splits)
  define s1 where "s1 = s\<lparr>c_wire := c_wire s @ take nw data,
      c_accepted := c_accepted s @ (if fe then [] else data),
      c_dropped := (if fe then c_dropped s @ [data] else c_dropped s)\<rparr>"
  define s2 where "s2 = (if wrote \<and> length data - nw = 0 \<and> c_writeCompleteCallback s then queue_task TaskWriteComplete s1 else s1)"
  define s3 where "s3 = (if uadd (readableBytes (c_out s2)) (length data - nw) \<ge> c_highWaterMark s \<and> c_highWaterMarkCallback s
      then queue_task (TaskHighWaterMark (uadd (readableBytes (c_out s2)) (length data - nw))) s2 else s2)"
  have s2: "c_state s2 = c_state s" "c_in s2 = c_in s" "c_out s2 = c_out s" "c_chan s2 = c_chan s" "c_closes s2 = c_closes s"
    "c_shut s2 = c_shut s" "c_inLoop s2 = c_inLoop s" "c_wire s2 = c_wire s @ take nw data"
    "c_accepted s2 = c_accepted s @ (if fe then [] else data)"
    "c_dropped s2 = (if fe then c_dropped s @ [data] else c_dropped s)"
    by (simp_all add: s2_def s1_def)
  have s3: "c_state s3 = c_state s2" "c_in s3 = c_in s2" "c_out s3 = c_out s2" "c_chan s3 = c_chan s2" "c_closes s3 = c_closes s2"
    "c_shut s3 = c_shut s2" "c_inLoop s3 = c_inLoop s2" "c_wire s3 = c_wire s2" "c_accepted s3 = c_accepted s2" "c_dropped s3 = c_dropped s2"
    by (simp_all add: s3_def)
  have eq: "sendInLoop wr data s =
      (if \<not> fe \<and> length data - nw > 0 then
         rbind (buffer_append (take (length data - nw) (drop nw data)) (c_out s3)) (\<lambda>b.
           Inr (if \<not> isWriting (c_chan (s3\<lparr>c_out := b\<rparr>)) then conn_switch EnableWriting (s3\<lparr>c_out := b\<rparr>) else s3\<lparr>c_out := b\<rparr>))
       else Inr s2)"
    using opn a unfolding sendInLoop_def a_def
    by (simp add: Let_def rem s1_def s2_def s3_def cong: if_cong)
  show ?thesis
  proof (cases "\<not> fe \<and> length data - nw > 0")
    case False
    have "conn_inv s2 \<and> conn_same s s2"
      using inv out nw False fe by (cases fe; cases "nw = 0") (auto simp: conn_inv_def conn_same_def conn_frame_def s2)
    moreover have "sendInLoop wr data s = Inr s2" unfolding eq by (simp only: False if_False)
    ultimately show ?thesis using opn fe by (auto simp: s2)
  next
    case True
    let ?rest = "take (length data - nw) (drop nw data)"
    have "length ?rest \<le> vec_max" using len by simp
    with wf show ?thesis
    proof (cases rule: buffer_append_cases)
      case (ok b)
      define s' where "s' = (if \<not> isWriting (c_chan (s3\<lparr>c_out := b\<rparr>)) then conn_switch EnableWriting (s3\<lparr>c_out := b\<rparr>) else s3\<lparr>c_out := b\<rparr>)"
      have "sendInLoop wr data s = Inr s'" using eq True ok(1) by (simp add: s2 s3 s'_def)
      moreover have "conn_inv s'"
        using inv ok(2,3) True opn nw out unfolding s'_def
        by (cases "nw = 0") (auto simp: conn_inv_def s2 s3)
      moreover have "conn_same s s'" unfolding s'_def by (auto simp: conn_same_def conn_frame_def s2 s3)
      moreover have "c_accepted s' = c_accepted s @ data" "c_dropped s' = c_dropped s"
        unfolding s'_def using True by (auto simp: s2 s3)
      ultimately show ?thesis using opn by simp
    next
      case too_long
      then show ?thesis using eq True by (simp add: s2 s3)
    qed
  qed
qed


lemma handleWrite_ok:
  assumes inv: "conn_inv s" and wr: "write_spec (length (readable (c_out s))) wr"
  shows "\<exists>s'. handleWrite wr s = Inr s' \<and> conn_inv s' \<and> conn_frame s s' \<and> c_state s' = c_state s \<and> c_in s' = c_in s \<and>
     c_accepted s' = c_accepted s \<and> c_dropped s' = c_dropped s \<and>
     (\<forall>n. isWriting (c_chan s) \<longrightarrow> wr = IoOk n \<longrightarrow>
        c_wire s' = c_wire s @ take n (readable (c_out s)) \<and> readable (c_out s') = drop n (readable (c_out s))) \<and>
     (c_shut s' \<longrightarrow> c_shut s \<or> readable (c_out s') = [])"
proof (cases "isWriting (c_chan s) \<and> (\<exists>n. wr = IoOk n \<and> 0 < n)")
  case False
  have "handleWrite wr s = Inr s"
    using False inv by (auto simp: handleWrite_def conn_inv_def buffer_simps peek_def split: io_result.splits)
  moreover have "c_wire s = c_wire s @ take n (readable (c_out s)) \<and> readable (c_out s) = drop n (readable (c_out s))"
    if "isWriting (c_chan s)" "wr = IoOk n" for n
    using False that by auto
  ultimately show ?thesis using inv by (auto simp: conn_frame_def)
next
  case True
  then obtain n where n: "isWriting (c_chan s)" "wr = IoOk n" "0 < n" by auto
  have wf: "buffer_wf (c_out s)" and opn: "c_state s \<noteq> kDisconnected"
    using inv n(1) kNoneEvent_not_writing by (auto simp: conn_inv_def)
  have le: "n \<le> length (readable (c_out s))" using wr n(2) by (simp add: write_spec_def)
  obtain b where b: "retrieve n (c_out s) = Inr b" "buffer_wf b" "readable b = drop n (readable (c_out s))"
    using retrieve_ok [OF wf le] by blast
  define s1 where "s1 = s\<lparr>c_out := b, c_wire := c_wire s @ take n (readable (c_out s))\<rparr>"
  have s1: "c_state s1 = c_state s" "c_in s1 = c_in s" "c_out s1 = b" "c_chan s1 = c_chan s" "c_closes s1 = c_closes s"
    "c_shut s1 = c_shut s" "c_inLoop s1 = c_inLoop s" "c_wire s1 = c_wire s @ take n (readable (c_out s))"
    "c_accepted s1 = c_accepted s" "c_dropped s1 = c_dropped s"
    by (simp_all add: s1_def)
  define s3 where "s3 = (if c_writeCompleteCallback (conn_switch DisableWriting s1)
      then queue_task TaskWriteComplete (conn_switch DisableWriting s1) else conn_switch DisableWriting s1)"
  define s' where "s' = (if readable b = [] then if c_state s3 = kDisconnecting then shutdownInLoop s3 else s3 else s1)"
  have s3: "c_state s3 = c_state s" "c_in s3 = c_in s" "c_out s3 = b" "c_closes s3 = c_closes s"
    "c_shut s3 = c_shut s" "c_inLoop s3 = c_inLoop s" "c_wire s3 = c_wire s @ take n (readable (c_out s))"
    "c_accepted s3 = c_accepted s" "c_dropped s3 = c_dropped s" "\<not> isWriting (c_chan s3)"
    "same_dispatch (c_chan s) (c_chan s3)"
    unfolding s3_def by (auto simp: s1)
  have rd: "read_at (buf_data (c_out s)) (peek (c_out s)) (readableBytes (c_out s)) = Inr (readable (c_out s))"
    using wf by (simp add: buffer_simps peek_def)
  have rb: "readableBytes b = 0 \<longleftrightarrow> readable b = []" using b(2) by (simp add: readableBytes_length)
  have "handleWrite wr s = Inr s'"
    unfolding handleWrite_def s'_def s3_def s1_def n(2)
    by (cases "readable b = []") (simp_all only: n(1,3) if_True if_False rd rb rbind.simps io_result.case b(1) Let_def simp_thms)
  moreover have "conn_inv s'"
    using inv b(2,3) opn n(1) unfolding s'_def by (auto simp: conn_inv_def shutdownInLoop_def s1 s3)
  moreover have "conn_frame s s'" unfolding s'_def by (auto simp: conn_frame_def shutdownInLoop_def s1 s3)
  ultimately show ?thesis using b(3) n(2) unfolding s'_def by (auto simp: shutdownInLoop_def s1 s3)
qed

lemma conn_inv_queue: "conn_inv (queue_task t s) \<longleftrightarrow> conn_inv s"
  by (simp add: conn_inv_def)

lemma handleClose_pre:
  assumes "conn_inv s" "c_state s = kConnected \<or> c_state s = kDisconnecting"
  shows "conn_inv ((conn_switch DisableAll (setState kDisconnected s))\<lparr>c_closes := c_closes s + 1\<rparr>)"
  using assms by (auto simp: conn_inv_def setState_def)

lemma shutdown_ok:
  assumes "conn_inv s"
  shows "conn_inv (conn_shutdown inLoop s)"
  using assms by (auto simp: conn_inv_def conn_shutdown_def shutdownInLoop_def setState_def Let_def)

lemma read_switch_ok:
  assumes "conn_inv s" "c_state s \<noteq> kDisconnected"
  shows "conn_inv (startReadInLoop s)" "conn_inv (stopReadInLoop s)"
  using assms by (auto simp: conn_inv_def startReadInLoop_def stopReadInLoop_def)


section \<open>Runs of a connection\<close>

text \<open>
  The connection in its server: the close callback leads to \<open>connectDestroyed\<close> being queued in the
  connection's loop (\<open>TcpServer::removeConnection\<close>, \<open>removeConnectionInLoop\<close>). \<open>conn_ok\<close> adds to
  the invariant what is known of the queued functors.
\<close>

definition removeConnectionInLoop :: "'a conn_scheme \<Rightarrow> 'a conn_scheme res" where
  "removeConnectionInLoop s = Inr (queue_task TaskConnectDestroyed s)"

definition conn_ok :: "'a conn_scheme \<Rightarrow> bool" where
  "conn_ok s \<longleftrightarrow> conn_inv s \<and>
     (TaskShutdown \<in> set (c_tasks s) \<longrightarrow> c_state s = kDisconnecting \<or> c_state s = kDisconnected) \<and>
     count_list (c_tasks s) TaskConnectDestroyed = (if c_state s = kDisconnected \<and> c_inLoop s then 1 else 0) \<and>
     (c_state s = kConnecting \<longrightarrow> \<not> c_inLoop s) \<and>
     (c_state s = kConnected \<or> c_state s = kDisconnecting \<longrightarrow> c_inLoop s) \<and>
     (\<forall>data. TaskSend data \<in> set (c_tasks s) \<longrightarrow> length data \<le> vec_max)"

definition state_le :: "StateE \<Rightarrow> StateE \<Rightarrow> bool" where
  "state_le a b \<longleftrightarrow> a = b \<or> (a = kConnected \<and> b = kDisconnecting)"

text \<open>
  What is asked of the user's callbacks: they may send, shut down and read the input buffer, but
  keep the connection consistent and do not close it themselves.
\<close>

definition user_cb_ok :: "('a conn_scheme \<Rightarrow> 'a conn_scheme res) \<Rightarrow> bool" where
  "user_cb_ok f \<longleftrightarrow> (\<forall>s. conn_ok s \<longrightarrow> c_state s \<noteq> kConnecting \<longrightarrow>
     ok_or {LengthError} (\<lambda>s'. conn_ok s' \<and> conn_frame s s' \<and> state_le (c_state s) (c_state s')) (f s))"

definition cbs_ok :: "'a conn_scheme conn_cbs \<Rightarrow> bool" where
  "cbs_ok cbs \<longleftrightarrow> (\<forall>t. user_cb_ok (on_message cbs t)) \<and> user_cb_ok (on_connection cbs) \<and>
     on_close cbs = removeConnectionInLoop"

datatype conn_op =
    OpEstablished
  | OpSend bool io_result string
  | OpShutdown bool
  | OpStartRead bool
  | OpStopRead bool
  | OpEvent event_mask readv_fun "nat \<Rightarrow> io_result" Timestamp
  | OpTask io_result

definition pop_task :: "'a conn_scheme conn_cbs \<Rightarrow> io_result \<Rightarrow> 'a conn_scheme \<Rightarrow> 'a conn_scheme res" where
  "pop_task cbs wr s =
     (case c_tasks s of [] \<Rightarrow> Inr s | t # ts \<Rightarrow> run_task cbs wr t (s\<lparr>c_tasks := ts\<rparr>))"

fun conn_step :: "'a conn_scheme conn_cbs \<Rightarrow> conn_op \<Rightarrow> 'a conn_scheme \<Rightarrow> 'a conn_scheme res" where
  "conn_step cbs OpEstablished s = connectEstablished cbs s"
| "conn_step cbs (OpSend inLoop wr data) s = conn_send inLoop wr data s"
| "conn_step cbs (OpShutdown inLoop) s = Inr (conn_shutdown inLoop s)"
| "conn_step cbs (OpStartRead inLoop) s = Inr (startRead inLoop s)"
| "conn_step cbs (OpStopRead inLoop) s = Inr (stopRead inLoop s)"
| "conn_step cbs (OpEvent revt readv wr t) s =
     conn_handleEvent cbs readv wr True t (s\<lparr>c_chan := set_revents revt (c_chan s)\<rparr>)"
| "conn_step cbs (OpTask wr) s = pop_task cbs wr s"

text \<open>
  The environment: the kernel keeps to the contracts of \<open>read\<close> and \<open>write\<close>, events come only while
  the connection is open and never report a hang-up without input but with urgent data, and
  reading is not switched on or off once the connection is closed.
\<close>

definition hup_and_read :: "event_mask \<Rightarrow> bool" where
  "hup_and_read revt \<longleftrightarrow> revt AND POLLHUP \<noteq> 0 \<and> revt AND POLLIN = 0 \<and> revt AND (POLLIN OR POLLPRI OR POLLRDHUP) \<noteq> 0"

fun conn_legal :: "conn_op \<Rightarrow> 'a conn_scheme \<Rightarrow> bool" where
  "conn_legal OpEstablished s \<longleftrightarrow> c_state s = kConnecting"
| "conn_legal (OpSend inLoop wr data) s \<longleftrightarrow> length data \<le> vec_max \<and> write_spec (length data) wr"
| "conn_legal (OpShutdown inLoop) s \<longleftrightarrow> True"
| "conn_legal (OpStartRead inLoop) s \<longleftrightarrow> c_state s \<noteq> kDisconnected"
| "conn_legal (OpStopRead inLoop) s \<longleftrightarrow> c_state s \<noteq> kDisconnected"
| "conn_legal (OpEvent revt readv wr t) s \<longleftrightarrow> (c_state s = kConnected \<or> c_state s = kDisconnecting) \<and>
     readv_spec readv \<and> (\<forall>n. write_spec n (wr n)) \<and> \<not> hup_and_read revt"
| "conn_legal (OpTask wr) s \<longleftrightarrow>
     (case c_tasks s of
        [] \<Rightarrow> True
      | TaskSend data # ts \<Rightarrow> write_spec (length data) wr
      | TaskStartRead # ts \<Rightarrow> c_state s \<noteq> kDisconnected
      | TaskStopRead # ts \<Rightarrow> c_state s \<noteq> kDisconnected
      | _ \<Rightarrow> True)"

definition open_state :: "'a conn_scheme \<Rightarrow> bool" where
  "open_state s \<longleftrightarrow> c_state s = kConnected \<or> c_state s = kDisconnecting"

lemma conn_ok_same:
  assumes "conn_ok s" "conn_inv s'" "conn_same s s'"
    and "\<And>t. t \<in> set (c_tasks s') \<Longrightarrow> t \<in> set (c_tasks s) \<or> t = TaskWriteComplete \<or> (\<exists>n. t = TaskHighWaterMark n)"
    and "count_list (c_tasks s') TaskConnectDestroyed = count_list (c_tasks s) TaskConnectDestroyed"
  shows "conn_ok s'"
  using assms unfolding conn_ok_def conn_same_def conn_frame_def by fastforce

lemma tasks_simps:
  "c_tasks (conn_switch sw s) = c_tasks s" "c_tasks (shutdownInLoop s) = c_tasks s"
  "c_tasks (queue_task t s) = c_tasks s @ [t]"
  by (simp_all add: conn_switch_def shutdownInLoop_def queue_task_def)

text \<open>What \<open>sendInLoop\<close> leaves alone, and the functors it queues.\<close>

lemma sendInLoop_outcome:
  assumes "sendInLoop wr data s = Inr s'"
  shows "(\<exists>ts. c_tasks s' = c_tasks s @ ts \<and> (\<forall>t \<in> set ts. t = TaskWriteComplete \<or> (\<exists>n. t = TaskHighWaterMark n))) \<and>
    conn.more s' = conn.more s \<and> ch_eventHandling (c_chan s') = ch_eventHandling (c_chan s)"
proof (cases "c_state s = kDisconnected")
  case True
  then show ?thesis using assms by (simp add: sendInLoop_def)
next
  case False
  define keeps where "keeps x \<longleftrightarrow>
     (\<exists>ts. c_tasks x = c_tasks s @ ts \<and> (\<forall>t \<in> set ts. t = TaskWriteComplete \<or> (\<exists>n. t = TaskHighWaterMark n))) \<and>
     conn.more x = conn.more s \<and> ch_eventHandling (c_chan x) = ch_eventHandling (c_chan s)" for x
  have queue: "keeps (queue_task t x)" if "keeps x" "t = TaskWriteComplete \<or> (\<exists>n. t = TaskHighWaterMark n)" for t x
    using that unfolding keeps_def by (auto simp: tasks_simps) (auto simp: queue_task_def)
  have out: "keeps (x\<lparr>c_out := b\<rparr>)" if "keeps x" for x b using that by (simp add: keeps_def)
  have sw: "keeps (conn_switch c x)" if "keeps x" for c x using that by (simp add: keeps_def tasks_simps) (simp add: conn_switch_def)
  obtain nwrote wrote faultError where a: "(if \<not> isWriting (c_chan s) \<and> readableBytes (c_out s) = 0 then write_attempt wr else (0, False, False)) =
      (nwrote, wrote, faultError)" by (metis prod_cases3)
  define s1 where "s1 = s\<lparr>c_wire := c_wire s @ take nwrote data, c_accepted := c_accepted s @ (if faultError then [] else data),
      c_dropped := (if faultError then c_dropped s @ [data] else c_dropped s)\<rparr>"
  define s2 where "s2 = (if wrote \<and> usub (length data) nwrote = 0 \<and> c_writeCompleteCallback s then queue_task TaskWriteComplete s1 else s1)"
  define s3 where "s3 = (if uadd (readableBytes (c_out s2)) (usub (length data) nwrote) \<ge> c_highWaterMark s \<and> c_highWaterMarkCallback s
      then queue_task (TaskHighWaterMark (uadd (readableBytes (c_out s2)) (usub (length data) nwrote))) s2 else s2)"
  have "keeps s1" by (simp add: keeps_def s1_def)
  then have "keeps s2" by (simp add: s2_def queue)
  then have k: "keeps s2" "keeps s3" by (simp_all add: s3_def queue)
  have "assertm (usub (length data) nwrote \<le> length data)
      (if \<not> faultError \<and> usub (length data) nwrote > 0
       then rbind (buffer_append (take (usub (length data) nwrote) (drop nwrote data)) (c_out s3)) (\<lambda>b.
            Inr (if \<not> isWriting (c_chan (s3\<lparr>c_out := b\<rparr>)) then conn_switch EnableWriting (s3\<lparr>c_out := b\<rparr>) else s3\<lparr>c_out := b\<rparr>))
       else Inr s2) = Inr s'"
    using assms False a unfolding sendInLoop_def s3_def s2_def s1_def by (simp only: Let_def prod.case if_False)
  then have "keeps s'" using k out sw by (auto simp: assertm_def rbind_Inr_iff split: if_split_asm)
  then show ?thesis by (simp add: keeps_def)
qed

lemmas sendInLoop_tasks = sendInLoop_outcome [THEN conjunct1]

text \<open>The outcomes of \<open>handleWrite\<close>: nothing, a part written, or the last part.\<close>

definition wrote_all :: "'a conn_scheme \<Rightarrow> 'a conn_scheme" where
  "wrote_all s =
     (let s1 = conn_switch DisableWriting s; s2 = (if c_writeCompleteCallback s1 then queue_task TaskWriteComplete s1 else s1)
      in if c_state s2 = kDisconnecting then shutdownInLoop s2 else s2)"

lemma handleWrite_eq:
  "handleWrite wr s =
     (if isWriting (c_chan s) then
        rbind (read_at (buf_data (c_out s)) (peek (c_out s)) (readableBytes (c_out s))) (\<lambda>data.
        case wr of
          IoErr e \<Rightarrow> Inr s
        | IoOk n \<Rightarrow>
            if n > 0 then
              rbind (retrieve n (c_out s)) (\<lambda>b.
              if readableBytes b = 0 then Inr (wrote_all (s\<lparr>c_out := b, c_wire := c_wire s @ take n data\<rparr>))
              else Inr (s\<lparr>c_out := b, c_wire := c_wire s @ take n data\<rparr>))
            else Inr s)
      else Inr s)"
  unfolding handleWrite_def wrote_all_def Let_def by (rule refl)

lemma handleWrite_outcome:
  assumes "handleWrite wr s = Inr s'"
  shows "s' = s \<or> isWriting (c_chan s) \<and> (\<exists>b w. s' = s\<lparr>c_out := b, c_wire := w\<rparr> \<or> s' = wrote_all (s\<lparr>c_out := b, c_wire := w\<rparr>))"
proof (cases "isWriting (c_chan s)")
  case True
  show ?thesis
  proof (cases wr)
    case (IoOk n)
    show ?thesis
    proof (cases "n > 0")
      case True
      then obtain data b where "(if readableBytes b = 0 then Inr (wrote_all (s\<lparr>c_out := b, c_wire := c_wire s @ take n data\<rparr>))
          else Inr (s\<lparr>c_out := b, c_wire := c_wire s @ take n data\<rparr>)) = (Inr s' :: 'a conn_scheme res)"
        using assms IoOk \<open>isWriting (c_chan s)\<close> by (auto simp: handleWrite_eq rbind_Inr_iff)
      then have "\<exists>b w. s' = s\<lparr>c_out := b, c_wire := w\<rparr> \<or> s' = wrote_all (s\<lparr>c_out := b, c_wire := w\<rparr>)"
        by (cases "readableBytes b = 0") auto
      with \<open>isWriting (c_chan s)\<close> show ?thesis by blast
    qed (use assms IoOk True in \<open>auto simp: handleWrite_eq rbind_Inr_iff\<close>)
  qed (use assms True in \<open>auto simp: handleWrite_eq rbind_Inr_iff\<close>)
qed (use assms in \<open>simp add: handleWrite_eq\<close>)

lemma wrote_all_tasks: "\<exists>ts. c_tasks (wrote_all s) = c_tasks s @ ts \<and> (\<forall>t \<in> set ts. t = TaskWriteComplete)"
  by (simp add: wrote_all_def Let_def tasks_simps)

lemma handleWrite_tasks:
  assumes "handleWrite wr s = Inr s'"
  shows "\<exists>ts. c_tasks s' = c_tasks s @ ts \<and> (\<forall>t \<in> set ts. t = TaskWriteComplete)"
proof -
  have "\<exists>ts. c_tasks (wrote_all (s\<lparr>c_out := b, c_wire := w\<rparr>)) = c_tasks s @ ts \<and> (\<forall>t \<in> set ts. t = TaskWriteComplete)" for b w
    using wrote_all_tasks [of "s\<lparr>c_out := b, c_wire := w\<rparr>"] by simp
  then show ?thesis using handleWrite_outcome [OF assms] by auto
qed

lemma count_list_none: "\<forall>t \<in> set ts. t \<noteq> x \<Longrightarrow> count_list ts x = 0"
  by (induction ts) auto

lemma sendInLoop_conn_ok:
  assumes ok: "conn_ok s" and wr: "write_spec (length data) wr" and len: "length data \<le> vec_max"
  shows "ok_or {LengthError} (\<lambda>s'. conn_ok s' \<and> conn_same s s') (sendInLoop wr data s)"
proof (cases "sendInLoop wr data s")
  case (Inl e)
  then show ?thesis using sendInLoop_ok [OF _ wr len] ok by (fastforce simp: conn_ok_def)
next
  case (Inr s')
  have s': "conn_inv s'" "conn_same s s'" using sendInLoop_ok [OF _ wr len, of s] ok Inr by (auto simp: conn_ok_def)
  obtain ts where ts: "c_tasks s' = c_tasks s @ ts" "\<forall>t \<in> set ts. t = TaskWriteComplete \<or> (\<exists>n. t = TaskHighWaterMark n)"
    using sendInLoop_tasks [OF Inr] by blast
  have "count_list ts TaskConnectDestroyed = 0" using ts(2) by (intro count_list_none) auto
  then have "conn_ok s'" using conn_ok_same [OF ok s'] ts by auto
  with s'(2) Inr show ?thesis by simp
qed

lemma handleWrite_conn_ok:
  assumes ok: "conn_ok s" and wr: "write_spec (length (readable (c_out s))) wr"
  shows "\<exists>s'. handleWrite wr s = Inr s' \<and> conn_ok s' \<and> conn_frame s s' \<and> c_state s' = c_state s"
proof -
  obtain s' where s': "handleWrite wr s = Inr s'" "conn_inv s'" "conn_frame s s'" "c_state s' = c_state s"
    using handleWrite_ok [OF _ wr] ok by (auto simp: conn_ok_def)
  obtain ts where ts: "c_tasks s' = c_tasks s @ ts" "\<forall>t \<in> set ts. t = TaskWriteComplete"
    using handleWrite_tasks [OF s'(1)] by blast
  have "count_list ts TaskConnectDestroyed = 0" using ts(2) by (intro count_list_none) auto
  then have "conn_ok s'" using ok s' ts by (auto simp: conn_ok_def conn_frame_def)
  with s' show ?thesis by blast
qed

lemma conn_shutdown_conn_ok:
  assumes "conn_ok s"
  shows "conn_ok (conn_shutdown inLoop s)" "state_le (c_state s) (c_state (conn_shutdown inLoop s))"
    "conn_frame s (conn_shutdown inLoop s)"
  using assms shutdown_ok [of s inLoop]
  by (auto simp: conn_ok_def conn_shutdown_def setState_def Let_def tasks_simps shutdownInLoop_def state_le_def conn_frame_def)

lemma handleClose_ok:
  assumes ok: "conn_ok s" and opn: "open_state s" and cbs: "on_close cbs = removeConnectionInLoop"
  shows "\<exists>s'. handleClose cbs s = Inr s' \<and> conn_ok s' \<and> c_state s' = kDisconnected \<and>
     same_dispatch (c_chan s) (c_chan s')"
proof -
  let ?s1 = "(conn_switch DisableAll (setState kDisconnected s))\<lparr>c_closes := c_closes s + 1\<rparr>"
  have "conn_inv ?s1" using handleClose_pre ok opn by (auto simp: conn_ok_def open_state_def)
  then have "conn_inv (queue_task TaskConnectDestroyed ?s1)" by (simp only: conn_inv_queue)
  then have "conn_ok (queue_task TaskConnectDestroyed ?s1)"
    using ok opn by (auto simp: conn_ok_def open_state_def tasks_simps setState_def)
  then show ?thesis
    using opn cbs by (simp add: handleClose_def open_state_def removeConnectionInLoop_def setState_def)
qed

lemma readFd_wf:
  assumes wf: "buffer_wf buf" and rd: "readv_spec readv"
  shows "ok_or {LengthError} (\<lambda>(n, err, b). buffer_wf b) (readFd readv buf)"
proof (cases "readv (writableBytes buf + (if writableBytes buf < 65536 then 65536 else 0))")
  case (Inl e)
  then show ?thesis using readFd_error [of readv buf e] wf by simp
next
  case (Inr bytes)
  from readFd_result [OF wf rd Inr] show ?thesis by auto
qed

lemma readFd_conn_ok:
  assumes ok: "conn_ok s" and rd: "readv_spec readv"
  shows "ok_or {LengthError} (\<lambda>(n, err, b). conn_ok (s\<lparr>c_in := b\<rparr>)) (readFd readv (c_in s))"
  using readFd_wf [of "c_in s", OF _ rd] ok by (auto simp: conn_ok_def conn_inv_def elim!: ok_or_mono)

text \<open>What one callback of the channel leaves behind.\<close>

definition cb_post :: "'a conn_scheme \<Rightarrow> 'a conn_scheme \<Rightarrow> bool" where
  "cb_post s s' \<longleftrightarrow> conn_ok s' \<and> same_dispatch (c_chan s) (c_chan s') \<and> c_state s' \<noteq> kConnecting"

lemma conn_handleRead_ok:
  assumes ok: "conn_ok s" and opn: "open_state s" and rd: "readv_spec readv" and cbs: "cbs_ok cbs"
  shows "ok_or {LengthError} (cb_post s) (conn_handleRead cbs readv t s)"
  unfolding conn_handleRead_def
proof (rule ok_or_bind [OF readFd_conn_ok [OF ok rd]])
  fix r :: "int \<times> int option \<times> buffer" assume r: "case r of (n, err, b) \<Rightarrow> conn_ok (s\<lparr>c_in := b\<rparr>)"
  obtain n err b where nb: "r = (n, err, b)" by (cases r)
  let ?s1 = "s\<lparr>c_in := b\<rparr>"
  have ok1: "conn_ok ?s1" "open_state ?s1" "c_state ?s1 \<noteq> kConnecting" using r nb opn by (auto simp: open_state_def)
  have msg: "ok_or {LengthError} (cb_post s) (on_message cbs t ?s1)"
  proof -
    have "user_cb_ok (on_message cbs t)" using cbs by (simp add: cbs_ok_def)
    then have "ok_or {LengthError} (\<lambda>s'. conn_ok s' \<and> conn_frame ?s1 s' \<and> state_le (c_state ?s1) (c_state s')) (on_message cbs t ?s1)"
      using ok1 unfolding user_cb_ok_def by blast
    then show ?thesis by (rule ok_or_mono) (use opn in \<open>auto simp: cb_post_def conn_frame_def state_le_def open_state_def\<close>)
  qed
  have close: "ok_or {LengthError} (cb_post s) (handleClose cbs ?s1)"
    using handleClose_ok [OF ok1(1,2), of cbs] cbs by (auto simp: cbs_ok_def cb_post_def)
  show "ok_or {LengthError} (cb_post s) (case r of (n, savedErrno, b) \<Rightarrow> let s1 = s\<lparr>c_in := b\<rparr> in
     if n > 0 then on_message cbs t s1 else if n = 0 then handleClose cbs s1 else Inr (handleError s1))"
    using msg close ok1 by (simp add: nb handleError_def cb_post_def Let_def)
qed

lemma conn_ok_chan:
  assumes "conn_ok s" "ch_events c = ch_events (c_chan s)"
  shows "conn_ok (s\<lparr>c_chan := c\<rparr>)"
  using assms by (auto simp: conn_ok_def conn_inv_def isWriting_def)

text \<open>
  The dispatch keeps an invariant \<open>P\<close> when the handlers do and \<open>P\<close> does not depend on the fields of the
  channel that the dispatch itself sets. \<open>handled\<close> is what is left behind by one handler.
\<close>

definition handled :: "('a conn_scheme \<Rightarrow> bool) \<Rightarrow> 'a conn_scheme \<Rightarrow> 'a conn_scheme \<Rightarrow> bool" where
  "handled P s s' \<longleftrightarrow> P s' \<and> same_dispatch (c_chan s) (c_chan s')"

lemma handled_trans: "handled P s s1 \<Longrightarrow> handled P s1 s2 \<Longrightarrow> handled P s s2"
  by (auto simp: handled_def intro: same_dispatch_trans)

lemma conn_handleEvent_keeps:
  fixes P :: "'a conn_scheme \<Rightarrow> bool"
  assumes chan: "\<And>s e. P s \<Longrightarrow> P (s\<lparr>c_chan := (c_chan s)\<lparr>ch_eventHandling := e\<rparr>\<rparr>)"
    and close: "\<And>s. P s \<Longrightarrow> open_state s \<Longrightarrow> ok_or F (handled P s) (handleClose cbs s)"
    and read: "\<And>s. P s \<Longrightarrow> open_state s \<Longrightarrow> ok_or F (handled P s) (conn_handleRead cbs readv t s)"
    and "write": "\<And>s. P s \<Longrightarrow> ok_or F (handled P s) (handleWrite (wr (readableBytes (c_out s))) s)"
    and s: "P s" "open_state s" "\<not> hup_and_read (ch_revents (c_chan s))"
  shows "ok_or F P (conn_handleEvent cbs readv wr alive t s)"
proof -
  let ?f = "\<lambda>cb s. if asks (c_chan s) cb then conn_callback cbs readv wr cb s else Inr s"
  let ?s0 = "s\<lparr>c_chan := (c_chan s)\<lparr>ch_eventHandling := True\<rparr>\<rparr>"
  have s0: "handled P ?s0 ?s0" "open_state ?s0" using chan [OF s(1)] s(2) by (simp_all add: handled_def open_state_def)
  define I where "I x \<longleftrightarrow> handled P ?s0 x \<and> (open_state x \<or> asks (c_chan ?s0) CbClose)" for x
  have c: "ok_or F I (?f CbClose ?s0)"
    using close [of ?s0] s0 by (auto simp: I_def handled_def conn_callback_def elim!: ok_or_mono)
  have e: "ok_or F I (?f CbError x)" if "I x" for x
    using that by (simp add: conn_callback_def handleError_def)
  have r: "ok_or F (handled P ?s0) (?f (CbRead t) x)" if "I x" for x
  proof (cases "asks (c_chan x) (CbRead t)")
    case True
    have x: "handled P ?s0 x" using that by (simp add: I_def)
    then have "asks (c_chan ?s0) (CbRead t)"
      using asks_cong [of "c_chan ?s0" "c_chan x" "CbRead t"] True unfolding handled_def by blast
    then have "\<not> asks (c_chan ?s0) CbClose" using s(3) by (auto simp: hup_and_read_def)
    then have "open_state x" using that unfolding I_def by blast
    then have "ok_or F (handled P x) (conn_handleRead cbs readv t x)" using x by (intro read) (simp_all add: handled_def)
    then show ?thesis using True by (auto simp: conn_callback_def intro: ok_or_mono handled_trans [OF x])
  next
    case False
    then show ?thesis using that by (simp add: I_def del: asks.simps)
  qed
  have w: "ok_or F (handled P ?s0) (?f CbWrite x)" if "handled P ?s0 x" for x
  proof -
    have "P x" using that by (simp add: handled_def)
    from "write" [OF this] that show ?thesis by (auto simp: conn_callback_def intro: ok_or_mono handled_trans)
  qed
  have "ok_or F (handled P ?s0) (rfold ?f [CbClose, CbError, CbRead t, CbWrite] ?s0)"
    unfolding rfold.simps
    by (rule ok_or_bind [OF c] ok_or_bind [OF e] ok_or_bind [OF r] ok_or_bind [OF w] | assumption | simp)+
  then have "ok_or F P (rbind (rfold ?f [CbClose, CbError, CbRead t, CbWrite] ?s0)
      (\<lambda>s'. Inr (s'\<lparr>c_chan := (c_chan s')\<lparr>ch_eventHandling := False\<rparr>\<rparr>)))"
    by (rule ok_or_bind) (auto simp: handled_def intro: chan)
  then show ?thesis using s(1) by (simp only: conn_handleEvent_def handleEvent_fold split: if_split) simp
qed

lemma conn_handleEvent_ok:
  assumes ok: "conn_ok s" and opn: "open_state s" and rd: "readv_spec readv" and cbs: "cbs_ok cbs"
    and wr: "\<And>n. write_spec n (wr n)" and rev: "\<not> hup_and_read (ch_revents (c_chan s))"
  shows "ok_or {LengthError} conn_ok (conn_handleEvent cbs readv wr alive t s)"
proof -
  define P where "P = (\<lambda>s :: 'a conn_scheme. conn_ok s \<and> c_state s \<noteq> kConnecting)"
  have post: "handled P s s' = cb_post s s'" for s s' by (auto simp: handled_def cb_post_def P_def)
  have "ok_or {LengthError} P (conn_handleEvent cbs readv wr alive t s)"
  proof (rule conn_handleEvent_keeps)
    show "P (s\<lparr>c_chan := (c_chan s)\<lparr>ch_eventHandling := e\<rparr>\<rparr>)" if "P s" for s e
      using that by (auto simp: P_def intro: conn_ok_chan)
    show "ok_or {LengthError} (handled P s) (handleClose cbs s)" if "P s" "open_state s" for s
      using handleClose_ok [of s cbs] that cbs by (auto simp: handled_def P_def cbs_ok_def)
    show "ok_or {LengthError} (handled P s) (conn_handleRead cbs readv t s)" if "P s" "open_state s" for s
      using conn_handleRead_ok [OF _ that(2) rd cbs, of t] that(1) unfolding post [symmetric, abs_def] by (simp add: P_def)
    show "ok_or {LengthError} (handled P s) (handleWrite (wr (readableBytes (c_out s))) s)" if "P s" for s
    proof -
      have "buffer_wf (c_out s)" using that by (simp add: P_def conn_ok_def conn_inv_def)
      then have "write_spec (length (readable (c_out s))) (wr (readableBytes (c_out s)))"
        using wr [of "readableBytes (c_out s)"] by (simp add: readableBytes_length)
      from handleWrite_conn_ok [OF _ this] that show ?thesis by (auto simp: handled_def P_def conn_frame_def)
    qed
  qed (use ok opn rev in \<open>auto simp: P_def open_state_def\<close>)
  then show ?thesis by (rule ok_or_mono) (simp add: P_def)
qed

lemma connectDestroyed_ok:
  assumes inv: "conn_inv s" and st: "c_state s = kDisconnected" "c_inLoop s"
  shows "connectDestroyed cbs s = Inr (s\<lparr>c_inLoop := False, c_chan := (c_chan s)\<lparr>ch_addedToLoop := False\<rparr>\<rparr>)"
  using assms by (simp add: connectDestroyed_def Let_def isNoneEvent_def conn_inv_def)

lemma connectEstablished_ok:
  assumes ok: "conn_ok s" and st: "c_state s = kConnecting" and cbs: "cbs_ok cbs"
  shows "ok_or {LengthError} conn_ok (connectEstablished cbs s)"
proof -
  let ?s1 = "(setState kConnected s)\<lparr>c_inLoop := True\<rparr>"
  let ?s2 = "conn_switch EnableReading (?s1\<lparr>c_chan := chan_tie (c_chan ?s1)\<rparr>)"
  have "isWriting (chan_tie c) = isWriting c" for c by (simp add: isWriting_def chan_tie_def)
  then have "conn_ok ?s2" "c_state ?s2 \<noteq> kConnecting"
    using ok st by (auto simp: conn_ok_def conn_inv_def setState_def tasks_simps)
  moreover have "user_cb_ok (on_connection cbs)" using cbs by (simp add: cbs_ok_def)
  ultimately have "ok_or {LengthError} (\<lambda>s'. conn_ok s' \<and> conn_frame ?s2 s' \<and> state_le (c_state ?s2) (c_state s')) (on_connection cbs ?s2)"
    unfolding user_cb_ok_def by blast
  then show ?thesis using st by (auto simp: connectEstablished_def Let_def elim: ok_or_mono)
qed

lemma read_switch_conn_ok:
  assumes "conn_ok s" "c_state s \<noteq> kDisconnected"
  shows "conn_ok (startReadInLoop s)" "conn_ok (stopReadInLoop s)"
  using assms read_switch_ok [of s]
  by (auto simp: conn_ok_def startReadInLoop_def stopReadInLoop_def tasks_simps split: if_splits)

lemma pop_task_ok:
  assumes ok: "conn_ok s" and legal: "conn_legal (OpTask wr) s"
  shows "ok_or {LengthError} conn_ok (pop_task cbs wr s)"
proof (cases "c_tasks s")
  case Nil
  then show ?thesis using ok by (simp add: pop_task_def)
next
  case (Cons t ts)
  let ?s = "s\<lparr>c_tasks := ts\<rparr>"
  have inv: "conn_inv ?s" using ok by (simp add: conn_ok_def conn_inv_def)
  have rest: "conn_ok ?s" if "t \<noteq> TaskConnectDestroyed"
    using ok inv Cons that by (auto simp: conn_ok_def)
  show ?thesis
  proof (cases t)
    case (TaskSend data)
    have "length data \<le> vec_max" using ok Cons TaskSend by (auto simp: conn_ok_def)
    moreover have "write_spec (length data) wr" using legal Cons TaskSend by simp
    ultimately have "ok_or {LengthError} (\<lambda>s'. conn_ok s' \<and> conn_same ?s s') (sendInLoop wr data ?s)"
      using rest TaskSend by (intro sendInLoop_conn_ok) auto
    then show ?thesis using Cons TaskSend by (auto simp: pop_task_def run_task_def elim: ok_or_mono)
  next
    case TaskShutdown
    then have "c_state s = kDisconnecting \<or> c_state s = kDisconnected" using ok Cons by (auto simp: conn_ok_def)
    then have "conn_ok (shutdownInLoop ?s)" using rest TaskShutdown by (auto simp: conn_ok_def conn_inv_def shutdownInLoop_def)
    then show ?thesis using Cons TaskShutdown by (simp add: pop_task_def run_task_def)
  next
    case TaskStartRead
    then have "conn_ok (startReadInLoop ?s)" using rest legal Cons by (intro read_switch_conn_ok) auto
    then show ?thesis using Cons TaskStartRead by (simp add: pop_task_def run_task_def)
  next
    case TaskStopRead
    then have "conn_ok (stopReadInLoop ?s)" using rest legal Cons by (intro read_switch_conn_ok) auto
    then show ?thesis using Cons TaskStopRead by (simp add: pop_task_def run_task_def)
  next
    case TaskConnectDestroyed
    then have st: "c_state s = kDisconnected" "c_inLoop s" "count_list ts TaskConnectDestroyed = 0"
      using ok Cons by (auto simp: conn_ok_def split: if_splits)
    have "conn_ok (?s\<lparr>c_inLoop := False, c_chan := (c_chan ?s)\<lparr>ch_addedToLoop := False\<rparr>\<rparr>)"
      using ok inv st Cons by (auto simp: conn_ok_def conn_inv_def)
    then show ?thesis using connectDestroyed_ok [OF inv, of cbs] st Cons TaskConnectDestroyed
      by (simp add: pop_task_def run_task_def)
  qed (use rest Cons in \<open>simp_all add: pop_task_def run_task_def\<close>)
qed

lemma conn_step_ok:
  assumes ok: "conn_ok s" and cbs: "cbs_ok cbs" and legal: "conn_legal op s"
  shows "ok_or {LengthError} conn_ok (conn_step cbs op s)"
proof (cases op)
  case OpEstablished
  then show ?thesis using connectEstablished_ok [OF ok _ cbs] legal by simp
next
  case (OpSend inLoop wr data)
  then have "ok_or {LengthError} conn_ok (sendInLoop wr data s)"
    using sendInLoop_conn_ok [OF ok, of data wr] legal by (auto elim: ok_or_mono)
  moreover have "conn_ok (queue_task (TaskSend data) s)"
    using ok legal OpSend by (auto simp: conn_ok_def conn_inv_queue tasks_simps)
  ultimately show ?thesis using ok OpSend by (simp add: conn_send_def)
next
  case (OpShutdown inLoop)
  then show ?thesis using conn_shutdown_conn_ok(1) [OF ok] by simp
next
  case (OpStartRead inLoop)
  have "conn_ok (queue_task TaskStartRead s)" using ok by (auto simp: conn_ok_def conn_inv_queue tasks_simps)
  then show ?thesis using read_switch_conn_ok(1) [OF ok] legal OpStartRead by (simp add: startRead_def)
next
  case (OpStopRead inLoop)
  have "conn_ok (queue_task TaskStopRead s)" using ok by (auto simp: conn_ok_def conn_inv_queue tasks_simps)
  then show ?thesis using read_switch_conn_ok(2) [OF ok] legal OpStopRead by (simp add: stopRead_def)
next
  case (OpEvent revt readv wr t)
  let ?s = "s\<lparr>c_chan := set_revents revt (c_chan s)\<rparr>"
  have "conn_ok ?s" by (rule conn_ok_chan [OF ok]) (simp add: set_revents_def)
  moreover have "open_state ?s" "readv_spec readv" "\<And>n. write_spec n (wr n)" "\<not> hup_and_read (ch_revents (c_chan ?s))"
    using legal OpEvent by (auto simp: open_state_def set_revents_def)
  ultimately show ?thesis using OpEvent by (simp add: conn_handleEvent_ok [OF _ _ _ cbs])
next
  case (OpTask wr)
  then show ?thesis using pop_task_ok [OF ok] legal by simp
qed

interpretation connm: safe_machine "conn_step cbs" "\<lambda>op s. cbs_ok cbs \<and> conn_legal op s" conn_ok "{LengthError}"
  for cbs :: "'a conn_scheme conn_cbs"
proof
  show "ok_or {LengthError} conn_ok (conn_step cbs op s)"
    if "conn_ok s" "cbs_ok cbs \<and> conn_legal op s" for op and s :: "'a conn_scheme"
    using conn_step_ok that by blast
qed

lemma new_connection_ok: "\<exists>s. new_connection loop fd wc = Inr s \<and> conn_ok s \<and> c_state s = kConnecting \<and>
   c_wire s = [] \<and> c_accepted s = []"
proof -
  obtain b where b: "new_buffer kInitialSize = Inr b" "buffer_wf b" "readable b = []"
    using new_buffer_ok [of kInitialSize] by (auto simp: kInitialSize_def vec_max_def)
  then show ?thesis
    by (simp add: new_connection_def conn_ok_def conn_inv_def setErrorCallback_def setCloseCallback_def
        setWriteCallback_def setReadCallback_def new_channel_def isWriting_def)
qed

lemma closed_state:
  assumes ok: "conn_ok s" and opn: "open_state s" and cbs: "on_close cbs = removeConnectionInLoop"
  shows "handleClose cbs s =
     Inr (queue_task TaskConnectDestroyed ((conn_switch DisableAll (setState kDisconnected s))\<lparr>c_closes := c_closes s + 1\<rparr>))"
  using opn cbs by (simp add: handleClose_def open_state_def removeConnectionInLoop_def)

section \<open>Properties\<close>

text \<open>
  C1: through every legal run of a new connection (sends from any thread, partial and failing
  writes, reads, closing, its queued functors in order, user callbacks in between) nothing faults
  except a buffer beyond the maximum size; the bytes the connection took charge of are exactly
  those the kernel has taken followed by those in the output buffer; an open connection watches
  for writability exactly when output is buffered, a closed one watches for nothing, and the
  close callback has been called once if the connection is closed and never before.
\<close>

theorem connection_safe:
  assumes "cbs_ok cbs" "new_connection loop fd wc = Inr s0" "run_legal conn_legal (conn_step cbs) ops s0"
  shows "ok_or {LengthError} (\<lambda>s. c_accepted s = c_wire s @ readable (c_out s) \<and>
      (c_state s \<noteq> kDisconnected \<longrightarrow> (isWriting (c_chan s) \<longleftrightarrow> readable (c_out s) \<noteq> [])) \<and>
      (c_state s = kDisconnected \<longrightarrow> isNoneEvent (c_chan s)) \<and>
      c_closes s = (if c_state s = kDisconnected then 1 else 0)) (rfold (conn_step cbs) ops s0)"
proof (rule ok_or_mono [OF connm.run_safe [of s0 cbs ops]])
  show "conn_ok s0" using new_connection_ok [of loop fd wc] assms(2) by auto
  show "run_legal (\<lambda>op s. cbs_ok cbs \<and> conn_legal op s) (conn_step cbs) ops s0"
    using assms(1,3) by (rule run_legal_conj)
qed (auto simp: conn_ok_def conn_inv_def isNoneEvent_def)

text \<open>
  Sending on an open connection, whatever the kernel takes of the data at once, either adds
  all of the data, in order and behind everything sent before, to what the kernel has and what is
  buffered, or, only when the kernel reports a broken connection, drops all of it.
\<close>

theorem sendInLoop_all_or_nothing:
  assumes "conn_inv s" "c_state s \<noteq> kDisconnected" "write_spec (length data) wr" "length data \<le> vec_max"
    and "sendInLoop wr data s = Inr s'"
  shows "c_wire s' @ readable (c_out s') = c_wire s @ readable (c_out s) @ data \<or>
     c_wire s' @ readable (c_out s') = c_wire s @ readable (c_out s) \<and> (wr = IoErr EPIPE \<or> wr = IoErr ECONNRESET)"
proof -
  have "conn_inv s'" "c_accepted s' = c_accepted s @ data \<or>
      c_accepted s' = c_accepted s \<and> (wr = IoErr EPIPE \<or> wr = IoErr ECONNRESET)"
    using sendInLoop_ok [OF assms(1,3,4)] assms(2,5) by auto
  then show ?thesis using assms(1) by (auto simp: conn_inv_def)
qed

text \<open>
  C18: when the socket is writable, the bytes the kernel takes leave the buffer at its front and
  nothing else changes hands; once the buffer is empty the connection stops watching for
  writability and, if it is being shut down, closes its write end, never before.
\<close>

theorem handleWrite_drains:
  assumes "conn_inv s" "isWriting (c_chan s)" "n \<le> length (readable (c_out s))" "0 < n"
  shows "\<exists>s'. handleWrite (IoOk n) s = Inr s' \<and> conn_inv s' \<and>
     c_wire s' = c_wire s @ take n (readable (c_out s)) \<and> readable (c_out s') = drop n (readable (c_out s)) \<and>
     (isWriting (c_chan s') \<longleftrightarrow> n < length (readable (c_out s))) \<and>
     (c_shut s' \<longleftrightarrow> c_shut s \<or> (c_state s = kDisconnecting \<and> n = length (readable (c_out s))))"
proof -
  have "write_spec (length (readable (c_out s))) (IoOk n)" using assms(3) by (simp add: write_spec_def)
  from handleWrite_ok [OF assms(1) this] obtain s' where s': "handleWrite (IoOk n) s = Inr s'" "conn_inv s'"
    "c_state s' = c_state s" "c_wire s' = c_wire s @ take n (readable (c_out s))"
    "readable (c_out s') = drop n (readable (c_out s))" "c_shut s' \<longrightarrow> c_shut s \<or> readable (c_out s') = []"
    using assms(2) by blast
  have opn: "c_state s \<noteq> kDisconnected" using assms(1,2) kNoneEvent_not_writing by (auto simp: conn_inv_def)
  then have w: "isWriting (c_chan s') \<longleftrightarrow> n < length (readable (c_out s))"
    using s'(2,3,5) assms(3) by (auto simp: conn_inv_def)
  have wf: "buffer_wf (c_out s)" using assms(1) by (simp add: conn_inv_def)
  obtain b where b: "retrieve n (c_out s) = Inr b" "buffer_wf b" "readable b = drop n (readable (c_out s))"
    using retrieve_ok [OF wf assms(3)] by blast
  have rd: "read_at (buf_data (c_out s)) (peek (c_out s)) (readableBytes (c_out s)) = Inr (readable (c_out s))"
    using wf by (simp add: buffer_simps peek_def)
  have rb: "readableBytes b = 0 \<longleftrightarrow> n = length (readable (c_out s))"
    using assms(3) by (auto simp: readableBytes_length [OF b(2)] b(3))
  have "c_shut s' \<longleftrightarrow> c_shut s \<or> (c_state s = kDisconnecting \<and> n = length (readable (c_out s)))"
    using s'(1) assms(2,4) by (auto simp: handleWrite_def rd b(1) rb shutdownInLoop_def Let_def split: if_splits)
  with s' w show ?thesis by blast
qed

text \<open>
  \<open>startRead\<close> does not look at the state: called between the closing of a connection and its
  destruction (as a functor queued by another thread can be), it registers the channel again, and
  \<open>connectDestroyed\<close> then fails the assertion that the channel watches for nothing.
\<close>

theorem startRead_after_close_asserts:
  assumes "conn_ok s" "open_state s" "on_close cbs = removeConnectionInLoop"
  shows "rbind (handleClose cbs s) (\<lambda>s1. connectDestroyed cbs (startRead True s1)) = Inl AssertFailed"
proof -
  let ?s1 = "queue_task TaskConnectDestroyed ((conn_switch DisableAll (setState kDisconnected s))\<lparr>c_closes := c_closes s + 1\<rparr>)"
  have s1: "handleClose cbs s = Inr ?s1" by (rule closed_state [OF assms])
  have ev: "ch_events (c_chan ?s1) = kNoneEvent" by simp
  then have "\<not> isReading (c_chan ?s1)" by (simp add: isReading_def kNoneEvent_def)
  then have st: "startRead True ?s1 = (conn_switch EnableReading ?s1)\<lparr>c_reading := True\<rparr>"
    by (simp add: startRead_def startReadInLoop_def)
  have "isReading (c_chan (conn_switch EnableReading ?s1))"
    using switch_reading(1) [of "ch_events (c_chan ?s1)"] by (simp add: isReading_def)
  then have "\<not> isNoneEvent (c_chan (conn_switch EnableReading ?s1))"
    by (auto simp: isNoneEvent_def isReading_def kNoneEvent_def)
  moreover have "c_inLoop s" using assms(1,2) by (auto simp: conn_ok_def open_state_def)
  ultimately show ?thesis unfolding s1 using st
    by (simp add: connectDestroyed_def setState_def Let_def isNoneEvent_def)
qed

text \<open>
  The dispatch does not stop after a close. If a hang-up is reported without input but
  together with urgent data, the close callback runs first and the read callback after it, and when
  the read finds the end of the stream the connection is closed a second time and an assertion
  fails.
\<close>

theorem close_then_read_asserts:
  assumes "conn_ok s" "open_state s" "on_close cbs = removeConnectionInLoop" "hup_and_read (ch_revents (c_chan s))"
    and "ch_closeCallback (c_chan s)" "ch_readCallback (c_chan s)" "ch_revents (c_chan s) AND (POLLERR OR POLLNVAL) = 0"
  shows "conn_handleEvent cbs (\<lambda>cap. Inr []) wr True t s = Inl AssertFailed"
proof -
  let ?s0 = "s\<lparr>c_chan := (c_chan s)\<lparr>ch_eventHandling := True\<rparr>\<rparr>"
  have s0: "conn_ok ?s0" "open_state ?s0"
    using conn_ok_chan [OF assms(1), of "(c_chan s)\<lparr>ch_eventHandling := True\<rparr>"] assms(2) by (auto simp: open_state_def)
  obtain s1 where s1: "handleClose cbs ?s0 = Inr s1" "conn_ok s1" "c_state s1 = kDisconnected"
      "same_dispatch (c_chan ?s0) (c_chan s1)"
    using handleClose_ok [OF s0 assms(3)] by blast
  have asks1: "asks (c_chan s1) cb = asks (c_chan ?s0) cb" for cb by (rule asks_cong [OF s1(4)])
  have wf: "buffer_wf (c_in s1)" using s1(2) by (simp add: conn_ok_def conn_inv_def)
  have "readv_spec (\<lambda>cap. Inr [])" by (simp add: readv_spec_def)
  from readFd_result [OF wf this] have "readFd (\<lambda>cap. Inr []) (c_in s1) = Inl LengthError \<or>
      (\<exists>b. readFd (\<lambda>cap. Inr []) (c_in s1) = Inr (0, None, b))" by auto
  moreover have "readFd (\<lambda>cap. Inr []) (c_in s1) \<noteq> Inl LengthError" by (simp add: readFd_def Let_def write_at_def)
  ultimately obtain b where b: "readFd (\<lambda>cap. Inr []) (c_in s1) = Inr (0, None, b)" by auto
  have rd: "conn_handleRead cbs (\<lambda>cap. Inr []) t s1 = Inl AssertFailed"
    using b s1(3) by (simp add: conn_handleRead_def handleClose_def)
  have "asks (c_chan ?s0) CbClose" "asks (c_chan ?s0) (CbRead t)" "\<not> asks (c_chan ?s0) CbError"
    using assms(4-7) by (auto simp: hup_and_read_def)
  then show ?thesis
    using s1(1) rd asks1 by (simp add: conn_handleEvent_def handleEvent_fold conn_callback_def del: asks.simps)
qed

section \<open>Concrete runs\<close>

definition idle_cbs :: "'a conn_scheme conn_cbs" where
  "idle_cbs = \<lparr>on_message = (\<lambda>t s. Inr s), on_close = removeConnectionInLoop, on_connection = (\<lambda>s. Inr s)\<rparr>"

lemma idle_cbs_ok: "cbs_ok idle_cbs"
  by (auto simp: cbs_ok_def idle_cbs_def user_cb_ok_def conn_frame_def state_le_def)

definition sample_conn :: conn where
  "sample_conn =
     \<lparr>c_state = kConnected, c_reading = True,
      c_chan = (new_channel 0 7)\<lparr>ch_events := 7, ch_revents := 0x12, ch_closeCallback := True, ch_readCallback := True\<rparr>,
      c_in = buffer_of [], c_out = buffer_of ''lo'', c_writeCompleteCallback = False,
      c_highWaterMarkCallback = False, c_highWaterMark = 64 * 1024 * 1024, c_inLoop = True,
      c_tasks = [], c_wire = ''hel'', c_shut = False, c_accepted = ''hello'', c_dropped = [], c_closes = 0\<rparr>"

lemma sample_conn_ok: "conn_ok sample_conn" "open_state sample_conn"
proof -
  have "buffer_wf (buffer_of [])" "buffer_wf (buffer_of ''lo'')" "readable (buffer_of ''lo'') = ''lo''"
    by (simp_all add: buffer_of_ok vec_max_def)
  then show "conn_ok sample_conn" "open_state sample_conn"
    by (simp_all add: conn_ok_def conn_inv_def sample_conn_def open_state_def isWriting_def kWriteEvent_def poll_bits)
qed

lemma sample_conn_inv: "conn_inv sample_conn"
  using sample_conn_ok(1) by (simp add: conn_ok_def)

theorem connection_safe_witness:
  "\<exists>s0. new_connection 0 7 False = Inr s0 \<and>
     ok_or {LengthError} (\<lambda>s. c_accepted s = c_wire s @ readable (c_out s))
       (rfold (conn_step idle_cbs) [OpEstablished, OpSend False (IoOk 0) ''hi'', OpTask (IoOk 1)] s0)"
proof -
  obtain s0 where s0: "new_connection 0 7 False = Inr s0" "conn_ok s0" "c_state s0 = kConnecting" "c_tasks s0 = []"
    using new_connection_ok [of 0 7 False] by (auto simp: new_connection_def res_simps)
  have legal: "run_legal conn_legal (conn_step idle_cbs) [OpEstablished, OpSend False (IoOk 0) ''hi'', OpTask (IoOk 1)] s0"
    using s0(3,4)
    by (auto simp: connectEstablished_def idle_cbs_def conn_send_def setState_def tasks_simps write_spec_def vec_max_def
        Let_def queue_task_def conn_switch_def split: sum.splits)
  show ?thesis using connection_safe [OF idle_cbs_ok s0(1) legal] s0(1) by (auto elim: ok_or_mono)
qed

theorem sendInLoop_all_or_nothing_witness:
  "\<exists>s'. sendInLoop (IoOk 0) '' w'' sample_conn = Inr s' \<and> c_wire s' @ readable (c_out s') = ''hello w''"
proof -
  have wr: "write_spec (length '' w'') (IoOk 0)" "length '' w'' \<le> vec_max" by (simp_all add: write_spec_def vec_max_def)
  have out: "readable (c_out sample_conn) = ''lo''" by (simp add: sample_conn_def buffer_of_ok vec_max_def)
  have fits: "writerIndex (buffer_of ''lo'') + length '' w'' \<le> vec_max" by (simp add: buffer_of_def kCheapPrepend_def vec_max_def)
  obtain b where b: "buffer_append '' w'' (buffer_of ''lo'') = Inr b"
    using buffer_append_ok [OF _ fits] by (auto simp: buffer_of_ok vec_max_def)
  have "\<exists>s'. sendInLoop (IoOk 0) '' w'' sample_conn = Inr s'"
    using b by (simp add: sendInLoop_def sample_conn_def isWriting_def kWriteEvent_def poll_bits Let_def usub_def size_mod_def)
  then obtain s' where s': "sendInLoop (IoOk 0) '' w'' sample_conn = Inr s'" by blast
  from sendInLoop_all_or_nothing [OF sample_conn_inv _ wr s'] out s' show ?thesis by (auto simp: sample_conn_def)
qed

theorem handleWrite_drains_witness:
  "\<exists>s'. handleWrite (IoOk 2) sample_conn = Inr s' \<and> c_wire s' = ''hello'' \<and> readable (c_out s') = [] \<and> \<not> isWriting (c_chan s')"
proof -
  have out: "readable (c_out sample_conn) = ''lo''" by (simp add: sample_conn_def buffer_of_ok vec_max_def)
  have "isWriting (c_chan sample_conn)" by (simp add: sample_conn_def isWriting_def kWriteEvent_def poll_bits)
  from handleWrite_drains [OF sample_conn_inv this, of 2] show ?thesis unfolding out by (auto simp: sample_conn_def)
qed

theorem startRead_after_close_asserts_witness:
  "rbind (handleClose idle_cbs sample_conn) (\<lambda>s1. connectDestroyed idle_cbs (startRead True s1)) = Inl AssertFailed"
  by (rule startRead_after_close_asserts [OF sample_conn_ok]) (simp add: idle_cbs_def)

theorem close_then_read_asserts_witness:
  "conn_handleEvent idle_cbs (\<lambda>cap. Inr []) (\<lambda>n. IoErr 11) True 5 sample_conn = Inl AssertFailed"
  by (rule close_then_read_asserts [OF sample_conn_ok])
    (simp_all add: idle_cbs_def hup_and_read_def sample_conn_def poll_bits)
end
