(* ===== verification/HttpServer.thy ===== *)
theory HttpServer
  imports Http TcpConnection
begin

text \<open>
  \<open>class HttpServer\<close> of \<open>net/http/HttpServer.h\<close> and \<open>net/http/HttpServer.cc\<close>: the callbacks it
  registers with its TCP server, over a connection whose context holds the parser. The user's
  \<open>HttpCallback\<close> and the answers of \<open>write\<close> (by the length offered) are parameters. A parse that
  would not return is the fault \<open>Diverges\<close>.
\<close>

section \<open>State and operations\<close>

record http_conn = conn +
  hc_context :: HttpContext

type_synonym HttpCallback = "HttpRequest \<Rightarrow> HttpResponse \<Rightarrow> HttpResponse"

definition defaultHttpCallback :: HttpCallback where
  "defaultHttpCallback req resp =
     setCloseConnection True (setStatusMessage ''Not Found'' (setStatusCode k404NotFound resp))"

definition onConnection :: "http_conn \<Rightarrow> http_conn res" where
  "onConnection s = Inr (if connected s then s\<lparr>hc_context := new_HttpContext\<rparr> else s)"

definition wants_close :: "HttpRequest \<Rightarrow> bool" where
  "wants_close req \<longleftrightarrow>
     (let connection = getHeader ''Connection'' req
      in connection = ''close'' \<or> (req_version req = kHttp10 \<and> connection \<noteq> ''Keep-Alive''))"

definition onRequest :: "HttpCallback \<Rightarrow> (nat \<Rightarrow> io_result) \<Rightarrow> HttpRequest \<Rightarrow> http_conn \<Rightarrow> http_conn res" where
  "onRequest cb wr req s =
     (let response = cb req (new_HttpResponse (wants_close req))
      in rbind (new_buffer kInitialSize) (\<lambda>buf.
         rbind (appendToBuffer response buf) (\<lambda>buf.
         rbind (conn_send_buffer True (wr (readableBytes buf)) buf s) (\<lambda>(_, s1).
         Inr (if resp_closeConnection response then conn_shutdown True s1 else s1)))))"

definition badRequest :: string where
  "badRequest = ''HTTP/1.1 400 Bad Request'' @ kCRLF @ kCRLF"

definition onMessage :: "HttpCallback \<Rightarrow> (nat \<Rightarrow> io_result) \<Rightarrow> Timestamp \<Rightarrow> http_conn \<Rightarrow> http_conn res" where
  "onMessage cb wr receiveTime s =
     (case parseRequest receiveTime (hc_context s) (c_in s) of
        None \<Rightarrow> Inl Diverges
      | Some r \<Rightarrow>
          rbind r (\<lambda>(ok, context, buf).
          let s1 = s\<lparr>c_in := buf, hc_context := context\<rparr> in
          rbind (if \<not> ok
                 then rbind (conn_send True (wr (length badRequest)) badRequest s1) (\<lambda>s2.
                      Inr (conn_shutdown True s2))
                 else Inr s1) (\<lambda>s3.
          if gotAll (hc_context s3)
          then rbind (onRequest cb wr (ctx_request (hc_context s3)) s3) (\<lambda>s4.
               Inr (s4\<lparr>hc_context := ctx_reset (hc_context s4)\<rparr>))
          else Inr s3)))"

text \<open>The callbacks as the constructor registers them.\<close>

definition http_cbs :: "HttpCallback \<Rightarrow> (nat \<Rightarrow> io_result) \<Rightarrow> http_conn conn_cbs" where
  "http_cbs cb wr = \<lparr>on_message = onMessage cb wr, on_close = removeConnectionInLoop, on_connection = onConnection\<rparr>"

section \<open>Lemmas\<close>

text \<open>The context between two messages is one the parser returns on.\<close>

definition ctx_live :: "HttpContext \<Rightarrow> bool" where
  "ctx_live c \<longleftrightarrow> ctx_state c \<in> {kExpectRequestLine, kExpectHeaders}"

definition callback_fits :: "HttpCallback \<Rightarrow> bool" where
  "callback_fits cb \<longleftrightarrow> (\<forall>req close. length (response_bytes (cb req (new_HttpResponse close))) + 1032 \<le> vec_max)"

lemma context_frame:
  "hc_context (conn_switch sw s) = hc_context s" "hc_context (queue_task t s) = hc_context s"
  "hc_context (shutdownInLoop s) = hc_context s" "hc_context (conn_shutdown b s) = hc_context s"
  by (simp_all add: conn_switch_def queue_task_def shutdownInLoop_def conn_shutdown_def setState_def Let_def)

lemma sendInLoop_context: "sendInLoop wr data s = Inr s' \<Longrightarrow> hc_context s' = hc_context s"
  by (auto simp: sendInLoop_def Let_def assertm_def context_frame rbind_Inr_iff split: if_splits prod.splits)

lemma processRequestLine_fault: "processRequestLine line c = Inl e \<Longrightarrow> e = AssertFailed"
  by (auto simp: processRequestLine_def Let_def setMethod_def assertm_def rbind_Inl_iff split: if_splits prod.splits)

lemma parse_spec_fault: "parse_spec t c xs = Inl e \<Longrightarrow> e = AssertFailed"
proof (induction t c xs rule: parse_spec.induct)
  case (1 t c xs)
  show ?case
    using "1.prems" "1.IH" processRequestLine_fault
    by (auto simp: parse_spec.simps [of t c xs] Let_def split: sum.splits if_splits)
qed

lemma parse_live:
  assumes wf: "buffer_wf b" and live: "ctx_live c"
  shows "parseRequest t c b = Some (Inl AssertFailed) \<and> parse_spec t c (readable b) = Inl AssertFailed \<or>
    (\<exists>ok c1 b1. parseRequest t c b = Some (Inr (ok, c1, b1)) \<and> buffer_wf b1 \<and>
       parse_spec t c (readable b) = Inr (ok, c1, readable b1))"
proof -
  have ag: "parse_agrees (parseRequest t c b) (parse_spec t c (readable b))"
    using parse_refines [OF wf refl] live by (simp add: ctx_live_def)
  show ?thesis
  proof (cases "parse_spec t c (readable b)")
    case (Inl e)
    then show ?thesis using ag parse_spec_fault [OF Inl] by (simp add: parse_agrees_def)
  next
    case (Inr r)
    then show ?thesis using ag by (cases r) (auto simp: parse_agrees_def)
  qed
qed

lemma ctx_reset_fresh: "ctx_fresh (ctx_reset c)"
  by (simp add: ctx_fresh_def ctx_reset_def request_swap_def new_HttpRequest_def)

lemma ctx_fresh_live: "ctx_fresh c \<Longrightarrow> ctx_live c"
  by (auto simp: ctx_fresh_def ctx_live_def)

definition msg_post :: "http_conn \<Rightarrow> http_conn \<Rightarrow> bool" where
  "msg_post s s' \<longleftrightarrow> conn_ok s' \<and> conn_frame s s' \<and> state_le (c_state s) (c_state s')"

lemma msg_post_refl: "conn_ok s \<Longrightarrow> msg_post s s"
  by (simp add: msg_post_def conn_frame_def state_le_def)

lemma msg_post_shutdown: "msg_post s s1 \<Longrightarrow> msg_post s (conn_shutdown b s1)"
  using conn_shutdown_conn_ok [of s1 b]
  by (auto simp: msg_post_def conn_frame_def state_le_def intro: same_dispatch_trans)

lemma msg_post_context:
  "msg_post s (s1\<lparr>hc_context := c\<rparr>) = msg_post s s1" "msg_post (s\<lparr>hc_context := c\<rparr>) s1 = msg_post s s1"
  by (auto simp: msg_post_def conn_frame_def conn_ok_def conn_inv_def)

lemma response_buffer:
  assumes "callback_fits cb"
  obtains b b' where "new_buffer kInitialSize = Inr b"
    "appendToBuffer (cb req (new_HttpResponse close)) b = Inr b'" "buffer_wf b'"
    "readable b' = response_bytes (cb req (new_HttpResponse close))" "length (readable b') \<le> vec_max"
proof -
  let ?r = "cb req (new_HttpResponse close)"
  have fit: "length (response_bytes ?r) + 1032 \<le> vec_max" using assms by (simp add: callback_fits_def)
  obtain b where b: "new_buffer kInitialSize = Inr b" "buffer_wf b" "readable b = []" "writerIndex b \<le> 1032"
    using new_buffer_ok [of kInitialSize] by (auto simp: kInitialSize_def vec_max_def kCheapPrepend_def new_buffer_def res_simps)
  have "appends (response_bytes ?r) b (appendToBuffer ?r)"
    using appendToBuffer_appends [OF b(2)] b(4) fit by simp
  then show ?thesis using that b fit by (auto simp: appends_def)
qed

lemma onRequest_ok:
  assumes ok: "conn_ok s" and cb: "callback_fits cb" and wr: "\<And>n. write_spec n (wr n)"
  shows "ok_or {LengthError} (\<lambda>s'. msg_post s s' \<and> hc_context s' = hc_context s) (onRequest cb wr req s)"
proof -
  let ?r = "cb req (new_HttpResponse (wants_close req))"
  obtain b b' where b: "new_buffer kInitialSize = Inr b" "appendToBuffer ?r b = Inr b'" "buffer_wf b'"
    "readable b' = response_bytes ?r" "length (readable b') \<le> vec_max"
    using response_buffer [OF cb] by blast
  have rd: "read_at (buf_data b') (peek b') (readableBytes b') = Inr (readable b')"
    using b(3) by (simp add: buffer_simps peek_def)
  have send: "ok_or {LengthError} (\<lambda>(_, s1). msg_post s s1 \<and> hc_context s1 = hc_context s)
      (conn_send_buffer True (wr (readableBytes b')) b' s)"
  proof (cases "c_state s = kConnected")
    case True
    have w: "write_spec (length (readable b')) (wr (readableBytes b'))" using wr by (simp add: readableBytes_length [OF b(3)])
    from sendInLoop_conn_ok [OF ok w b(5)] show ?thesis
      using True sendInLoop_context [of "wr (readableBytes b')" "readable b'" s]
      by (cases "sendInLoop (wr (readableBytes b')) (readable b') s")
        (auto simp: conn_send_buffer_def rd msg_post_def conn_same_def state_le_def)
  next
    case False
    then show ?thesis using msg_post_refl [OF ok] by (simp add: conn_send_buffer_def)
  qed
  show ?thesis
    unfolding onRequest_def Let_def b rbind.simps
    by (rule ok_or_bind [OF send]) (auto simp: context_frame intro: msg_post_shutdown split: prod.splits)
qed

text \<open>What a message does after its parse.\<close>

definition after_parse :: "HttpCallback \<Rightarrow> (nat \<Rightarrow> io_result) \<Rightarrow> bool \<Rightarrow> http_conn \<Rightarrow> http_conn res" where
  "after_parse cb wr ok s1 =
     rbind (if \<not> ok
            then rbind (conn_send True (wr (length badRequest)) badRequest s1) (\<lambda>s2. Inr (conn_shutdown True s2))
            else Inr s1) (\<lambda>s3.
     if gotAll (hc_context s3)
     then rbind (onRequest cb wr (ctx_request (hc_context s3)) s3) (\<lambda>s4.
          Inr (s4\<lparr>hc_context := ctx_reset (hc_context s4)\<rparr>))
     else Inr s3)"

lemma onMessage_after_parse:
  "parseRequest t (hc_context s) (c_in s) = Some (Inr (ok, c1, b1)) \<Longrightarrow>
     onMessage cb wr t s = after_parse cb wr ok (s\<lparr>c_in := b1, hc_context := c1\<rparr>)"
  by (simp add: onMessage_def after_parse_def Let_def)

lemma send_bad_ok:
  assumes ok: "conn_ok s" and wr: "\<And>n. write_spec n (wr n)"
  shows "ok_or {LengthError} (\<lambda>s'. msg_post s s' \<and> hc_context s' = hc_context s)
     (conn_send True (wr (length badRequest)) badRequest s)"
proof (cases "c_state s = kConnected")
  case True
  have "length badRequest \<le> vec_max" by (simp add: badRequest_def kCRLF_def vec_max_def)
  from sendInLoop_conn_ok [OF ok wr this] show ?thesis
    using True sendInLoop_context [of "wr (length badRequest)" badRequest s]
    by (cases "sendInLoop (wr (length badRequest)) badRequest s")
      (auto simp: conn_send_def msg_post_def conn_same_def state_le_def)
next
  case False
  then show ?thesis using msg_post_refl [OF ok] by (simp add: conn_send_def)
qed

lemma after_parse_good:
  assumes ok: "conn_ok s" and cb: "callback_fits cb" and wr: "\<And>n. write_spec n (wr n)"
    and ctx: "ctx_fresh (hc_context s) \<or> gotAll (hc_context s)"
  shows "ok_or {LengthError} (\<lambda>s'. msg_post s s' \<and> ctx_fresh (hc_context s')) (after_parse cb wr True s)"
proof (cases "gotAll (hc_context s)")
  case True
  have "ok_or {LengthError} (\<lambda>s'. msg_post s s' \<and> ctx_fresh (hc_context s'))
      (rbind (onRequest cb wr (ctx_request (hc_context s)) s) (\<lambda>s4. Inr (s4\<lparr>hc_context := ctx_reset (hc_context s4)\<rparr>)))"
    by (rule ok_or_bind [OF onRequest_ok [OF ok cb wr]]) (simp add: msg_post_context ctx_reset_fresh)
  then show ?thesis using True by (simp add: after_parse_def)
next
  case False
  then show ?thesis using ctx msg_post_refl [OF ok] by (simp add: after_parse_def)
qed

lemma after_parse_bad:
  assumes ok: "conn_ok s" and wr: "\<And>n. write_spec n (wr n)" and ctx: "\<not> gotAll (hc_context s)"
  shows "ok_or {LengthError} (\<lambda>s'. msg_post s s' \<and> c_state s' \<noteq> kConnected \<and> hc_context s' = hc_context s)
     (after_parse cb wr False s)"
  unfolding after_parse_def
proof -
  have "ok_or {LengthError} (\<lambda>s'. msg_post s s' \<and> c_state s' \<noteq> kConnected \<and> hc_context s' = hc_context s)
      (rbind (conn_send True (wr (length badRequest)) badRequest s) (\<lambda>s2. Inr (conn_shutdown True s2)))"
  proof (rule ok_or_bind [OF send_bad_ok [OF ok wr]])
    fix s2 assume "msg_post s s2 \<and> hc_context s2 = hc_context s"
    then show "ok_or {LengthError} (\<lambda>s'. msg_post s s' \<and> c_state s' \<noteq> kConnected \<and> hc_context s' = hc_context s)
        (Inr (conn_shutdown True s2))"
      using msg_post_shutdown [of s s2 True]
      by (auto simp: context_frame conn_shutdown_def setState_def shutdownInLoop_def Let_def)
  qed
  then show "ok_or {LengthError} (\<lambda>s'. msg_post s s' \<and> c_state s' \<noteq> kConnected \<and> hc_context s' = hc_context s)
     (rbind (if \<not> False then rbind (conn_send True (wr (length badRequest)) badRequest s) (\<lambda>s2. Inr (conn_shutdown True s2))
            else Inr s) (\<lambda>s3.
     if gotAll (hc_context s3)
     then rbind (onRequest cb wr (ctx_request (hc_context s3)) s3) (\<lambda>s4.
          Inr (s4\<lparr>hc_context := ctx_reset (hc_context s4)\<rparr>))
     else Inr s3))"
    unfolding not_False_eq_True if_True by (rule ok_or_bind) (use ctx in auto)
qed

lemma msg_post_input:
  assumes "conn_ok s" "buffer_wf b" "msg_post (s\<lparr>c_in := b, hc_context := c\<rparr>) s'"
  shows "msg_post s s'"
  using assms by (simp add: msg_post_def conn_frame_def)

lemma conn_ok_input: "conn_ok s \<Longrightarrow> buffer_wf b \<Longrightarrow> conn_ok (s\<lparr>c_in := b, hc_context := c\<rparr>)"
  by (simp add: conn_ok_def conn_inv_def)

text \<open>A message whose input starts with a whole request comes down to one send.\<close>

lemma onMessage_complete:
  assumes ok: "conn_ok s" and st: "c_state s = kConnected" and live: "ctx_live (hc_context s)" and cb: "callback_fits cb"
    and whole: "parse_spec t (hc_context s) (readable (c_in s)) = Inr (True, \<lparr>ctx_state = kGotAll, ctx_request = r\<rparr>, rest)"
  defines "response \<equiv> cb r (new_HttpResponse (wants_close r))"
  shows "length (response_bytes response) \<le> vec_max \<and>
     (\<exists>b1. buffer_wf b1 \<and> readable b1 = rest \<and>
     onMessage cb wr t s =
       rbind (sendInLoop (wr (length (response_bytes response))) (response_bytes response)
                (s\<lparr>c_in := b1, hc_context := \<lparr>ctx_state = kGotAll, ctx_request = r\<rparr>\<rparr>)) (\<lambda>s2.
       Inr ((if resp_closeConnection response then conn_shutdown True s2 else s2)\<lparr>hc_context := ctx_reset (hc_context s2)\<rparr>)))"
proof -
  have wf: "buffer_wf (c_in s)" using ok by (simp add: conn_ok_def conn_inv_def)
  from whole obtain b1 where p: "parseRequest t (hc_context s) (c_in s) = Some (Inr (True, \<lparr>ctx_state = kGotAll, ctx_request = r\<rparr>, b1))"
      "buffer_wf b1" "readable b1 = rest"
    using parse_live [OF wf live, of t] by auto
  obtain b b' where b: "new_buffer kInitialSize = Inr b" "appendToBuffer response b = Inr b'" "buffer_wf b'"
    "readable b' = response_bytes response" "length (readable b') \<le> vec_max"
    using response_buffer [OF cb, of r "wants_close r"] unfolding response_def by blast
  have rd: "read_at (buf_data b') (peek b') (readableBytes b') = Inr (response_bytes response)"
    using b(3,4) by (simp add: buffer_simps peek_def)
  have rb: "readableBytes b' = length (response_bytes response)" using b(3,4) by (simp add: readableBytes_length)
  let ?s1 = "s\<lparr>c_in := b1, hc_context := \<lparr>ctx_state = kGotAll, ctx_request = r\<rparr>\<rparr>"
  have "onMessage cb wr t s = rbind (sendInLoop (wr (length (response_bytes response))) (response_bytes response) ?s1) (\<lambda>s2.
       Inr ((if resp_closeConnection response then conn_shutdown True s2 else s2)\<lparr>hc_context := ctx_reset (hc_context s2)\<rparr>))"
    unfolding onMessage_after_parse [OF p(1)] using st b(1,2) rd rb
    by (cases "sendInLoop (wr (length (response_bytes response))) (response_bytes response) ?s1")
      (auto simp: after_parse_def gotAll_def onRequest_def Let_def response_def [symmetric] conn_send_buffer_def context_frame)
  with p(2,3) b(4,5) show ?thesis by auto
qed

text \<open>The answer to a request: all of it is sent behind what was sent before, or the connection is broken.\<close>

definition answered :: "(nat \<Rightarrow> io_result) \<Rightarrow> HttpResponse \<Rightarrow> http_conn \<Rightarrow> http_conn \<Rightarrow> bool" where
  "answered wr response s s' \<longleftrightarrow>
     (c_wire s' @ readable (c_out s') = c_wire s @ readable (c_out s) @ response_bytes response \<or>
      c_wire s' @ readable (c_out s') = c_wire s @ readable (c_out s) \<and> (\<exists>n. wr n = IoErr EPIPE \<or> wr n = IoErr ECONNRESET)) \<and>
     ctx_fresh (hc_context s') \<and> c_state s' = (if resp_closeConnection response then kDisconnecting else kConnected)"

lemma onMessage_answers:
  assumes "conn_ok s" "c_state s = kConnected" "ctx_live (hc_context s)" "callback_fits cb" "\<And>n. write_spec n (wr n)"
    and "parse_spec t (hc_context s) (readable (c_in s)) = Inr (True, \<lparr>ctx_state = kGotAll, ctx_request = r\<rparr>, rest)"
  shows "ok_or {LengthError} (\<lambda>s'. answered wr (cb r (new_HttpResponse (wants_close r))) s s' \<and> readable (c_in s') = rest)
     (onMessage cb wr t s)"
proof -
  let ?response = "cb r (new_HttpResponse (wants_close r))"
  let ?R = "response_bytes ?response"
  obtain b1 where b1: "length ?R \<le> vec_max" "buffer_wf b1" "readable b1 = rest"
    "onMessage cb wr t s = rbind (sendInLoop (wr (length ?R)) ?R
         (s\<lparr>c_in := b1, hc_context := \<lparr>ctx_state = kGotAll, ctx_request = r\<rparr>\<rparr>)) (\<lambda>s2.
       Inr ((if resp_closeConnection ?response then conn_shutdown True s2 else s2)\<lparr>hc_context := ctx_reset (hc_context s2)\<rparr>))"
    using onMessage_complete [OF assms(1-4,6), of wr] by blast
  let ?s1 = "s\<lparr>c_in := b1, hc_context := \<lparr>ctx_state = kGotAll, ctx_request = r\<rparr>\<rparr>"
  have inv1: "conn_inv ?s1" using conn_ok_input [OF assms(1) b1(2)] by (simp add: conn_ok_def)
  note send = sendInLoop_ok [OF inv1 assms(5) b1(1)]
  have last: "ok_or {LengthError} (\<lambda>s'. answered wr ?response s s' \<and> readable (c_in s') = rest)
     (Inr ((if resp_closeConnection ?response then conn_shutdown True s2 else s2)\<lparr>hc_context := ctx_reset (hc_context s2)\<rparr>))"
    if s2: "sendInLoop (wr (length ?R)) ?R ?s1 = Inr s2" for s2
  proof -
    have post: "c_wire s2 @ readable (c_out s2) = c_wire s @ readable (c_out s) @ ?R \<or>
        c_wire s2 @ readable (c_out s2) = c_wire s @ readable (c_out s) \<and> (\<exists>n. wr n = IoErr EPIPE \<or> wr n = IoErr ECONNRESET)"
      "c_state s2 = kConnected" "readable (c_in s2) = rest"
      using send [unfolded s2 ok_or_simps] inv1 assms(2) b1(3) by (auto simp: conn_inv_def conn_same_def)
    then show ?thesis
      using ctx_reset_fresh by (auto simp: answered_def conn_shutdown_def setState_def shutdownInLoop_def Let_def)
  qed
  show ?thesis unfolding b1(4) by (rule ok_or_bind [OF send]) (rule last)
qed

section \<open>Properties\<close>

text \<open>
  C23: on a connection whose parser is fresh, a message of any bytes is handled without a fault
  other than an oversized buffer: the parser returns, no assertion fails, the connection stays
  consistent and open, and afterwards the parser is fresh again, unless the request line was
  malformed, in which case an answer was sent and the connection is being shut down.
\<close>

theorem onMessage_safe:
  assumes "conn_ok s" "ctx_fresh (hc_context s)" "callback_fits cb" "\<forall>n. write_spec n (wr n)"
  shows "ok_or {LengthError} (\<lambda>s'. conn_ok s' \<and> state_le (c_state s) (c_state s') \<and>
     (ctx_fresh (hc_context s') \<or> c_state s' \<noteq> kConnected)) (onMessage cb wr t s)"
proof -
  have wf: "buffer_wf (c_in s)" using assms(1) by (simp add: conn_ok_def conn_inv_def)
  have wr: "write_spec n (wr n)" for n using assms(4) by blast
  obtain ok c1 rest where total: "parse_spec t (hc_context s) (readable (c_in s)) = Inr (ok, c1, rest)"
    using parse_spec_total [OF assms(2)] by blast
  then obtain b1 where p: "parseRequest t (hc_context s) (c_in s) = Some (Inr (ok, c1, b1))" "buffer_wf b1"
      "parse_spec t (hc_context s) (readable (c_in s)) = Inr (ok, c1, readable b1)"
    using parse_live [OF wf ctx_fresh_live [OF assms(2)], of t] by auto
  let ?s1 = "s\<lparr>c_in := b1, hc_context := c1\<rparr>"
  have ok1: "conn_ok ?s1" using conn_ok_input [OF assms(1) p(2)] .
  show ?thesis
  proof (cases ok)
    case True
    have "ctx_fresh (hc_context ?s1) \<or> gotAll (hc_context ?s1)"
      using parse_spec_ok_context [OF _ assms(2)] p(3) True by auto
    from after_parse_good [OF ok1 assms(3) wr this] show ?thesis
      using onMessage_after_parse [OF p(1)] True by (auto simp: msg_post_def elim: ok_or_mono)
  next
    case False
    have "\<not> gotAll (hc_context ?s1)"
      using parse_spec_bad [of t "hc_context s" _ c1] p(3) False processRequestLine_state by (fastforce simp: gotAll_def)
    from after_parse_bad [OF ok1 wr this, of cb] show ?thesis
      unfolding onMessage_after_parse [OF p(1)] using False
      by (auto simp: msg_post_def elim: ok_or_mono)
  qed
qed


section \<open>Concrete runs\<close>

definition http_sample :: "string \<Rightarrow> http_conn" where
  "http_sample input =
     \<lparr>c_state = kConnected, c_reading = True, c_chan = (new_channel 0 7)\<lparr>ch_events := 3\<rparr>,
      c_in = buffer_of input, c_out = buffer_of [], c_writeCompleteCallback = False,
      c_highWaterMarkCallback = False, c_highWaterMark = 64 * 1024 * 1024, c_inLoop = True,
      c_tasks = [], c_wire = [], c_shut = False, c_accepted = [], c_dropped = [], c_closes = 0,
      hc_context = new_HttpContext\<rparr>"

lemma http_sample_ok: "length input + 8 \<le> vec_max \<Longrightarrow> conn_ok (http_sample input)"
  by (simp add: conn_ok_def conn_inv_def http_sample_def isWriting_def kWriteEvent_def poll_bits buffer_of_ok
      vec_max_def new_channel_def)

lemma default_fits: "callback_fits defaultHttpCallback"
proof -
  have d: "length (dec_nat 404) = 3" by code_simp
  show ?thesis
    by (simp add: callback_fits_def response_bytes_def response_head_def defaultHttpCallback_def setCloseConnection_def
        setStatusMessage_def setStatusCode_def new_HttpResponse_def d kCRLF_def vec_max_def c_str_def)
qed

theorem onMessage_safe_witness:
  "ok_or {LengthError} (\<lambda>s'. conn_ok s' \<and> state_le kConnected (c_state s') \<and>
     (ctx_fresh (hc_context s') \<or> c_state s' \<noteq> kConnected))
     (onMessage defaultHttpCallback (\<lambda>n. IoOk n) 5 (http_sample ''GARBAGE''))"
proof -
  have ok: "conn_ok (http_sample ''GARBAGE'')" by (rule http_sample_ok) (simp add: vec_max_def)
  have fr: "ctx_fresh (hc_context (http_sample ''GARBAGE''))"
    by (simp add: http_sample_def ctx_fresh_def new_HttpContext_def new_HttpRequest_def)
  have wr: "\<forall>n. write_spec n (IoOk n)" by (simp add: write_spec_def)
  have "c_state (http_sample ''GARBAGE'') = kConnected" by (simp add: http_sample_def)
  with onMessage_safe [OF ok fr default_fits wr] show ?thesis by simp
qed

definition sample_request :: HttpRequest where
  "sample_request = \<lparr>req_method = kGet, req_version = kHttp11, req_path = ''/'', req_query = [],
     req_receiveTime = 5, req_headers = []\<rparr>"

text \<open>
  A request of which the request line and one header came with an earlier message, and whose
  headers are not in the order of their names.
\<close>

definition begun_context :: HttpContext where
  "begun_context = \<lparr>ctx_state = kExpectHeaders, ctx_request = \<lparr>req_method = kGet, req_version = kHttp11, req_path = ''/'',
     req_query = [], req_receiveTime = 5, req_headers = [(''Z'', ''1'')]\<rparr>\<rparr>"

definition begun_input :: string where
  "begun_input = ''A: 2'' @ kCRLF @ kCRLF @ ''GET''"

definition begun_request :: HttpRequest where
  "begun_request = (ctx_request begun_context)\<lparr>req_headers := [(''A'', ''2''), (''Z'', ''1'')]\<rparr>"

lemma begun_parse: "parse_spec 6 begun_context begun_input = Inr (True, \<lparr>ctx_state = kGotAll, ctx_request = begun_request\<rparr>, ''GET'')"
  by code_simp


end
