(* ===== verification/LogStream.thy ===== *)
theory LogStream
  imports SafeRun
begin

text \<open>
  \<open>FixedBuffer\<close> and \<open>class LogStream\<close> of \<open>base/LogStream.h\<close> and \<open>base/LogStream.cc\<close>: a fixed
  array with a write position, integers printed into it, and the \<open><<\<close> operators. Every write to the
  array is bounds-checked in the model, so that leaving it is the fault \<open>OutOfBounds\<close>. Printing of
  floating-point numbers is not modelled.
\<close>

section \<open>Fixed buffers\<close>

definition kSmallBuffer :: nat where "kSmallBuffer = 4000"
definition kLargeBuffer :: nat where "kLargeBuffer = 4000 * 1000"

record fixed_buffer =
  fb_data :: string
  fb_cur :: nat

definition new_fixed_buffer :: "string \<Rightarrow> fixed_buffer" where
  "new_fixed_buffer garbage = \<lparr>fb_data = garbage, fb_cur = 0\<rparr>"

definition fb_length :: "fixed_buffer \<Rightarrow> nat" where
  "fb_length b = fb_cur b"

definition fb_avail :: "fixed_buffer \<Rightarrow> nat" where
  "fb_avail b = length (fb_data b) - fb_cur b"

definition fb_add :: "nat \<Rightarrow> fixed_buffer \<Rightarrow> fixed_buffer" where
  "fb_add len b = b\<lparr>fb_cur := fb_cur b + len\<rparr>"

definition fb_reset :: "fixed_buffer \<Rightarrow> fixed_buffer" where
  "fb_reset b = b\<lparr>fb_cur := 0\<rparr>"

definition fb_bzero :: "fixed_buffer \<Rightarrow> fixed_buffer" where
  "fb_bzero b = b\<lparr>fb_data := replicate (length (fb_data b)) (CHR 0x00)\<rparr>"

definition fb_toString :: "fixed_buffer \<Rightarrow> string" where
  "fb_toString b = take (fb_length b) (fb_data b)"

text \<open>A \<open>size_t\<close> passed as an \<open>int\<close> keeps its low 32 bits; as \<open>size_t\<close> a negative one is huge.\<close>

definition to_int32 :: "nat \<Rightarrow> int" where
  "to_int32 n = (int n + 2 ^ 31) mod 2 ^ 32 - 2 ^ 31"

definition fb_append :: "string \<Rightarrow> int \<Rightarrow> fixed_buffer \<Rightarrow> fixed_buffer res" where
  "fb_append buf len b =
     (if int (fb_avail b) > (if len < 0 then len + 2 ^ 64 else len)
      then rbind (read_at buf 0 (nat len)) (\<lambda>bytes.
           rbind (write_at (fb_data b) (fb_cur b) bytes) (\<lambda>d.
           Inr (b\<lparr>fb_data := d, fb_cur := fb_cur b + nat len\<rparr>)))
      else Inr b)"

section \<open>Printing integers\<close>

definition digits :: string where
  "digits = ''9876543210123456789''"

definition digitsHex :: string where
  "digitsHex = ''0123456789ABCDEF''"

lemma c_div_10_less: "i \<noteq> 0 \<Longrightarrow> nat \<bar>c_div i 10\<bar> < nat \<bar>i\<bar>"
  by (simp add: c_div_def abs_mult)

text \<open>The loop of \<open>convert\<close>: least significant digit first, a \<open>do\<close> loop, so at least one digit.\<close>

function convert_loop :: "int \<Rightarrow> string" where
  "convert_loop i =
     (let lsd = c_mod i 10; i' = c_div i 10; c = digits ! nat (9 + lsd)
      in if i' \<noteq> 0 then c # convert_loop i' else [c])"
  by pat_completeness auto
termination
  by (relation "measure (\<lambda>i. nat \<bar>i\<bar>)") (auto simp: c_div_def intro!: c_div_10_less [unfolded c_div_def, simplified])

declare convert_loop.simps [simp del]

definition convert :: "int \<Rightarrow> string" where
  "convert v = rev (convert_loop v @ (if v < 0 then ''-'' else []))"

fun convertHex_loop :: "nat \<Rightarrow> string" where
  "convertHex_loop i =
     (let lsd = i mod 16; i' = i div 16; c = digitsHex ! lsd
      in if i' \<noteq> 0 then c # convertHex_loop i' else [c])"

declare convertHex_loop.simps [simp del]

definition convertHex :: "nat \<Rightarrow> string" where
  "convertHex v = rev (convertHex_loop v)"

section \<open>The stream\<close>

definition kMaxNumericSize :: nat where "kMaxNumericSize = 32"

text \<open>\<open>convert\<close> writes the text and a terminating zero at the current position.\<close>

definition put_text :: "string \<Rightarrow> fixed_buffer \<Rightarrow> fixed_buffer res" where
  "put_text text b =
     rbind (write_at (fb_data b) (fb_cur b) (text @ [CHR 0x00])) (\<lambda>d.
     Inr (fb_add (length text) (b\<lparr>fb_data := d\<rparr>)))"

definition formatInteger :: "int \<Rightarrow> fixed_buffer \<Rightarrow> fixed_buffer res" where
  "formatInteger v b = (if fb_avail b \<ge> kMaxNumericSize then put_text (convert v) b else Inr b)"

definition stream_pointer :: "nat \<Rightarrow> fixed_buffer \<Rightarrow> fixed_buffer res" where
  "stream_pointer v b =
     (if fb_avail b \<ge> kMaxNumericSize then put_text (''0x'' @ convertHex v) b else Inr b)"

text \<open>
  Floating-point numbers: \<open>repr\<close> is what \<open>%.12g\<close> prints. \<open>snprintf\<close> stores at most 31 characters of it,
  but the position moves by its full length.
\<close>

definition stream_double :: "string \<Rightarrow> fixed_buffer \<Rightarrow> fixed_buffer res" where
  "stream_double repr b =
     (if fb_avail b \<ge> kMaxNumericSize
      then rbind (write_at (fb_data b) (fb_cur b) (snprintf_buf kMaxNumericSize repr @ [CHR 0x00])) (\<lambda>d.
           Inr (fb_add (length repr) (b\<lparr>fb_data := d\<rparr>)))
      else Inr b)"

definition stream_bool :: "bool \<Rightarrow> fixed_buffer \<Rightarrow> fixed_buffer res" where
  "stream_bool v b = fb_append (if v then ''1'' else ''0'') 1 b"

definition stream_char :: "char \<Rightarrow> fixed_buffer \<Rightarrow> fixed_buffer res" where
  "stream_char v b = fb_append [v] 1 b"

definition stream_cstr :: "string option \<Rightarrow> fixed_buffer \<Rightarrow> fixed_buffer res" where
  "stream_cstr str b =
     (case str of
        Some s \<Rightarrow> fb_append s (to_int32 (length (c_str s))) b
      | None \<Rightarrow> fb_append ''(null)'' 6 b)"

definition stream_string :: "string \<Rightarrow> fixed_buffer \<Rightarrow> fixed_buffer res" where
  "stream_string v b = fb_append v (to_int32 (length v)) b"

definition stream_append :: "string \<Rightarrow> int \<Rightarrow> fixed_buffer \<Rightarrow> fixed_buffer res" where
  "stream_append data len b = fb_append data len b"

datatype stream_op =
    StreamBool bool
  | StreamInteger int
  | StreamPointer nat
  | StreamDouble string
  | StreamChar char
  | StreamCstr "string option"
  | StreamString string

fun stream_step :: "stream_op \<Rightarrow> fixed_buffer \<Rightarrow> fixed_buffer res" where
  "stream_step (StreamBool v) b = stream_bool v b"
| "stream_step (StreamInteger v) b = formatInteger v b"
| "stream_step (StreamPointer v) b = stream_pointer v b"
| "stream_step (StreamDouble repr) b = stream_double repr b"
| "stream_step (StreamChar v) b = stream_char v b"
| "stream_step (StreamCstr v) b = stream_cstr v b"
| "stream_step (StreamString v) b = stream_string v b"

section \<open>Digits\<close>

lemma digits_table: "list_all (\<lambda>d. digits ! (9 + d) = digit_char d \<and> digits ! (9 - d) = digit_char d) [0..<10]"
  by code_simp

lemma digits_pos [simp]: "d < 10 \<Longrightarrow> digits ! nat (9 + int d) = digit_char d"
  using digits_table by (simp add: list_all_iff nat_add_distrib)

lemma digits_neg [simp]: "d < 10 \<Longrightarrow> digits ! nat (9 - int d) = digit_char d"
proof -
  assume d: "d < 10"
  then have "nat (9 - int d) = 9 - d" by (simp add: nat_diff_distrib)
  with digits_table d show ?thesis by (simp add: list_all_iff)
qed

lemma convert_loop_pos: "convert_loop (int n) = rev (dec_nat n)"
proof (induction n rule: dec_nat.induct)
  case (1 n)
  have d: "c_mod (int n) 10 = int (n mod 10)" "c_div (int n) 10 = int (n div 10)"
    by (simp_all add: c_mod_nonneg c_div_nonneg zmod_int zdiv_int)
  have c: "digits ! nat (9 + int (n mod 10)) = digit_char (n mod 10)" by (rule digits_pos) simp
  show ?case
  proof (cases "n < 10")
    case True
    then show ?thesis by (subst convert_loop.simps, subst dec_nat.simps) (simp add: Let_def d)
  next
    case False
    then have "n div 10 \<noteq> 0" by simp
    then show ?thesis using 1 False
      by (subst convert_loop.simps, subst dec_nat.simps) (simp add: Let_def d c del: of_nat_mod)
  qed
qed

lemma convert_loop_neg: "convert_loop (- int n) = convert_loop (int n)"
proof (induction n rule: dec_nat.induct)
  case (1 n)
  have d: "c_mod (- int n) 10 = - int (n mod 10)" "c_div (- int n) 10 = - int (n div 10)"
    "c_mod (int n) 10 = int (n mod 10)" "c_div (int n) 10 = int (n div 10)"
    by (simp_all add: c_mod_neg c_div_neg c_mod_nonneg c_div_nonneg zmod_int zdiv_int)
  have c: "digits ! nat (9 + - int (n mod 10)) = digit_char (n mod 10)"
    "digits ! nat (9 + int (n mod 10)) = digit_char (n mod 10)"
    using digits_neg [of "n mod 10"] digits_pos [of "n mod 10"] by simp_all
  have "convert_loop (- int n) = (if n div 10 \<noteq> 0 then digit_char (n mod 10) # convert_loop (- int (n div 10)) else [digit_char (n mod 10)])"
    by (subst convert_loop.simps) (simp only: Let_def d c, simp)
  moreover have "convert_loop (int n) = (if n div 10 \<noteq> 0 then digit_char (n mod 10) # convert_loop (int (n div 10)) else [digit_char (n mod 10)])"
    by (subst convert_loop.simps) (simp only: Let_def d c, simp)
  ultimately show ?case using 1 by auto
qed

lemma convert_dec_int: "convert v = dec_int v"
proof (cases "v < 0")
  case True
  then have "v = - int (nat (- v))" by simp
  then have "convert_loop v = rev (dec_nat (nat (- v)))"
    using convert_loop_neg convert_loop_pos by metis
  then show ?thesis using True by (simp add: convert_def dec_int_def)
next
  case False
  then have "convert_loop v = rev (dec_nat (nat v))" using convert_loop_pos [of "nat v"] by simp
  then show ?thesis using False by (simp add: convert_def dec_int_def)
qed

lemma length_convert:
  assumes "- (2 ^ 63) \<le> v" "v < 2 ^ 64"
  shows "length (convert v) \<le> 20"
proof (cases "v < 0")
  case True
  then have "nat (- v) < 10 ^ 19" using assms by auto
  then show ?thesis using True length_dec_nat [of "nat (- v)" 19] by (simp add: convert_dec_int dec_int_def)
next
  case False
  then have "nat v < 10 ^ 20" using assms by auto
  then show ?thesis using False length_dec_nat [of "nat v" 20] by (simp add: convert_dec_int dec_int_def)
qed

lemma length_convertHex_loop: "v < 16 ^ k \<Longrightarrow> 0 < k \<Longrightarrow> length (convertHex_loop v) \<le> k"
proof (induction v arbitrary: k rule: convertHex_loop.induct)
  case (1 v)
  show ?case
  proof (cases "v div 16 = 0")
    case True
    with "1.prems" show ?thesis by (subst convertHex_loop.simps) (simp add: Let_def)
  next
    case False
    then obtain j where j: "k = Suc j" "0 < j" using "1.prems" by (cases k; cases "k - 1") auto
    then have "v div 16 < 16 ^ j" using "1.prems"(1) by auto
    with "1.IH" [OF refl refl refl False] j have "length (convertHex_loop (v div 16)) \<le> j" by simp
    with False j show ?thesis by (subst convertHex_loop.simps) (simp add: Let_def)
  qed
qed


section \<open>The stream as a growing text\<close>

text \<open>
  The reference: the text so far and, for each operator, the text it prints and the room it asks
  for. An operator that has no room leaves no trace.
\<close>

fun stream_text :: "stream_op \<Rightarrow> string" where
  "stream_text (StreamBool v) = (if v then ''1'' else ''0'')"
| "stream_text (StreamInteger v) = dec_int v"
| "stream_text (StreamPointer v) = ''0x'' @ convertHex v"
| "stream_text (StreamDouble repr) = repr"
| "stream_text (StreamChar v) = [v]"
| "stream_text (StreamCstr v) = (case v of Some s \<Rightarrow> c_str s | None \<Rightarrow> ''(null)'')"
| "stream_text (StreamString v) = v"

fun stream_room :: "stream_op \<Rightarrow> nat" where
  "stream_room (StreamInteger v) = 32"
| "stream_room (StreamPointer v) = 32"
| "stream_room (StreamDouble repr) = 32"
| "stream_room op = length (stream_text op) + 1"

fun stream_spec :: "nat \<Rightarrow> stream_op list \<Rightarrow> string \<Rightarrow> string" where
  "stream_spec cap [] acc = acc"
| "stream_spec cap (op # ops) acc =
     stream_spec cap ops (if stream_room op \<le> cap - length acc then acc @ stream_text op else acc)"

text \<open>\<open>%.12g\<close> prints a sign, 12 digits, a point and an exponent: at most 19 characters.\<close>

fun stream_op_ok :: "stream_op \<Rightarrow> bool" where
  "stream_op_ok (StreamInteger v) \<longleftrightarrow> - (2 ^ 63) \<le> v \<and> v < 2 ^ 64"
| "stream_op_ok (StreamPointer v) \<longleftrightarrow> v < 2 ^ 64"
| "stream_op_ok (StreamDouble repr) \<longleftrightarrow> length repr \<le> 19"
| "stream_op_ok (StreamCstr v) \<longleftrightarrow> (case v of Some s \<Rightarrow> length s < 2 ^ 31 | None \<Rightarrow> True)"
| "stream_op_ok (StreamString v) \<longleftrightarrow> length v < 2 ^ 31"
| "stream_op_ok _ \<longleftrightarrow> True"

definition fb_ok :: "nat \<Rightarrow> fixed_buffer \<Rightarrow> bool" where
  "fb_ok cap b \<longleftrightarrow> length (fb_data b) = cap \<and> fb_cur b < cap"

lemma fb_text_length: "fb_ok cap b \<Longrightarrow> length (fb_toString b) = fb_cur b"
  by (simp add: fb_ok_def fb_toString_def fb_length_def)

lemma fb_write:
  assumes ok: "fb_ok cap b" and room: "fb_cur b + length xs < cap" and n: "n \<le> length xs"
  shows "\<exists>d. write_at (fb_data b) (fb_cur b) xs = Inr d \<and> fb_ok cap (b\<lparr>fb_data := d, fb_cur := fb_cur b + n\<rparr>) \<and>
     fb_toString (b\<lparr>fb_data := d, fb_cur := fb_cur b + n\<rparr>) = fb_toString b @ take n xs"
proof -
  have "length (fb_data b) = cap" "fb_cur b < cap" using ok by (auto simp: fb_ok_def)
  then show ?thesis using room n by (simp add: fb_ok_def fb_toString_def fb_length_def)
qed

lemma fb_append_ok:
  assumes ok: "fb_ok cap b" and len: "len \<le> length buf"
  shows "\<exists>b'. fb_append buf (int len) b = Inr b' \<and> fb_ok cap b' \<and>
     fb_toString b' = (if len + 1 \<le> cap - length (fb_toString b) then fb_toString b @ take len buf else fb_toString b)"
proof (cases "len < fb_avail b")
  case True
  then have "fb_cur b + length (take len buf) < cap" using ok len by (auto simp: fb_avail_def fb_ok_def)
  from fb_write [OF ok this, of len] obtain d where "write_at (fb_data b) (fb_cur b) (take len buf) = Inr d"
    "fb_ok cap (b\<lparr>fb_data := d, fb_cur := fb_cur b + len\<rparr>)"
    "fb_toString (b\<lparr>fb_data := d, fb_cur := fb_cur b + len\<rparr>) = fb_toString b @ take len buf"
    using len by auto
  then show ?thesis using True len ok fb_text_length [OF ok]
    by (auto simp: fb_append_def fb_avail_def fb_ok_def)
next
  case False
  then show ?thesis using ok fb_text_length [OF ok] by (auto simp: fb_append_def fb_avail_def fb_ok_def)
qed

lemma fb_append_fits:
  assumes "fb_ok cap b" "length line < fb_avail b"
  shows "\<exists>b'. fb_append line (int (length line)) b = Inr b' \<and> fb_ok cap b' \<and> fb_toString b' = fb_toString b @ line"
  using fb_append_ok [OF assms(1), of "length line" line] assms fb_text_length [OF assms(1)]
  by (auto simp: fb_avail_def fb_ok_def)

lemma put_text_ok:
  assumes ok: "fb_ok cap b" and room: "32 \<le> fb_avail b" and len: "length text \<le> 30"
  shows "\<exists>b'. put_text text b = Inr b' \<and> fb_ok cap b' \<and> fb_toString b' = fb_toString b @ text"
proof -
  have "fb_cur b + length (text @ [CHR 0x00]) < cap" using ok room len by (auto simp: fb_avail_def fb_ok_def)
  from fb_write [OF ok this, of "length text"] show ?thesis
    by (auto simp: put_text_def fb_add_def)
qed

lemma to_int32_id: "n < 2 ^ 31 \<Longrightarrow> to_int32 n = int n"
proof -
  assume "n < 2 ^ 31"
  then have "(int n + 2 ^ 31) mod 2 ^ 32 = int n + 2 ^ 31" by (intro mod_pos_pos_trivial) auto
  then show ?thesis by (simp add: to_int32_def)
qed

lemma c_str_prefix: "take (length (c_str s)) s = c_str s" "length (c_str s) \<le> length s"
  unfolding c_str_def by (rule takeWhile_eq_take [symmetric], rule length_takeWhile_le)

lemma stream_step_ok:
  assumes ok: "fb_ok cap b" and op: "stream_op_ok op"
  shows "\<exists>b'. stream_step op b = Inr b' \<and> fb_ok cap b' \<and>
     fb_toString b' = (if stream_room op \<le> cap - length (fb_toString b) then fb_toString b @ stream_text op else fb_toString b)"
proof (cases op)
  case (StreamBool v)
  then show ?thesis using fb_append_ok [OF ok, of 1 "if v then ''1'' else ''0''"] by (auto simp: stream_bool_def)
next
  case (StreamInteger v)
  have "length (convert v) \<le> 30" using length_convert [of v] op StreamInteger by simp
  from put_text_ok [OF ok _ this] ok StreamInteger show ?thesis
    by (auto simp: formatInteger_def kMaxNumericSize_def convert_dec_int fb_text_length fb_avail_def fb_ok_def)
next
  case (StreamPointer v)
  have "length (convertHex v) \<le> 16" using length_convertHex_loop [of v 16] op StreamPointer by (simp add: convertHex_def)
  then have "length (''0x'' @ convertHex v) \<le> 30" by simp
  from put_text_ok [OF ok _ this] ok StreamPointer show ?thesis
    by (auto simp: stream_pointer_def kMaxNumericSize_def fb_text_length fb_avail_def fb_ok_def)
next
  case (StreamDouble repr)
  then have len: "length repr \<le> 30" and eq: "stream_double repr b = (if fb_avail b \<ge> 32 then put_text repr b else Inr b)"
    using op by (simp_all add: stream_double_def put_text_def kMaxNumericSize_def snprintf_buf_def)
  from put_text_ok [OF ok _ len] ok StreamDouble show ?thesis
    by (auto simp: eq fb_text_length fb_avail_def fb_ok_def)
next
  case (StreamChar v)
  then show ?thesis using fb_append_ok [OF ok, of 1 "[v]"] by (auto simp: stream_char_def)
next
  case (StreamCstr v)
  show ?thesis
  proof (cases v)
    case None
    then show ?thesis using StreamCstr fb_append_ok [OF ok, of 6 "''(null)''"] by (auto simp: stream_cstr_def)
  next
    case (Some s)
    then have "to_int32 (length (c_str s)) = int (length (c_str s))"
      using op StreamCstr c_str_prefix(2) [of s] by (intro to_int32_id) simp
    then show ?thesis using StreamCstr Some fb_append_ok [OF ok c_str_prefix(2) [of s]]
      by (auto simp: stream_cstr_def c_str_prefix(1) [of s])
  qed
next
  case (StreamString v)
  then have "to_int32 (length v) = int (length v)" using op by (intro to_int32_id) simp
  then show ?thesis using StreamString fb_append_ok [OF ok, of "length v" v] by (auto simp: stream_string_def)
qed

interpretation strm: safe_machine stream_step "\<lambda>op b. stream_op_ok op" "fb_ok cap" "{}" for cap
proof
  show "ok_or {} (fb_ok cap) (stream_step op b)" if "fb_ok cap b" "stream_op_ok op" for op b
    using stream_step_ok [OF that] by auto
qed

section \<open>Properties\<close>

text \<open>
  \<open>convert\<close>, which takes digits off the least significant end with C's truncating division
  and reads them from a table centred on zero, prints every integer, negative ones included, in
  plain decimal; a 64-bit value takes at most 20 characters of the 32 reserved for it.
\<close>

theorem convert_prints_decimal:
  "convert v = dec_int v \<and> (- (2 ^ 63) \<le> v \<and> v < 2 ^ 64 \<longrightarrow> length (convert v) < kMaxNumericSize)"
  using convert_dec_int [of v] length_convert [of v] by (auto simp: kMaxNumericSize_def)

text \<open>
  C35: whatever is streamed into it, a fixed buffer is never written outside its array, and its
  text is the concatenation of what the operators print, each whole or, for want of room, left
  out whole.
\<close>

theorem stream_refines_text:
  assumes "fb_ok cap b" "\<forall>op \<in> set ops. stream_op_ok op"
  shows "\<exists>b'. rfold stream_step ops b = Inr b' \<and> fb_ok cap b' \<and>
     fb_toString b' = stream_spec cap ops (fb_toString b)"
  using assms
proof (induction ops arbitrary: b)
  case (Cons op ops)
  obtain b1 where "stream_step op b = Inr b1" "fb_ok cap b1"
    "fb_toString b1 = (if stream_room op \<le> cap - length (fb_toString b) then fb_toString b @ stream_text op else fb_toString b)"
    using stream_step_ok [of cap b op] Cons.prems by auto
  with Cons.IH [of b1] Cons.prems show ?case by simp
qed simp

theorem convert_prints_decimal_witness: "convert (- 2048) = dec_int (- 2048) \<and> length (convert (- 2048)) < 32"
  using convert_prints_decimal [of "- 2048"] by (auto simp: kMaxNumericSize_def)

theorem stream_refines_text_witness:
  "\<exists>b'. rfold stream_step [StreamCstr (Some ''n=''), StreamInteger 7, StreamBool True]
      (new_fixed_buffer (replicate 40 (CHR ''x''))) = Inr b' \<and> fb_toString b' = ''n=71''"
proof -
  have ok: "fb_ok 40 (new_fixed_buffer (replicate 40 (CHR ''x'')))" by (simp add: fb_ok_def new_fixed_buffer_def)
  have d: "dec_int 7 = ''7''" by code_simp
  show ?thesis
    using stream_refines_text [OF ok, of "[StreamCstr (Some ''n=''), StreamInteger 7, StreamBool True]"]
    by (auto simp: fb_toString_def new_fixed_buffer_def fb_length_def d)
qed

end
