(* ===== verification/LogFile.thy ===== *)
theory LogFile
  imports SafeRun
begin

text \<open>
  \<open>AppendFile\<close> of \<open>base/FileUtil.h\<close>, \<open>base/FileUtil.cc\<close> and \<open>class LogFile\<close> of \<open>base/LogFile.h\<close>,
  \<open>base/LogFile.cc\<close>: appending to a stdio stream and starting a new file when the current one has
  grown beyond the roll size. The answers of \<open>fopen\<close>, \<open>fwrite\<close>, \<open>gettid\<close> and \<open>strftime\<close> are
  parameters, collected in \<open>log_env\<close>; the time is an argument. \<open>af_content\<close> is what the stream was
  given, in its buffer or with the kernel, \<open>af_flushed\<close> how much of it a flush has passed to the
  kernel for certain, and \<open>lf_closed\<close> records the files rolled away.
\<close>

section \<open>The environment\<close>

text \<open>
  \<open>le_opens name\<close> tells whether \<open>fopen\<close> succeeds; \<open>le_fwrite n k\<close> is the number of bytes \<open>fwrite\<close>
  takes when offered \<open>k\<close> bytes after \<open>n\<close> of the line were taken.
\<close>

record log_env =
  le_strftime :: "int \<Rightarrow> string"
  le_tid :: int
  le_opens :: "string \<Rightarrow> bool"
  le_fwrite :: "nat \<Rightarrow> nat \<Rightarrow> nat"

section \<open>AppendFile\<close>

record append_file =
  af_name :: string
  af_content :: string
  af_flushed :: nat
  af_writtenBytes :: nat

definition new_append_file :: "log_env \<Rightarrow> string \<Rightarrow> append_file res" where
  "new_append_file E filename =
     assertm (le_opens E filename) (Inr \<lparr>af_name = filename, af_content = [], af_flushed = 0, af_writtenBytes = 0\<rparr>)"

text \<open>\<open>fwrite\<close> never takes more than it is offered.\<close>

definition af_write :: "log_env \<Rightarrow> nat \<Rightarrow> nat \<Rightarrow> nat" where
  "af_write E n k = min (le_fwrite E n k) k"

function af_loop :: "log_env \<Rightarrow> nat \<Rightarrow> nat \<Rightarrow> nat" where
  "af_loop E len n =
     (let remain = len - n in
      if remain > 0 then (let x = af_write E n remain in if x = 0 then n else af_loop E len (n + x))
      else n)"
  by pat_completeness auto
termination
  by (relation "measure (\<lambda>(E, len, n). len - n)") auto

declare af_loop.simps [simp del]

definition af_append :: "log_env \<Rightarrow> string \<Rightarrow> append_file \<Rightarrow> append_file" where
  "af_append E logline f =
     (let len = length logline; n = af_loop E len (af_write E 0 len)
      in f\<lparr>af_content := af_content f @ take n logline, af_writtenBytes := af_writtenBytes f + len\<rparr>)"

definition af_flush :: "append_file \<Rightarrow> append_file" where
  "af_flush f = f\<lparr>af_flushed := length (af_content f)\<rparr>"

text \<open>The destructor: \<open>fclose\<close> flushes.\<close>

definition af_close :: "append_file \<Rightarrow> append_file" where
  "af_close f = af_flush f"

section \<open>LogFile\<close>

record log_file =
  lf_basename :: string
  lf_rollSize :: int
  lf_flushInterval :: int
  lf_start :: int
  lf_lastRoll :: int
  lf_lastFlush :: int
  lf_file :: "append_file option"
  lf_closed :: "append_file list"

definition kRollPerSeconds :: int where
  "kRollPerSeconds = 60 * 60 * 24"

text \<open>The file name, with the formatted time and the thread id of the process.\<close>

definition getLogFileName :: "log_env \<Rightarrow> string \<Rightarrow> int \<Rightarrow> string" where
  "getLogFileName E basename now =
     basename @ snprintf_buf 32 (le_strftime E now) @ snprintf_buf 32 (''.'' @ dec_int (le_tid E)) @ ''.log''"

definition rollFile :: "log_env \<Rightarrow> int \<Rightarrow> log_file \<Rightarrow> (bool \<times> log_file) res" where
  "rollFile E now lf =
     (let filename = getLogFileName E (lf_basename lf) now;
          start = c_div now kRollPerSeconds * kRollPerSeconds
      in if now > lf_lastRoll lf
         then let lf1 = lf\<lparr>lf_lastRoll := now, lf_lastFlush := now, lf_start := start\<rparr> in
              rbind (new_append_file E filename) (\<lambda>f.
              Inr (True, lf1\<lparr>lf_closed := lf_closed lf1 @ (case lf_file lf1 of None \<Rightarrow> [] | Some f0 \<Rightarrow> [af_close f0]),
                             lf_file := Some f\<rparr>))
         else Inr (False, lf))"

definition new_log_file :: "log_env \<Rightarrow> int \<Rightarrow> string \<Rightarrow> int \<Rightarrow> int \<Rightarrow> log_file res" where
  "new_log_file E now basename rollSize flushInterval =
     rbind (rollFile E now
       \<lparr>lf_basename = basename, lf_rollSize = rollSize, lf_flushInterval = flushInterval, lf_start = 0,
        lf_lastRoll = 0, lf_lastFlush = 0, lf_file = None, lf_closed = []\<rparr>) (\<lambda>(_, lf). Inr lf)"

definition lf_append :: "log_env \<Rightarrow> int \<Rightarrow> string \<Rightarrow> log_file \<Rightarrow> log_file res" where
  "lf_append E now logline lf =
     (case lf_file lf of
        None \<Rightarrow> Inl UseAfterFree
      | Some f \<Rightarrow>
          let f' = af_append E logline f; lf' = lf\<lparr>lf_file := Some f'\<rparr>
          in if int (af_writtenBytes f') > lf_rollSize lf'
             then rbind (rollFile E now lf') (\<lambda>(_, lf''). Inr lf'')
             else Inr lf')"

definition lf_flush :: "log_file \<Rightarrow> log_file res" where
  "lf_flush lf = (case lf_file lf of None \<Rightarrow> Inl UseAfterFree | Some f \<Rightarrow> Inr (lf\<lparr>lf_file := Some (af_flush f)\<rparr>))"

section \<open>Lemmas\<close>

text \<open>Files open, and the stream makes some progress on every offer.\<close>

definition env_writes :: "log_env \<Rightarrow> bool" where
  "env_writes E \<longleftrightarrow> (\<forall>name. le_opens E name) \<and> (\<forall>n k. 0 < k \<longrightarrow> 0 < le_fwrite E n k)"

lemma af_loop_all: "env_writes E \<Longrightarrow> n \<le> len \<Longrightarrow> af_loop E len n = len"
proof (induction E len n rule: af_loop.induct)
  case (1 E len n)
  have "n + af_write E n (len - n) \<le> len" using "1.prems" by (auto simp: af_write_def)
  moreover have "af_write E n (len - n) \<noteq> 0" if "0 < len - n"
    using "1.prems"(1) that by (auto simp: env_writes_def af_write_def)
  ultimately show ?case using 1 by (subst af_loop.simps) (auto simp: Let_def)
qed

lemma af_append_all:
  assumes "env_writes E"
  shows "af_append E line f =
     f\<lparr>af_content := af_content f @ line, af_writtenBytes := af_writtenBytes f + length line\<rparr>"
proof -
  have "af_loop E (length line) (af_write E 0 (length line)) = length line"
    using assms by (intro af_loop_all) (auto simp: af_write_def)
  then show ?thesis by (simp add: af_append_def Let_def)
qed

text \<open>Everything in the files, oldest first.\<close>

definition lf_text :: "log_file \<Rightarrow> string" where
  "lf_text lf = concat (map af_content (lf_closed lf)) @ (case lf_file lf of None \<Rightarrow> [] | Some f \<Rightarrow> af_content f)"

text \<open>What survives the process: the bytes that were passed to the kernel.\<close>

definition af_kept :: "append_file \<Rightarrow> string" where
  "af_kept f = take (af_flushed f) (af_content f)"

definition lf_kept :: "log_file \<Rightarrow> string" where
  "lf_kept lf = concat (map af_kept (lf_closed lf)) @ (case lf_file lf of None \<Rightarrow> [] | Some f \<Rightarrow> af_kept f)"

lemma af_flush_simps [simp]:
  "af_content (af_flush f) = af_content f" "af_writtenBytes (af_flush f) = af_writtenBytes f" "af_kept (af_flush f) = af_content f"
  "af_close f = af_flush f"
  by (simp_all add: af_flush_def af_kept_def af_close_def)

definition lf_ok :: "log_file \<Rightarrow> bool" where
  "lf_ok lf \<longleftrightarrow> (\<exists>f. lf_file lf = Some f \<and> af_writtenBytes f = length (af_content f)) \<and>
     (\<forall>f \<in> set (lf_closed lf). int (length (af_content f)) > lf_rollSize lf \<and> af_kept f = af_content f)"

lemma rollFile_ok:
  assumes "env_writes E" "\<forall>f. lf_file lf = Some f \<longrightarrow> int (length (af_content f)) > lf_rollSize lf"
    "\<forall>f \<in> set (lf_closed lf). int (length (af_content f)) > lf_rollSize lf \<and> af_kept f = af_content f"
    "lf_lastRoll lf < now \<or> lf_ok lf"
  shows "\<exists>r lf'. rollFile E now lf = Inr (r, lf') \<and> lf_ok lf' \<and> lf_text lf' = lf_text lf \<and>
     lf_rollSize lf' = lf_rollSize lf"
  using assms
  by (auto simp: rollFile_def new_append_file_def env_writes_def Let_def lf_ok_def lf_text_def split: option.splits)

lemma lf_append_ok:
  assumes "env_writes E" "lf_ok lf"
  shows "\<exists>lf'. lf_append E now line lf = Inr lf' \<and> lf_ok lf' \<and> lf_text lf' = lf_text lf @ line \<and>
     lf_rollSize lf' = lf_rollSize lf"
proof -
  obtain f where f: "lf_file lf = Some f" "af_writtenBytes f = length (af_content f)" using assms(2) by (auto simp: lf_ok_def)
  define lf1 where "lf1 = lf\<lparr>lf_file := Some (af_append E line f)\<rparr>"
  have ok: "lf_ok lf1" and txt1: "lf_text lf1 = lf_text lf @ line" and roll: "lf_rollSize lf1 = lf_rollSize lf"
    using assms(2) f by (auto simp: lf1_def lf_ok_def lf_text_def af_append_all [OF assms(1)])
  show ?thesis
  proof (cases "int (af_writtenBytes (af_append E line f)) > lf_rollSize lf")
    case True
    have "\<exists>r lf'. rollFile E now lf1 = Inr (r, lf') \<and> lf_ok lf' \<and> lf_text lf' = lf_text lf1 \<and> lf_rollSize lf' = lf_rollSize lf1"
    proof (rule rollFile_ok [OF assms(1)])
      show "\<forall>f. lf_file lf1 = Some f \<longrightarrow> int (length (af_content f)) > lf_rollSize lf1"
        using True f by (simp add: lf1_def af_append_all [OF assms(1)])
    qed (use ok in \<open>auto simp: lf_ok_def\<close>)
    then show ?thesis using True txt1 roll f by (auto simp: lf_append_def lf1_def Let_def)
  next
    case False
    then show ?thesis using ok txt1 roll f by (auto simp: lf_append_def lf1_def Let_def)
  qed
qed

lemma lf_append_list:
  assumes "env_writes E" "lf_ok lf"
  shows "\<exists>lf'. rfold (\<lambda>(now, line). lf_append E now line) lines lf = Inr lf' \<and> lf_ok lf' \<and>
     lf_text lf' = lf_text lf @ concat (map snd lines) \<and> lf_rollSize lf' = lf_rollSize lf"
  using assms(2)
proof (induction lines arbitrary: lf)
  case (Cons nl lines)
  obtain now line where nl: "nl = (now, line)" by (cases nl)
  obtain lf1 where "lf_append E now line lf = Inr lf1" "lf_ok lf1" "lf_text lf1 = lf_text lf @ line"
    "lf_rollSize lf1 = lf_rollSize lf"
    using lf_append_ok [OF assms(1) Cons.prems] by blast
  with Cons.IH [of lf1] show ?case by (auto simp: nl)
qed simp

lemma new_log_file_ok:
  assumes "env_writes E" "0 < now"
  shows "\<exists>lf. new_log_file E now basename rollSize fi = Inr lf \<and> lf_ok lf \<and> lf_text lf = [] \<and> lf_kept lf = [] \<and> lf_rollSize lf = rollSize"
  using assms by (simp add: new_log_file_def rollFile_def new_append_file_def env_writes_def Let_def lf_ok_def lf_text_def lf_kept_def af_kept_def)

lemma lf_flush_ok:
  assumes "lf_ok lf"
  shows "\<exists>lf'. lf_flush lf = Inr lf' \<and> lf_ok lf' \<and> lf_text lf' = lf_text lf \<and> lf_kept lf' = lf_text lf"
proof -
  obtain f where "lf_file lf = Some f" using assms by (auto simp: lf_ok_def)
  moreover have "concat (map af_kept (lf_closed lf)) = concat (map af_content (lf_closed lf))"
    using assms by (intro arg_cong [of _ _ concat]) (auto simp: lf_ok_def)
  ultimately show ?thesis using assms by (simp add: lf_flush_def lf_ok_def lf_text_def lf_kept_def)
qed

section \<open>Properties\<close>


text \<open>An environment in which every call of \<open>fwrite\<close> takes one byte.\<close>

definition slow_env :: log_env where
  "slow_env = \<lparr>le_strftime = (\<lambda>n. ''.t.''), le_tid = 1, le_opens = (\<lambda>name. True), le_fwrite = (\<lambda>n k. 1)\<rparr>"

lemma slow_env_writes: "env_writes slow_env"
  by (simp add: env_writes_def slow_env_def)


end
