(* ===== verification/AsyncLogging.thy ===== *)
theory AsyncLogging
  imports LogStream LogFile
begin

text \<open>
  \<open>class AsyncLogging\<close> of \<open>base/AsyncLogging.h\<close> and \<open>base/AsyncLogging.cc\<close>: threads append lines to
  a current buffer under a mutex, and a logging thread swaps the full buffers out and writes them to
  a log file. The state holds the members, the local variables of the logging thread and the point
  it has reached; a run is a sequence of critical sections and of the steps of the logging thread,
  in any order. A null \<open>unique_ptr\<close> is \<open>None\<close>. The size of the buffers is a parameter, the content
  \<open>junk\<close> of fresh memory of that size; in the program it is \<open>kLargeBuffer\<close>.
\<close>

section \<open>State and operations\<close>

text \<open>
  Where the logging thread is: not created, about to build its locals, at the loop condition, in the
  critical section (waiting there while no buffer is full), writing, returned.
\<close>

datatype log_pc = NotStarted | Entry | AtCheck | AtSwap | AtWrite | Exited

record async_log =
  al_flushInterval :: int
  al_running :: bool
  al_basename :: string
  al_rollSize :: int
  al_joined :: bool
  al_current :: "fixed_buffer option"
  al_next :: "fixed_buffer option"
  al_buffers :: "fixed_buffer list"
  al_pc :: log_pc
  al_output :: "log_file option"
  al_new1 :: "fixed_buffer option"
  al_new2 :: "fixed_buffer option"
  al_toWrite :: "fixed_buffer list"

definition zeroed_buffer :: "string \<Rightarrow> fixed_buffer" where
  "zeroed_buffer junk = fb_bzero (new_fixed_buffer junk)"

definition new_async :: "string \<Rightarrow> string \<Rightarrow> int \<Rightarrow> int \<Rightarrow> async_log" where
  "new_async junk basename rollSize flushInterval =
     \<lparr>al_flushInterval = flushInterval, al_running = False, al_basename = basename, al_rollSize = rollSize,
      al_joined = False, al_current = Some (zeroed_buffer junk), al_next = Some (zeroed_buffer junk),
      al_buffers = [], al_pc = NotStarted, al_output = None, al_new1 = None, al_new2 = None, al_toWrite = []\<rparr>"

text \<open>Dereferencing a \<open>unique_ptr\<close>.\<close>

definition deref :: "'a option \<Rightarrow> 'a res" where
  "deref p = (case p of None \<Rightarrow> Inl UseAfterFree | Some x \<Rightarrow> Inr x)"

definition async_append :: "string \<Rightarrow> string \<Rightarrow> async_log \<Rightarrow> async_log res" where
  "async_append junk logline s =
     (let len = int (length logline) in
      rbind (deref (al_current s)) (\<lambda>cur.
      if int (fb_avail cur) > len
      then rbind (fb_append logline len cur) (\<lambda>cur'. Inr (s\<lparr>al_current := Some cur'\<rparr>))
      else let s1 = s\<lparr>al_current := None, al_buffers := al_buffers s @ [cur]\<rparr>;
               s2 = (case al_next s1 of
                       Some b \<Rightarrow> s1\<lparr>al_current := Some b, al_next := None\<rparr>
                     | None \<Rightarrow> s1\<lparr>al_current := Some (new_fixed_buffer junk)\<rparr>)
           in rbind (deref (al_current s2)) (\<lambda>cur2.
              rbind (fb_append logline len cur2) (\<lambda>cur'. Inr (s2\<lparr>al_current := Some cur'\<rparr>)))))"

text \<open>\<open>start\<close> returns once the logging thread has passed its first assertion and the latch.\<close>

definition async_start :: "async_log \<Rightarrow> async_log res" where
  "async_start s =
     (let s1 = s\<lparr>al_running := True\<rparr> in
      assertm (al_pc s1 = NotStarted)
        (assertm (al_running s1) (Inr (s1\<lparr>al_pc := Entry\<rparr>))))"

text \<open>\<open>stop\<close>, up to the point where it waits for the logging thread to return.\<close>

definition async_stop :: "async_log \<Rightarrow> async_log res" where
  "async_stop s =
     (let s1 = s\<lparr>al_running := False\<rparr> in
      assertm (al_pc s1 \<noteq> NotStarted)
        (assertm (\<not> al_joined s1) (Inr (s1\<lparr>al_joined := True\<rparr>))))"

text \<open>The destructor.\<close>

definition async_destruct :: "async_log \<Rightarrow> async_log res" where
  "async_destruct s = (if al_running s then async_stop s else Inr s)"

section \<open>The logging thread\<close>

definition thread_entry :: "log_env \<Rightarrow> string \<Rightarrow> int \<Rightarrow> async_log \<Rightarrow> async_log res" where
  "thread_entry E junk now s =
     rbind (new_log_file E now (al_basename s) (al_rollSize s) 3) (\<lambda>output.
     Inr (s\<lparr>al_output := Some output, al_new1 := Some (zeroed_buffer junk), al_new2 := Some (zeroed_buffer junk),
            al_toWrite := [], al_pc := AtCheck\<rparr>))"

definition empty_buffer :: "fixed_buffer option \<Rightarrow> bool" where
  "empty_buffer p \<longleftrightarrow> (case p of None \<Rightarrow> False | Some b \<Rightarrow> fb_length b = 0)"

definition thread_check :: "async_log \<Rightarrow> async_log res" where
  "thread_check s =
     (if al_running s
      then assertm (empty_buffer (al_new1 s))
             (assertm (empty_buffer (al_new2 s))
               (assertm (al_toWrite s = []) (Inr (s\<lparr>al_pc := AtSwap\<rparr>))))
      else rbind (deref (al_output s)) (\<lambda>output.
           rbind (lf_flush output) (\<lambda>output'. Inr (s\<lparr>al_output := Some output', al_pc := Exited\<rparr>))))"

text \<open>The critical section, after the wait.\<close>

definition thread_swap :: "async_log \<Rightarrow> async_log res" where
  "thread_swap s =
     rbind (deref (al_current s)) (\<lambda>cur.
     let s1 = s\<lparr>al_current := al_new1 s, al_new1 := None\<rparr>;
         s2 = s1\<lparr>al_buffers := al_toWrite s1, al_toWrite := al_buffers s1 @ [cur]\<rparr>;
         s3 = (if al_next s2 = None then s2\<lparr>al_next := al_new2 s2, al_new2 := None\<rparr> else s2)
     in Inr (s3\<lparr>al_pc := AtWrite\<rparr>))"

text \<open>The line written in place of the buffers that are thrown away; \<open>stamp\<close> is the formatted time.\<close>

definition dropped_line :: "string \<Rightarrow> nat \<Rightarrow> string" where
  "dropped_line stamp n =
     snprintf_buf 256 (''Dropped log messages at '' @ stamp @ '', '' @ dec_nat n @ '' larger buffers'' @ [CHR 0x0A])"

definition write_buffers :: "log_env \<Rightarrow> int \<Rightarrow> string \<Rightarrow> fixed_buffer list \<Rightarrow> log_file \<Rightarrow> (fixed_buffer list \<times> log_file) res" where
  "write_buffers E now stamp bs output =
     (if length bs > 25
      then rbind (lf_append E now (dropped_line stamp (length bs - 2)) output) (\<lambda>output1.
           let bs1 = take 2 bs in
           rbind (rfold (\<lambda>b. lf_append E now (fb_toString b)) bs1 output1) (\<lambda>output2. Inr (bs1, output2)))
      else rbind (rfold (\<lambda>b. lf_append E now (fb_toString b)) bs output) (\<lambda>output2. Inr (bs, output2)))"

text \<open>A spare buffer is taken from the end of those written when the thread gave its own away.\<close>

definition refill :: "fixed_buffer option \<Rightarrow> fixed_buffer list \<Rightarrow> (fixed_buffer option \<times> fixed_buffer list) res" where
  "refill nb bs =
     (if nb = None then assertm (bs \<noteq> []) (Inr (Some (fb_reset (last bs)), butlast bs)) else Inr (nb, bs))"

definition thread_write :: "log_env \<Rightarrow> int \<Rightarrow> string \<Rightarrow> async_log \<Rightarrow> async_log res" where
  "thread_write E now stamp s =
     assertm (al_toWrite s \<noteq> [])
       (rbind (deref (al_output s)) (\<lambda>output.
        rbind (write_buffers E now stamp (al_toWrite s) output) (\<lambda>(bs, output').
        rbind (refill (al_new1 s) (take 2 bs)) (\<lambda>(new1, bs1).
        rbind (refill (al_new2 s) bs1) (\<lambda>(new2, bs2).
        rbind (lf_flush output') (\<lambda>output''.
        Inr (s\<lparr>al_output := Some output'', al_new1 := new1, al_new2 := new2, al_toWrite := [], al_pc := AtCheck\<rparr>)))))))"

definition threadFunc_step :: "log_env \<Rightarrow> string \<Rightarrow> int \<Rightarrow> string \<Rightarrow> async_log \<Rightarrow> async_log res" where
  "threadFunc_step E junk now stamp s =
     (case al_pc s of
        NotStarted \<Rightarrow> Inr s
      | Entry \<Rightarrow> thread_entry E junk now s
      | AtCheck \<Rightarrow> thread_check s
      | AtSwap \<Rightarrow> thread_swap s
      | AtWrite \<Rightarrow> thread_write E now stamp s
      | Exited \<Rightarrow> Inr s)"

text \<open>Runs: an append by some thread, \<open>start\<close>, \<open>stop\<close>, or a step of the logging thread.\<close>

datatype async_op =
    LogAppend string
  | LogStart
  | LogStop
  | LogDestroy
  | LogThread int string

fun async_step :: "log_env \<Rightarrow> string \<Rightarrow> async_op \<Rightarrow> async_log \<Rightarrow> async_log res" where
  "async_step E junk (LogAppend line) s = async_append junk line s"
| "async_step E junk LogStart s = async_start s"
| "async_step E junk LogStop s = async_stop s"
| "async_step E junk LogDestroy s = async_destruct s"
| "async_step E junk (LogThread now stamp) s = threadFunc_step E junk now stamp s"

section \<open>The invariant\<close>

definition spare_ok :: "nat \<Rightarrow> fixed_buffer \<Rightarrow> bool" where
  "spare_ok cap b \<longleftrightarrow> fb_ok cap b \<and> fb_cur b = 0"

definition opt_all :: "('a \<Rightarrow> bool) \<Rightarrow> 'a option \<Rightarrow> bool" where
  "opt_all P p \<longleftrightarrow> (case p of None \<Rightarrow> True | Some x \<Rightarrow> P x)"

definition has :: "('a \<Rightarrow> bool) \<Rightarrow> 'a option \<Rightarrow> bool" where
  "has P p \<longleftrightarrow> (case p of None \<Rightarrow> False | Some x \<Rightarrow> P x)"

lemma opt_simps [simp]:
  "opt_all P None" "opt_all P (Some x) = P x" "\<not> has P None" "has P (Some x) = P x"
  by (simp_all add: opt_all_def has_def)

lemma has_E: "has P p \<Longrightarrow> \<exists>x. p = Some x \<and> P x"
  by (cases p) auto

text \<open>What the mutex protects: a current buffer, and full buffers as soon as the spare one is used.\<close>

definition front_ok :: "nat \<Rightarrow> async_log \<Rightarrow> bool" where
  "front_ok cap s \<longleftrightarrow> has (fb_ok cap) (al_current s) \<and> opt_all (spare_ok cap) (al_next s) \<and>
     list_all (fb_ok cap) (al_buffers s) \<and> (al_next s = None \<longrightarrow> al_buffers s \<noteq> [])"

text \<open>The locals of the logging thread, by the point it has reached.\<close>

definition back_ok :: "nat \<Rightarrow> async_log \<Rightarrow> bool" where
  "back_ok cap s \<longleftrightarrow>
     (case al_pc s of
        NotStarted \<Rightarrow> al_output s = None \<and> al_toWrite s = []
      | Entry \<Rightarrow> al_output s = None \<and> al_toWrite s = []
      | AtWrite \<Rightarrow> has lf_ok (al_output s) \<and> al_new1 s = None \<and> opt_all (spare_ok cap) (al_new2 s) \<and>
          list_all (fb_ok cap) (al_toWrite s) \<and> al_toWrite s \<noteq> [] \<and>
          (al_new2 s = None \<longrightarrow> 2 \<le> length (al_toWrite s))
      | _ \<Rightarrow> has lf_ok (al_output s) \<and> has (\<lambda>lf. lf_kept lf = lf_text lf) (al_output s) \<and> has (spare_ok cap) (al_new1 s) \<and> has (spare_ok cap) (al_new2 s) \<and>
          al_toWrite s = [])"

definition async_ok :: "nat \<Rightarrow> async_log \<Rightarrow> bool" where
  "async_ok cap s \<longleftrightarrow> front_ok cap s \<and> back_ok cap s"

text \<open>Everything that was logged, in order: in the files, swapped out, full, or in the current buffer.\<close>

definition buf_text :: "fixed_buffer list \<Rightarrow> string" where
  "buf_text bs = concat (map fb_toString bs)"

definition opt_text :: "fixed_buffer option \<Rightarrow> string" where
  "opt_text p = (case p of None \<Rightarrow> [] | Some b \<Rightarrow> fb_toString b)"

definition file_text :: "async_log \<Rightarrow> string" where
  "file_text s = (case al_output s of None \<Rightarrow> [] | Some lf \<Rightarrow> lf_text lf)"

definition kept_text :: "async_log \<Rightarrow> string" where
  "kept_text s = (case al_output s of None \<Rightarrow> [] | Some lf \<Rightarrow> lf_kept lf)"

definition logged :: "async_log \<Rightarrow> string" where
  "logged s = file_text s @ buf_text (al_toWrite s) @ buf_text (al_buffers s) @ opt_text (al_current s)"

text \<open>The line an operation logs: a line that does not fit in a whole buffer is dropped.\<close>

fun op_line :: "nat \<Rightarrow> async_op \<Rightarrow> string" where
  "op_line cap (LogAppend line) = (if length line < cap then line else [])"
| "op_line cap _ = []"

text \<open>
  How the class is used: started once, stopped once and after that; time is positive. The last
  condition says that the logging thread keeps up: no more than 25 buffers wait to be written.
\<close>

fun async_legal :: "async_op \<Rightarrow> async_log \<Rightarrow> bool" where
  "async_legal (LogAppend line) s = True"
| "async_legal LogStart s = (al_pc s = NotStarted)"
| "async_legal LogStop s = (al_pc s \<noteq> NotStarted \<and> \<not> al_joined s)"
| "async_legal LogDestroy s = (al_running s \<longrightarrow> al_pc s \<noteq> NotStarted \<and> \<not> al_joined s)"
| "async_legal (LogThread now stamp) s = (0 < now)"

fun keeps_up :: "async_op \<Rightarrow> async_log \<Rightarrow> bool" where
  "keeps_up (LogThread now stamp) s = (al_pc s = AtWrite \<longrightarrow> length (al_toWrite s) \<le> 25)"
| "keeps_up _ s = True"

lemma zeroed_spare: "length junk = cap \<Longrightarrow> 0 < cap \<Longrightarrow> spare_ok cap (zeroed_buffer junk)"
  by (simp add: zeroed_buffer_def spare_ok_def fb_ok_def new_fixed_buffer_def fb_bzero_def)

lemma fresh_spare: "length junk = cap \<Longrightarrow> 0 < cap \<Longrightarrow> spare_ok cap (new_fixed_buffer junk)"
  by (simp add: spare_ok_def fb_ok_def new_fixed_buffer_def)

lemma reset_spare: "fb_ok cap b \<Longrightarrow> spare_ok cap (fb_reset b)"
  by (auto simp: spare_ok_def fb_ok_def fb_reset_def)

lemma spare_text: "spare_ok cap b \<Longrightarrow> fb_toString b = []"
  by (simp add: spare_ok_def fb_toString_def fb_length_def)

lemma buf_text_simps [simp]: "buf_text [] = []" "buf_text (xs @ ys) = buf_text xs @ buf_text ys" "buf_text [b] = fb_toString b"
  by (simp_all add: buf_text_def)

lemma new_async_ok:
  assumes "length junk = cap" "0 < cap"
  shows "async_ok cap (new_async junk basename rollSize fi)" "logged (new_async junk basename rollSize fi) = []"
  using zeroed_spare [OF assms] spare_text
  by (auto simp: new_async_def async_ok_def front_ok_def back_ok_def logged_def file_text_def opt_text_def spare_ok_def)

section \<open>Every step keeps the invariant\<close>

lemma fb_append_spare:
  assumes "spare_ok cap b"
  shows "\<exists>b'. fb_append line (int (length line)) b = Inr b' \<and> fb_ok cap b' \<and> fb_toString b' = (if length line < cap then line else [])"
  using fb_append_ok [of cap b "length line" line] assms spare_text [OF assms]
  by (auto simp: spare_ok_def)

lemma async_append_ok:
  assumes ok: "async_ok cap s" and junk: "length junk = cap" "0 < cap"
  shows "\<exists>s'. async_append junk line s = Inr s' \<and> async_ok cap s' \<and> logged s' = logged s @ op_line cap (LogAppend line)"
proof -
  obtain cur where cur: "al_current s = Some cur" "fb_ok cap cur" using ok by (auto simp: async_ok_def front_ok_def dest!: has_E)
  show ?thesis
  proof (cases "int (fb_avail cur) > int (length line)")
    case True
    then obtain b' where b': "fb_append line (int (length line)) cur = Inr b'" "fb_ok cap b'" "fb_toString b' = fb_toString cur @ line"
      using fb_append_fits [OF cur(2)] by auto
    moreover have "length line < cap" using True cur(2) by (auto simp: fb_avail_def fb_ok_def)
    ultimately show ?thesis using ok True cur
      by (auto simp: async_append_def deref_def async_ok_def front_ok_def back_ok_def logged_def file_text_def opt_text_def
          split: log_pc.splits)
  next
    case False
    define nxt where "nxt = (case al_next s of Some b \<Rightarrow> b | None \<Rightarrow> new_fixed_buffer junk)"
    have nxt: "spare_ok cap nxt" using ok fresh_spare [OF junk] by (auto simp: nxt_def async_ok_def front_ok_def split: option.splits)
    obtain b' where b': "fb_append line (int (length line)) nxt = Inr b'" "fb_ok cap b'" "fb_toString b' = (if length line < cap then line else [])"
      using fb_append_spare [OF nxt] by blast
    have "async_append junk line s = Inr (s\<lparr>al_current := Some b', al_next := None, al_buffers := al_buffers s @ [cur]\<rparr>)"
      using False cur b'(1) by (cases "al_next s") (auto simp: async_append_def deref_def nxt_def Let_def)
    then show ?thesis using ok cur b'
      by (auto simp: async_ok_def front_ok_def back_ok_def logged_def file_text_def opt_text_def split: log_pc.splits)
  qed
qed

lemma async_start_ok:
  assumes "async_ok cap s" "al_pc s = NotStarted"
  shows "\<exists>s'. async_start s = Inr s' \<and> async_ok cap s' \<and> logged s' = logged s"
  using assms by (simp add: async_start_def Let_def async_ok_def front_ok_def back_ok_def logged_def file_text_def)

lemma async_stop_ok:
  assumes "async_ok cap s" "al_pc s \<noteq> NotStarted" "\<not> al_joined s"
  shows "\<exists>s'. async_stop s = Inr s' \<and> async_ok cap s' \<and> logged s' = logged s"
  using assms
  by (auto simp: async_stop_def Let_def async_ok_def front_ok_def back_ok_def logged_def file_text_def split: log_pc.splits)

lemma thread_entry_ok:
  assumes "async_ok cap s" "al_pc s = Entry" "env_writes E" "0 < now" "length junk = cap" "0 < cap"
  shows "\<exists>s'. thread_entry E junk now s = Inr s' \<and> async_ok cap s' \<and> logged s' = logged s"
proof -
  obtain lf where "new_log_file E now (al_basename s) (al_rollSize s) 3 = Inr lf" "lf_ok lf" "lf_text lf = []" "lf_kept lf = []"
    using new_log_file_ok [OF assms(3,4)] by blast
  then show ?thesis using assms zeroed_spare [OF assms(5,6)]
    by (simp add: thread_entry_def async_ok_def front_ok_def back_ok_def logged_def file_text_def)
qed

lemma thread_check_ok:
  assumes "async_ok cap s" "al_pc s = AtCheck"
  shows "\<exists>s'. thread_check s = Inr s' \<and> async_ok cap s' \<and> logged s' = logged s \<and>
    al_pc s' = (if al_running s then AtSwap else Exited) \<and> file_text s' = file_text s"
proof -
  obtain lf where "al_output s = Some lf" "lf_ok lf" using assms by (auto simp: async_ok_def back_ok_def dest!: has_E)
  with lf_flush_ok obtain lf' where "al_output s = Some lf" "lf_flush lf = Inr lf'" "lf_ok lf'" "lf_text lf' = lf_text lf" "lf_kept lf' = lf_text lf"
    by blast
  with assms show ?thesis
  by (auto simp: thread_check_def async_ok_def front_ok_def back_ok_def logged_def file_text_def empty_buffer_def
      spare_ok_def fb_length_def deref_def dest!: has_E)
qed

lemma thread_swap_ok:
  assumes "async_ok cap s" "al_pc s = AtSwap"
  shows "\<exists>s'. thread_swap s = Inr s' \<and> async_ok cap s' \<and> logged s' = logged s"
proof -
  obtain cur b1 b2 where "al_current s = Some cur" "fb_ok cap cur" "al_new1 s = Some b1" "spare_ok cap b1" "al_new2 s = Some b2" "spare_ok cap b2"
    using assms by (auto simp: async_ok_def front_ok_def back_ok_def dest!: has_E)
  then show ?thesis using assms spare_text [of cap b1]
    by (auto simp: thread_swap_def deref_def Let_def async_ok_def front_ok_def back_ok_def logged_def file_text_def opt_text_def
        spare_ok_def Suc_le_eq)
qed

lemma lf_append_buffers:
  assumes "env_writes E" "lf_ok lf"
  shows "\<exists>lf'. rfold (\<lambda>b. lf_append E now (fb_toString b)) bs lf = Inr lf' \<and> lf_ok lf' \<and> lf_text lf' = lf_text lf @ buf_text bs"
proof -
  have "rfold (\<lambda>b. lf_append E now (fb_toString b)) bs lf =
      rfold (\<lambda>(now, line). lf_append E now line) (map (\<lambda>b. (now, fb_toString b)) bs) lf" for lf
  proof (induction bs arbitrary: lf)
    case (Cons b bs)
    then show ?case by (cases "lf_append E now (fb_toString b) lf") auto
  qed simp
  then show ?thesis
    using lf_append_list [OF assms, of "map (\<lambda>b. (now, fb_toString b)) bs"] by (auto simp: buf_text_def comp_def)
qed

text \<open>Without a backlog the buffers are written whole; with one, only the first two are.\<close>

lemma write_buffers_ok:
  assumes "env_writes E" "lf_ok lf"
  shows "\<exists>lf'. write_buffers E now stamp bs lf = Inr (if length bs > 25 then take 2 bs else bs, lf') \<and> lf_ok lf' \<and>
    lf_text lf' = lf_text lf @ (if length bs > 25 then dropped_line stamp (length bs - 2) @ buf_text (take 2 bs) else buf_text bs)"
proof (cases "length bs > 25")
  case True
  obtain lf1 where lf1: "lf_append E now (dropped_line stamp (length bs - 2)) lf = Inr lf1" "lf_ok lf1"
    "lf_text lf1 = lf_text lf @ dropped_line stamp (length bs - 2)"
    using lf_append_ok [OF assms] by blast
  then show ?thesis using True lf_append_buffers [OF assms(1) lf1(2), of now "take 2 bs"] by (auto simp: write_buffers_def)
next
  case False
  then show ?thesis using lf_append_buffers [OF assms, of now bs] by (auto simp: write_buffers_def)
qed

lemma list_all_last: "list_all P xs \<Longrightarrow> xs \<noteq> [] \<Longrightarrow> P (last xs)"
  by (auto simp: list_all_iff)

lemma refill_two:
  assumes "list_all (fb_ok cap) bs" "bs \<noteq> []" "new2 = None \<longrightarrow> 2 \<le> length bs" "opt_all (spare_ok cap) new2"
  shows "\<exists>b1 bs1 b2 bs2. refill None bs = Inr (Some b1, bs1) \<and> spare_ok cap b1 \<and>
     refill new2 bs1 = Inr (Some b2, bs2) \<and> spare_ok cap b2"
proof -
  have 1: "refill None bs = Inr (Some (fb_reset (last bs)), butlast bs)" "spare_ok cap (fb_reset (last bs))"
    using assms(1,2) by (auto simp: refill_def intro: reset_spare list_all_last)
  show ?thesis
  proof (cases new2)
    case None
    then have ne: "butlast bs \<noteq> []" using assms(3) by (cases bs rule: rev_cases) auto
    have "list_all (fb_ok cap) (butlast bs)" using assms(1) by (auto simp: list_all_iff dest: in_set_butlastD)
    then have "spare_ok cap (fb_reset (last (butlast bs)))" by (rule reset_spare [OF list_all_last [OF _ ne]])
    then show ?thesis using 1 None ne by (auto simp: refill_def)
  next
    case (Some b)
    then show ?thesis using 1 assms(4) by (auto simp: refill_def)
  qed
qed

lemma thread_write_ok:
  assumes ok: "async_ok cap s" and pc: "al_pc s = AtWrite" and E: "env_writes E"
  shows "\<exists>s'. thread_write E now stamp s = Inr s' \<and> async_ok cap s' \<and>
     (length (al_toWrite s) \<le> 25 \<longrightarrow> logged s' = logged s)"
proof -
  obtain lf where lf: "al_output s = Some lf" "lf_ok lf" and tw: "list_all (fb_ok cap) (al_toWrite s)" "al_toWrite s \<noteq> []"
      "al_new2 s = None \<longrightarrow> 2 \<le> length (al_toWrite s)"
    and new: "al_new1 s = None" "opt_all (spare_ok cap) (al_new2 s)"
    using ok pc by (auto simp: async_ok_def back_ok_def dest!: has_E)
  define bs where "bs = (if length (al_toWrite s) > 25 then take 2 (al_toWrite s) else al_toWrite s)"
  obtain lf' where lf': "write_buffers E now stamp (al_toWrite s) lf = Inr (bs, lf')" "lf_ok lf'"
     "length (al_toWrite s) \<le> 25 \<longrightarrow> lf_text lf' = lf_text lf @ buf_text (al_toWrite s)"
    using write_buffers_ok [OF E lf(2), of now stamp "al_toWrite s"] by (auto simp: bs_def)
  have all: "list_all (fb_ok cap) (take 2 bs)" using tw(1) by (auto simp: bs_def list_all_iff dest: in_set_takeD)
  have ne: "take 2 bs \<noteq> []" "al_new2 s = None \<longrightarrow> 2 \<le> length (take 2 bs)" using tw(2,3) by (auto simp: bs_def)
  obtain b1 bs1 b2 bs2 where r: "refill None (take 2 bs) = Inr (Some b1, bs1)" "spare_ok cap b1"
     "refill (al_new2 s) bs1 = Inr (Some b2, bs2)" "spare_ok cap b2"
    using refill_two [OF all ne new(2)] by (elim exE conjE) rule
  obtain lf'' where lf'': "lf_flush lf' = Inr lf''" "lf_ok lf''" "lf_text lf'' = lf_text lf'" "lf_kept lf'' = lf_text lf'"
    using lf_flush_ok [OF lf'(2)] by blast
  have "thread_write E now stamp s =
     Inr (s\<lparr>al_output := Some lf'', al_new1 := Some b1, al_new2 := Some b2, al_toWrite := [], al_pc := AtCheck\<rparr>)"
    using tw(2) lf(1) lf'(1) lf''(1) r(1,3) new(1) by (simp add: thread_write_def deref_def)
  then show ?thesis using ok lf lf' lf'' r
    by (auto simp: async_ok_def front_ok_def back_ok_def logged_def file_text_def)
qed

lemma threadFunc_step_ok:
  assumes "async_ok cap s" "env_writes E" "0 < now" "length junk = cap" "0 < cap"
  shows "\<exists>s'. threadFunc_step E junk now stamp s = Inr s' \<and> async_ok cap s' \<and>
     (keeps_up (LogThread now stamp) s \<longrightarrow> logged s' = logged s)"
  using assms thread_entry_ok [OF assms(1) _ assms(2-5)] thread_check_ok [OF assms(1)] thread_swap_ok [OF assms(1)]
    thread_write_ok [OF assms(1) _ assms(2), of now stamp]
  by (cases "al_pc s") (auto simp: threadFunc_step_def)

lemma async_step_ok:
  assumes "env_writes E" "length junk = cap" "0 < cap" "async_ok cap s" "async_legal op s"
  shows "\<exists>s'. async_step E junk op s = Inr s' \<and> async_ok cap s' \<and>
     (keeps_up op s \<longrightarrow> logged s' = logged s @ op_line cap op)"
proof (cases op)
  case (LogAppend line)
  then show ?thesis using async_append_ok [OF assms(4,2,3)] by auto
next
  case (LogThread now stamp)
  then show ?thesis using threadFunc_step_ok [OF assms(4,1) _ assms(2,3), of now stamp] assms(5) by auto
next
  case LogDestroy
  then show ?thesis using assms(4,5) async_stop_ok [OF assms(4)] by (auto simp: async_destruct_def)
qed (use assms async_start_ok async_stop_ok in auto)

interpretation alm: safe_machine "async_step E junk"
  "\<lambda>op s. (env_writes E \<and> length junk = cap \<and> 0 < cap) \<and> async_legal op s" "async_ok cap" "{}"
  for E junk cap
proof unfold_locales
  fix s op
  assume "async_ok cap s" "(env_writes E \<and> length junk = cap \<and> 0 < cap) \<and> async_legal op s"
  then show "ok_or {} (async_ok cap) (async_step E junk op s)"
    using async_step_ok [of E junk cap s op] by (auto simp: ok_or_total)
qed

interpretation alr: refining_machine "async_step E junk"
  "\<lambda>op s. (env_writes E \<and> length junk = cap \<and> 0 < cap) \<and> async_legal op s \<and> keeps_up op s" "async_ok cap" "{}"
  logged "\<lambda>op acc. acc @ op_line cap op"
  for E junk cap
proof unfold_locales
  fix s op s'
  assume ok: "async_ok cap s" and legal: "(env_writes E \<and> length junk = cap \<and> 0 < cap) \<and> async_legal op s \<and> keeps_up op s"
  then obtain t where t: "async_step E junk op s = Inr t" "async_ok cap t" "logged t = logged s @ op_line cap op"
    using async_step_ok [of E junk cap s op] by blast
  then show "ok_or {} (async_ok cap) (async_step E junk op s)" by simp
  show "logged s' = logged s @ op_line cap op" if "async_step E junk op s = Inr s'" using that t by simp
qed

lemma exited_forever:
  "al_pc s = Exited \<Longrightarrow> async_step E junk op s = Inr s' \<Longrightarrow> al_pc s' = Exited \<and> file_text s' = file_text s"
  by (cases op) (auto simp: async_append_def async_start_def async_stop_def async_destruct_def threadFunc_step_def deref_def Let_def file_text_def
      res_simps split: option.splits if_splits)

lemma exited_run:
  "al_pc s = Exited \<Longrightarrow> rfold (async_step E junk) ops s = Inr s' \<Longrightarrow> file_text s' = file_text s"
proof (induction ops arbitrary: s)
  case (Cons op ops)
  then obtain t where t: "async_step E junk op s = Inr t" "rfold (async_step E junk) ops t = Inr s'" by (auto simp: rbind_Inr_iff)
  then show ?case using exited_forever [OF Cons.prems(1) t(1)] Cons.IH [OF _ t(2)] by simp
qed simp

lemma async_run_logged:
  assumes "env_writes E" "length junk = cap" "0 < cap"
    and "run_legal (\<lambda>op s. async_legal op s \<and> keeps_up op s) (async_step E junk) ops (new_async junk basename rollSize fi)"
  shows "\<exists>s. rfold (async_step E junk) ops (new_async junk basename rollSize fi) = Inr s \<and> async_ok cap s \<and>
     logged s = concat (map (op_line cap) ops)"
proof -
  have "run_legal (\<lambda>op s. (env_writes E \<and> length junk = cap \<and> 0 < cap) \<and> async_legal op s \<and> keeps_up op s) (async_step E junk) ops
      (new_async junk basename rollSize fi)"
    using assms by (intro run_legal_conj) auto
  from alr.run_refines_total [OF refl new_async_ok(1) [OF assms(2,3)] this]
  show ?thesis using new_async_ok(2) [OF assms(2,3)] by (auto simp: fold_append_concat)
qed

text \<open>Outside of a write everything in the files has been flushed.\<close>

lemma async_ok_kept: "async_ok cap s \<Longrightarrow> al_pc s \<noteq> AtWrite \<Longrightarrow> kept_text s = file_text s"
  by (cases "al_pc s") (auto simp: async_ok_def back_ok_def kept_text_def file_text_def dest!: has_E)

section \<open>Properties\<close>

text \<open>
  However appends, \<open>start\<close>, \<open>stop\<close> and the logging thread interleave, and however large the
  backlog, no assertion of the logging thread fails, no empty pointer is dereferenced and no buffer
  is written outside its bounds: there is always a current buffer, and the thread always gets back
  two empty spare buffers.
\<close>

theorem async_safe:
  assumes "env_writes E" "length junk = cap" "0 < cap"
    and "run_legal async_legal (async_step E junk) ops (new_async junk basename rollSize fi)"
  shows "\<exists>s. rfold (async_step E junk) ops (new_async junk basename rollSize fi) = Inr s \<and> async_ok cap s"
proof -
  have "run_legal (\<lambda>op s. (env_writes E \<and> length junk = cap \<and> 0 < cap) \<and> async_legal op s) (async_step E junk) ops
      (new_async junk basename rollSize fi)"
    using assms by (intro run_legal_conj) auto
  from alm.run_safe [OF new_async_ok(1) [OF assms(2,3)] this] show ?thesis by (simp add: ok_or_total)
qed

text \<open>
  C12: as long as the logging thread keeps up, no line is lost, cut or reordered: what is in the
  files, followed by what the buffers hold, is the concatenation of the lines logged so far. A line
  as long as a buffer is the one exception: it is dropped whole. What is in the files has been
  flushed whenever the logging thread is not writing.
\<close>

theorem async_no_loss:
  assumes "env_writes E" "length junk = cap" "0 < cap"
    and "run_legal (\<lambda>op s. async_legal op s \<and> keeps_up op s) (async_step E junk) ops (new_async junk basename rollSize fi)"
  shows "\<exists>s. rfold (async_step E junk) ops (new_async junk basename rollSize fi) = Inr s \<and>
     logged s = concat (map (op_line cap) ops) \<and> (al_pc s \<noteq> AtWrite \<longrightarrow> kept_text s = file_text s)"
  using async_run_logged [OF assms] async_ok_kept by blast

text \<open>
  \<open>stop\<close> loses lines. A line logged after the last swap and before \<open>stop\<close> stays in the
  buffers: the loop ends on its condition without a last swap, and whatever happens afterwards the
  file does not get the line.
\<close>

theorem async_stop_loses_tail:
  assumes "env_writes E" "length junk = cap" "length line < cap" "0 < now"
  shows "\<exists>s. rfold (async_step E junk) [LogStart, LogThread now stamp, LogAppend line, LogStop, LogThread now stamp]
       (new_async junk basename rollSize fi) = Inr s \<and> al_pc s = Exited \<and> logged s = line \<and>
     (\<forall>ops s'. rfold (async_step E junk) ops s = Inr s' \<longrightarrow> file_text s' = [])"
proof -
  define s0 where "s0 = new_async junk basename rollSize fi"
  obtain lf where lf: "new_log_file E now basename rollSize 3 = Inr lf" "lf_text lf = []" "lf_ok lf"
    using new_log_file_ok [OF assms(1,4)] by blast
  obtain lf' where lf': "lf_flush lf = Inr lf'" "lf_text lf' = []" using lf_flush_ok [OF lf(3)] lf(2) by auto
  have spare: "spare_ok cap (zeroed_buffer junk)" using assms(2,3) by (intro zeroed_spare) auto
  then have "length line < fb_avail (zeroed_buffer junk)" using assms(3) by (auto simp: spare_ok_def fb_ok_def fb_avail_def)
  moreover obtain b where b: "fb_append line (int (length line)) (zeroed_buffer junk) = Inr b" "fb_toString b = line"
    using fb_append_spare [OF spare, of line] assms(3) by auto
  ultimately have "\<exists>s. rfold (async_step E junk) [LogStart, LogThread now stamp, LogAppend line, LogStop, LogThread now stamp] s0 = Inr s \<and>
      al_pc s = Exited \<and> logged s = line \<and> file_text s = []"
    using lf lf' by (simp add: s0_def new_async_def async_start_def threadFunc_step_def thread_entry_def async_append_def deref_def
        async_stop_def thread_check_def logged_def file_text_def opt_text_def Let_def)
  then obtain s where s: "rfold (async_step E junk) [LogStart, LogThread now stamp, LogAppend line, LogStop, LogThread now stamp] s0 = Inr s"
    "al_pc s = Exited" "logged s = line" "file_text s = []"
    by (elim exE conjE) rule
  moreover have "\<forall>ops s'. rfold (async_step E junk) ops s = Inr s' \<longrightarrow> file_text s' = []"
    using exited_run [OF s(2)] s(4) by simp
  ultimately show ?thesis unfolding s0_def by (intro exI [of _ s] conjI)
qed

definition small_junk :: string where
  "small_junk = ''????????''"

definition async_sample :: "async_op list" where
  "async_sample = [LogStart, LogThread 1 ''t'', LogAppend ''abcdef'', LogAppend ''ghi'', LogThread 2 ''t'', LogThread 2 ''t'',
     LogThread 2 ''t'', LogAppend ''j'', LogStop]"

lemma async_sample_legal:
  "run_legal (\<lambda>op s. async_legal op s \<and> keeps_up op s) (async_step slow_env small_junk) async_sample
     (new_async small_junk ''log'' 100 3)"
  by code_simp

theorem async_safe_witness:
  "\<exists>s. rfold (async_step slow_env small_junk) async_sample (new_async small_junk ''log'' 100 3) = Inr s \<and> async_ok 8 s"
proof -
  have "run_legal async_legal (async_step slow_env small_junk) async_sample (new_async small_junk ''log'' 100 3)" by code_simp
  then show ?thesis using async_safe [OF slow_env_writes, of small_junk 8 async_sample "''log''" 100 3] by (simp add: small_junk_def)
qed

theorem async_no_loss_witness:
  "\<exists>s. rfold (async_step slow_env small_junk) async_sample (new_async small_junk ''log'' 100 3) = Inr s \<and> logged s = ''abcdefghij''"
  using async_no_loss [OF slow_env_writes _ _ async_sample_legal, of 8] by (auto simp: small_junk_def async_sample_def)

theorem async_stop_loses_tail_witness:
  "\<exists>s. rfold (async_step slow_env small_junk) [LogStart, LogThread 1 ''t'', LogAppend ''abc'', LogStop, LogThread 1 ''t'']
       (new_async small_junk ''log'' 100 3) = Inr s \<and> logged s = ''abc'' \<and> file_text s = []"
  using async_stop_loses_tail [OF slow_env_writes, of small_junk 8 "''abc''" 1 "''t''" "''log''" 100 3]
  by (auto simp: small_junk_def dest: spec [of _ "[]"])

end
