(* ===== verification/Threads.thy ===== *)
theory Threads
  imports SafeRun
begin

text \<open>
  \<open>class CountDownLatch\<close> (\<open>base/CountDownLatch.h\<close>, \<open>base/CountDownLatch.cc\<close>) and \<open>class Thread\<close>
  (\<open>base/Thread.h\<close>, \<open>base/Thread.cc\<close>). A mutex makes each stretch of code between two waits one
  step. A thread that waits on a condition variable is asleep until it is woken, by a notification
  or spuriously, and then takes the mutex again and tests its condition once more.
\<close>

section \<open>CountDownLatch\<close>

text \<open>Besides the count: how many threads sleep in \<open>wait\<close>, were woken there, and returned from it.\<close>

record latch =
  la_count :: int
  la_waiting :: nat
  la_woken :: nat
  la_released :: nat

definition new_latch :: "int \<Rightarrow> latch" where
  "new_latch count = \<lparr>la_count = count, la_waiting = 0, la_woken = 0, la_released = 0\<rparr>"

text \<open>The loop of \<open>wait\<close>, each time with the mutex held.\<close>

definition latch_test :: "latch \<Rightarrow> latch" where
  "latch_test l = (if la_count l > 0 then l\<lparr>la_waiting := la_waiting l + 1\<rparr> else l\<lparr>la_released := la_released l + 1\<rparr>)"

definition latch_wake :: "latch \<Rightarrow> latch" where
  "latch_wake l = latch_test (l\<lparr>la_woken := la_woken l - 1\<rparr>)"

definition latch_spurious :: "latch \<Rightarrow> latch" where
  "latch_spurious l = l\<lparr>la_waiting := la_waiting l - 1, la_woken := la_woken l + 1\<rparr>"

definition countDown :: "latch \<Rightarrow> latch" where
  "countDown l =
     (let l1 = l\<lparr>la_count := la_count l - 1\<rparr>
      in if la_count l1 = 0 then l1\<lparr>la_waiting := 0, la_woken := la_woken l1 + la_waiting l1\<rparr> else l1)"

definition getCount :: "latch \<Rightarrow> int" where
  "getCount l = la_count l"

datatype latch_op = LatchWait | LatchWake | LatchSpurious | LatchCountDown

fun latch_step :: "latch_op \<Rightarrow> latch \<Rightarrow> latch res" where
  "latch_step LatchWait l = Inr (latch_test l)"
| "latch_step LatchWake l = Inr (latch_wake l)"
| "latch_step LatchSpurious l = Inr (latch_spurious l)"
| "latch_step LatchCountDown l = Inr (countDown l)"

fun latch_legal :: "latch_op \<Rightarrow> latch \<Rightarrow> bool" where
  "latch_legal LatchWake l = (0 < la_woken l)"
| "latch_legal LatchSpurious l = (0 < la_waiting l)"
| "latch_legal _ l = True"

section \<open>Thread\<close>

text \<open>Where the new thread is: not created, created, past its id, past the latch, returned.\<close>

datatype thread_pc = NotCreated | Created | TidSet | InFunc | Returned

record thread =
  th_started :: bool
  th_joined :: bool
  th_tid :: int
  th_latch :: latch
  th_pc :: thread_pc

definition new_thread :: thread where
  "new_thread = \<lparr>th_started = False, th_joined = False, th_tid = 0, th_latch = new_latch 1, th_pc = NotCreated\<rparr>"

text \<open>\<open>created\<close> is whether \<open>pthread_create\<close> succeeds. The caller then waits on the latch.\<close>

definition thread_start :: "bool \<Rightarrow> thread \<Rightarrow> thread res" where
  "thread_start created th =
     assertm (\<not> th_started th)
       (let th1 = th\<lparr>th_started := True\<rparr>
        in Inr (if created then th1\<lparr>th_pc := Created, th_latch := latch_test (th_latch th1)\<rparr> else th1))"

definition thread_join :: "thread \<Rightarrow> thread res" where
  "thread_join th = assertm (th_started th) (assertm (\<not> th_joined th) (Inr (th\<lparr>th_joined := True\<rparr>)))"

text \<open>The destructor detaches a thread that nobody joined; the result tells whether it does.\<close>

definition thread_detaches :: "thread \<Rightarrow> bool" where
  "thread_detaches th \<longleftrightarrow> th_started th \<and> \<not> th_joined th"

text \<open>
  \<open>runInThread\<close> in three steps: the id, the latch, the function. An exception out of the function
  ends the process: \<open>abort\<close>, or \<open>std::terminate\<close> for one that is thrown again.
\<close>

definition run_tid :: "int \<Rightarrow> thread \<Rightarrow> thread" where
  "run_tid tid th = th\<lparr>th_tid := tid, th_pc := TidSet\<rparr>"

definition run_latch :: "thread \<Rightarrow> thread" where
  "run_latch th = th\<lparr>th_latch := countDown (th_latch th), th_pc := InFunc\<rparr>"

definition run_func :: "bool \<Rightarrow> thread \<Rightarrow> thread res" where
  "run_func returns th = (if returns then Inr (th\<lparr>th_pc := Returned\<rparr>) else Inl Aborts)"

datatype thread_op =
    ThStart bool | ThWake | ThSpurious | ThJoin
  | ThTid int | ThCountDown | ThFunc bool

fun thread_step :: "thread_op \<Rightarrow> thread \<Rightarrow> thread res" where
  "thread_step (ThStart created) th = thread_start created th"
| "thread_step ThWake th = Inr (th\<lparr>th_latch := latch_wake (th_latch th)\<rparr>)"
| "thread_step ThSpurious th = Inr (th\<lparr>th_latch := latch_spurious (th_latch th)\<rparr>)"
| "thread_step ThJoin th = thread_join th"
| "thread_step (ThTid tid) th = Inr (run_tid tid th)"
| "thread_step ThCountDown th = Inr (run_latch th)"
| "thread_step (ThFunc returns) th = run_func returns th"

text \<open>The caller starts once and joins once after that; the new thread goes through its steps in order.\<close>

fun thread_legal :: "thread_op \<Rightarrow> thread \<Rightarrow> bool" where
  "thread_legal (ThStart created) th = (\<not> th_started th)"
| "thread_legal ThWake th = (0 < la_woken (th_latch th))"
| "thread_legal ThSpurious th = (0 < la_waiting (th_latch th))"
| "thread_legal ThJoin th = (th_started th \<and> \<not> th_joined th)"
| "thread_legal (ThTid tid) th = (th_pc th = Created \<and> 0 < tid)"
| "thread_legal ThCountDown th = (th_pc th = TidSet)"
| "thread_legal (ThFunc returns) th = (th_pc th = InFunc)"

section \<open>Lemmas\<close>

text \<open>Before zero nobody has passed; from zero on nobody sleeps.\<close>

definition latch_ok :: "latch \<Rightarrow> bool" where
  "latch_ok l \<longleftrightarrow> (0 < la_count l \<longrightarrow> la_released l = 0) \<and> (la_count l \<le> 0 \<longrightarrow> la_waiting l = 0)"

definition latch_threads :: "latch \<Rightarrow> nat" where
  "latch_threads l = la_waiting l + la_woken l + la_released l"

lemmas latch_defs = latch_test_def latch_wake_def latch_spurious_def countDown_def Let_def

lemma latch_test_ok: "latch_ok l \<Longrightarrow> latch_ok (latch_test l)"
  by (auto simp: latch_ok_def latch_test_def)

lemma countDown_ok: "latch_ok l \<Longrightarrow> latch_ok (countDown l)"
  by (auto simp: latch_ok_def countDown_def Let_def)

text \<open>What a latch stands for: the count, and the number of threads that called \<open>wait\<close>.\<close>

fun latch_spec :: "latch_op \<Rightarrow> int \<times> nat \<Rightarrow> int \<times> nat" where
  "latch_spec LatchWait (c, n) = (c, n + 1)"
| "latch_spec LatchCountDown (c, n) = (c - 1, n)"
| "latch_spec _ cn = cn"

interpretation ltm: refining_machine latch_step latch_legal latch_ok "{}" "\<lambda>l. (la_count l, latch_threads l)" latch_spec
proof unfold_locales
  fix l op l'
  assume "latch_ok l" "latch_legal op l"
  then show "ok_or {} latch_ok (latch_step op l)"
    by (cases op) (auto simp: latch_ok_def latch_defs)
  show "(la_count l', latch_threads l') = latch_spec op (la_count l, latch_threads l)" if "latch_step op l = Inr l'"
    using that \<open>latch_legal op l\<close> by (cases op) (auto simp: latch_defs latch_threads_def)
qed

lemma fold_latch_spec:
  "fold latch_spec ops (c, n) = (c - int (count_list ops LatchCountDown), n + count_list ops LatchWait)"
proof (induction ops arbitrary: c n)
  case (Cons op ops)
  then show ?case by (cases op) auto
qed simp

text \<open>The handshake of \<open>start\<close>: the latch opens exactly when the thread has stored its id.\<close>

definition thread_ok :: "thread \<Rightarrow> bool" where
  "thread_ok th \<longleftrightarrow> latch_ok (th_latch th) \<and> latch_threads (th_latch th) \<le> 1 \<and>
     (\<not> th_started th \<longrightarrow> th_pc th = NotCreated \<and> latch_threads (th_latch th) = 0) \<and>
     la_count (th_latch th) = (if th_pc th \<in> {InFunc, Returned} then 0 else 1) \<and>
     (th_pc th \<in> {TidSet, InFunc, Returned} \<longrightarrow> 0 < th_tid th)"

lemma new_thread_ok: "thread_ok new_thread"
  by (simp add: thread_ok_def new_thread_def new_latch_def latch_ok_def latch_threads_def)

interpretation thm_machine: safe_machine thread_step thread_legal thread_ok "{Aborts}"
proof unfold_locales
  fix th op
  assume ok: "thread_ok th" and legal: "thread_legal op th"
  show "ok_or {Aborts} thread_ok (thread_step op th)"
  proof (cases op)
    case (ThStart created)
    then show ?thesis using ok legal by (auto simp: thread_start_def thread_ok_def Let_def latch_ok_def latch_threads_def latch_test_def)
  next
    case ThWake
    then show ?thesis using ok legal by (auto simp: thread_ok_def latch_ok_def latch_threads_def latch_defs)
  next
    case ThSpurious
    then show ?thesis using ok legal by (auto simp: thread_ok_def latch_ok_def latch_threads_def latch_defs)
  next
    case ThCountDown
    then show ?thesis using ok legal by (auto simp: thread_ok_def run_latch_def latch_ok_def latch_threads_def latch_defs)
  qed (use ok legal in \<open>auto simp: thread_ok_def thread_join_def run_tid_def run_func_def\<close>)
qed

section \<open>Properties\<close>

text \<open>
  A latch of \<open>n\<close> lets no thread pass before \<open>n\<close> calls of \<open>countDown\<close>, and once they are made no
  thread stays asleep in \<open>wait\<close>, whatever the interleaving and however many spurious wake-ups:
  every thread that called \<open>wait\<close> has passed or was woken and will find the latch open.
\<close>

theorem latch_opens_at_zero:
  assumes "run_legal latch_legal latch_step ops (new_latch n)"
  shows "\<exists>l. rfold latch_step ops (new_latch n) = Inr l \<and>
     la_count l = n - int (count_list ops LatchCountDown) \<and> latch_threads l = count_list ops LatchWait \<and>
     (0 < la_count l \<longrightarrow> la_released l = 0) \<and> (la_count l \<le> 0 \<longrightarrow> la_waiting l = 0)"
proof -
  have "latch_ok (new_latch n)" by (simp add: latch_ok_def new_latch_def)
  from ltm.run_refines_total [OF refl this assms] obtain l where "rfold latch_step ops (new_latch n) = Inr l" "latch_ok l"
    "(la_count l, latch_threads l) = fold latch_spec ops (n, 0)"
    by (auto simp: new_latch_def latch_threads_def)
  then show ?thesis by (auto simp: fold_latch_spec latch_ok_def)
qed

text \<open>
  \<open>Thread::start\<close> is a handshake. When it has returned, the new thread has stored its id and is
  past the latch, and it never leaves the caller asleep once the thread is past the latch. No
  assertion fails; the only way out is an exception of the thread function, which ends the process.
\<close>

theorem thread_start_handshake:
  assumes "run_legal thread_legal thread_step ops new_thread"
  shows "rfold thread_step ops new_thread = Inl Aborts \<or>
     (\<exists>th. rfold thread_step ops new_thread = Inr th \<and>
        (0 < la_released (th_latch th) \<longrightarrow> 0 < th_tid th \<and> th_pc th \<in> {InFunc, Returned}) \<and>
        (th_pc th \<in> {InFunc, Returned} \<longrightarrow> la_waiting (th_latch th) = 0))"
proof (cases "rfold thread_step ops new_thread")
  case (Inl e)
  then show ?thesis using thm_machine.run_safe [OF new_thread_ok assms] by simp
next
  case (Inr th)
  then show ?thesis using thm_machine.run_safe [OF new_thread_ok assms]
    by (auto simp: thread_ok_def latch_ok_def split: if_splits)
qed

theorem latch_opens_at_zero_witness:
  "\<exists>l. rfold latch_step [LatchWait, LatchSpurious, LatchCountDown, LatchWake, LatchCountDown] (new_latch 2) = Inr l \<and>
     la_count l = 0 \<and> la_waiting l = 0 \<and> latch_threads l = 1"
proof -
  have "run_legal latch_legal latch_step [LatchWait, LatchSpurious, LatchCountDown, LatchWake, LatchCountDown] (new_latch 2)"
    by code_simp
  from latch_opens_at_zero [OF this] show ?thesis by auto
qed

theorem thread_start_handshake_witness:
  "\<exists>th. rfold thread_step [ThStart True, ThTid 7, ThCountDown, ThWake] new_thread = Inr th \<and>
     la_released (th_latch th) = 1 \<and> 0 < th_tid th"
proof -
  have "run_legal thread_legal thread_step [ThStart True, ThTid 7, ThCountDown, ThWake] new_thread" by code_simp
  moreover have "rfold thread_step [ThStart True, ThTid 7, ThCountDown, ThWake] new_thread =
      Inr \<lparr>th_started = True, th_joined = False, th_tid = 7,
           th_latch = \<lparr>la_count = 0, la_waiting = 0, la_woken = 0, la_released = 1\<rparr>, th_pc = InFunc\<rparr>"
    by (simp add: new_thread_def new_latch_def thread_start_def latch_defs run_tid_def run_latch_def)
  ultimately show ?thesis using thread_start_handshake [of "[ThStart True, ThTid 7, ThCountDown, ThWake]"] by simp
qed

end
