(* ===== verification/ThreadPool.thy ===== *)
theory ThreadPool
  imports Threads
begin

text \<open>
  \<open>class ThreadPool\<close> and its \<open>BlockingQueue\<close> (\<open>base/ThreadPool.h\<close>, \<open>base/ThreadPool.cc\<close>): worker
  threads take tasks from a bounded queue that any thread may put to. Each stretch of code under the
  mutex is one operation; sleeping on a condition variable, being woken and testing the condition
  again are steps of their own, and so is the unlocked test of \<open>running_\<close> in the worker loop.
  Tasks are numbers. \<open>tp_accepted\<close> and \<open>tp_taken\<close> record the order of all pushes and pops.
\<close>

section \<open>State\<close>

text \<open>
  The workers are counted by where they are: at the loop condition, on their way into \<open>take\<close>,
  asleep on \<open>notEmpty_\<close>, woken there, running a task, returned. The threads in \<open>put\<close> are given by
  the tasks they bring: asleep on \<open>notFull_\<close> or woken there. \<open>tp_stopping\<close> is the thread that a call of
  \<open>stop\<close> joins next, \<open>tp_dying\<close> that the call comes from the destructor, and \<open>tp_destroyed\<close> that the
  object is gone.
\<close>

record pool =
  tp_running :: bool
  tp_numThread :: int
  tp_threads :: "thread list"
  tp_maxQueueSize :: nat
  tp_queue :: "nat list"
  tp_bound :: bool
  tp_looping :: nat
  tp_entering :: nat
  tp_takers :: nat
  tp_woken :: nat
  tp_busy :: "nat list"
  tp_exited :: nat
  tp_putters :: "nat list"
  tp_wokenPutters :: "nat list"
  tp_stopping :: "nat option"
  tp_dying :: bool
  tp_destroyed :: bool
  tp_accepted :: "nat list"
  tp_taken :: "nat list"

text \<open>The size arrives as an \<open>int\<close> and is stored as a \<open>size_t\<close>; \<open>pool_\<close> is not yet set.\<close>

definition setMaxQueueSize :: "int \<Rightarrow> nat" where
  "setMaxQueueSize maxsize = nat (maxsize mod 2 ^ 64)"

definition new_pool :: "int \<Rightarrow> int \<Rightarrow> pool" where
  "new_pool numThread maxsize =
     \<lparr>tp_running = False, tp_numThread = numThread, tp_threads = [], tp_maxQueueSize = setMaxQueueSize maxsize,
      tp_queue = [], tp_bound = False, tp_looping = 0, tp_entering = 0, tp_takers = 0, tp_woken = 0,
      tp_busy = [], tp_exited = 0, tp_putters = [], tp_wokenPutters = [],
      tp_stopping = None, tp_dying = False, tp_destroyed = False, tp_accepted = [], tp_taken = []\<rparr>"

section \<open>The blocking queue\<close>

definition isFull :: "pool \<Rightarrow> bool" where
  "isFull s \<longleftrightarrow> length (tp_queue s) \<ge> tp_maxQueueSize s"

text \<open>Reading \<open>pool_->running_\<close>: before \<open>bind\<close> the pointer is not initialised.\<close>

definition pool_running :: "pool \<Rightarrow> bool res" where
  "pool_running s = (if tp_bound s then Inr (tp_running s) else Inl UseAfterFree)"

text \<open>\<open>notify\<close> wakes one sleeper if there is one; among the threads in \<open>put\<close> the system picks which.\<close>

definition notEmpty_notify :: "pool \<Rightarrow> pool" where
  "notEmpty_notify s = (if tp_takers s > 0 then s\<lparr>tp_takers := tp_takers s - 1, tp_woken := tp_woken s + 1\<rparr> else s)"

definition notFull_notify :: "nat \<Rightarrow> pool \<Rightarrow> pool" where
  "notFull_notify k s =
     (if tp_putters s = [] then s
      else let i = k mod length (tp_putters s)
           in s\<lparr>tp_putters := remove_nth i (tp_putters s), tp_wokenPutters := tp_wokenPutters s @ [tp_putters s ! i]\<rparr>)"

text \<open>\<open>put\<close> with the mutex held, up to its return or to the next wait.\<close>

definition pool_put :: "nat \<Rightarrow> pool \<Rightarrow> pool res" where
  "pool_put x s =
     rbind (if isFull s then pool_running s else Inr False) (\<lambda>waits.
     if waits then Inr (s\<lparr>tp_putters := tp_putters s @ [x]\<rparr>)
     else rbind (pool_running s) (\<lambda>running.
          if \<not> running then Inr s
          else Inr (notEmpty_notify (s\<lparr>tp_queue := tp_queue s @ [x], tp_accepted := tp_accepted s @ [x]\<rparr>))))"

text \<open>
  \<open>take\<close> with the mutex held: the worker sleeps, or goes back to its loop with no task, or runs the
  task at the front.
\<close>

definition pool_take :: "nat \<Rightarrow> pool \<Rightarrow> pool res" where
  "pool_take k s =
     rbind (if tp_queue s = [] then pool_running s else Inr False) (\<lambda>waits.
     if waits then Inr (s\<lparr>tp_takers := tp_takers s + 1\<rparr>)
     else rbind (pool_running s) (\<lambda>running.
          if \<not> running then Inr (s\<lparr>tp_looping := tp_looping s + 1\<rparr>)
          else case tp_queue s of
                 [] \<Rightarrow> Inl OutOfBounds
               | x # q \<Rightarrow> Inr (notFull_notify k (s\<lparr>tp_queue := q, tp_taken := tp_taken s @ [x],
                                                   tp_busy := tp_busy s @ [x]\<rparr>))))"

definition pool_notifyAll :: "bool \<Rightarrow> pool \<Rightarrow> pool res" where
  "pool_notifyAll stop s =
     rbind (if stop then rbind (pool_running s) (\<lambda>_. Inr (s\<lparr>tp_running := False\<rparr>)) else Inr s) (\<lambda>s1.
     Inr (s1\<lparr>tp_takers := 0, tp_woken := tp_woken s1 + tp_takers s1,
             tp_putters := [], tp_wokenPutters := tp_wokenPutters s1 @ tp_putters s1\<rparr>))"

definition pool_queueSize :: "pool \<Rightarrow> nat" where
  "pool_queueSize s = length (tp_queue s)"

section \<open>The pool\<close>

text \<open>
  \<open>start\<close>: thread \<open>i\<close> of the vector is started after one more was appended; \<open>created i\<close> is whether
  \<open>pthread_create\<close> succeeds for it, which \<open>Thread::start\<close> does not report. A negative number of
  threads makes \<open>reserve\<close> throw.
\<close>

definition start_worker :: "(nat \<Rightarrow> bool) \<Rightarrow> nat \<Rightarrow> pool \<Rightarrow> pool res" where
  "start_worker created i s =
     (let s1 = s\<lparr>tp_threads := tp_threads s @ [new_thread]\<rparr>
      in rbind (thread_start (created i) (tp_threads s1 ! i)) (\<lambda>th.
         Inr (s1\<lparr>tp_threads := (tp_threads s1)[i := th], tp_looping := tp_looping s1 + (if created i then 1 else 0)\<rparr>)))"

definition pool_start :: "(nat \<Rightarrow> bool) \<Rightarrow> pool \<Rightarrow> pool res" where
  "pool_start created s =
     assertm (\<not> tp_running s)
       (let s1 = s\<lparr>tp_running := True\<rparr> in
        if tp_numThread s1 < 0 then Inl LengthError
        else rfold (start_worker created) [0..<nat (tp_numThread s1)] (s1\<lparr>tp_bound := True\<rparr>))"

text \<open>
  \<open>stop\<close>: the notification, and then the joins one by one. \<open>pthread_join\<close> on a thread that was not
  created follows a null handle. After the last join a destructor that called \<open>stop\<close> ends the object.
\<close>

definition pool_stop :: "pool \<Rightarrow> pool res" where
  "pool_stop s = rbind (pool_notifyAll True s) (\<lambda>s1. Inr (s1\<lparr>tp_stopping := Some 0\<rparr>))"

definition join_worker :: "nat \<Rightarrow> pool \<Rightarrow> pool res" where
  "join_worker i s =
     rbind (thread_join (tp_threads s ! i)) (\<lambda>th.
     if th_pc th = NotCreated then Inl OutOfBounds else Inr (s\<lparr>tp_threads := (tp_threads s)[i := th]\<rparr>))"

definition pool_join :: "pool \<Rightarrow> pool res" where
  "pool_join s =
     (case tp_stopping s of
        None \<Rightarrow> Inr s
      | Some i \<Rightarrow>
          if i < length (tp_threads s)
          then rbind (join_worker i s) (\<lambda>s1. Inr (s1\<lparr>tp_stopping := Some (i + 1)\<rparr>))
          else Inr (s\<lparr>tp_stopping := None, tp_destroyed := tp_dying s\<rparr>))"

definition pool_destruct :: "pool \<Rightarrow> pool res" where
  "pool_destruct s =
     (if tp_running s then rbind (pool_stop s) (\<lambda>s1. Inr (s1\<lparr>tp_dying := True\<rparr>))
      else Inr (s\<lparr>tp_dying := True, tp_destroyed := True\<rparr>))"

definition pool_run :: "nat \<Rightarrow> pool \<Rightarrow> pool res" where
  "pool_run f s = pool_put f s"

text \<open>The worker loop: the test of \<open>running_\<close>, and the end of a task (an exception ends the process).\<close>

definition worker_test :: "pool \<Rightarrow> pool" where
  "worker_test s =
     (let s1 = s\<lparr>tp_looping := tp_looping s - 1\<rparr>
      in if tp_running s1 then s1\<lparr>tp_entering := tp_entering s1 + 1\<rparr> else s1\<lparr>tp_exited := tp_exited s1 + 1\<rparr>)"

definition worker_done :: "nat \<Rightarrow> bool \<Rightarrow> pool \<Rightarrow> pool res" where
  "worker_done i returns s =
     (if returns then Inr (s\<lparr>tp_busy := remove_nth i (tp_busy s), tp_looping := tp_looping s + 1\<rparr>) else Inl Aborts)"

section \<open>Runs\<close>

datatype pool_op =
    PoolStart "nat \<Rightarrow> bool"
  | PoolRun nat
  | PutWake nat
  | PutSpurious nat
  | PoolStop
  | PoolJoin
  | PoolDestroy
  | WorkerTest
  | TakeEnter nat
  | TakeWake nat
  | TakeSpurious
  | TaskDone nat

fun pool_act :: "pool_op \<Rightarrow> pool \<Rightarrow> pool res" where
  "pool_act (PoolStart created) s = pool_start created s"
| "pool_act (PoolRun x) s = pool_run x s"
| "pool_act (PutWake i) s = pool_put (tp_wokenPutters s ! i) (s\<lparr>tp_wokenPutters := remove_nth i (tp_wokenPutters s)\<rparr>)"
| "pool_act (PutSpurious i) s = Inr (notFull_notify i s)"
| "pool_act PoolStop s = pool_stop s"
| "pool_act PoolJoin s = pool_join s"
| "pool_act PoolDestroy s = pool_destruct s"
| "pool_act WorkerTest s = Inr (worker_test s)"
| "pool_act (TakeEnter k) s = pool_take k (s\<lparr>tp_entering := tp_entering s - 1\<rparr>)"
| "pool_act (TakeWake k) s = pool_take k (s\<lparr>tp_woken := tp_woken s - 1\<rparr>)"
| "pool_act TakeSpurious s = Inr (notEmpty_notify s)"
| "pool_act (TaskDone i) s = worker_done i True s"

definition pool_step :: "pool_op \<Rightarrow> pool \<Rightarrow> pool res" where
  "pool_step op s = (if tp_destroyed s then Inl UseAfterFree else pool_act op s)"

text \<open>
  How the pool has to be used: it is started once, with a number of threads that is not negative
  and that the system grants; it is used after that; it is stopped once, by \<open>stop\<close> or by the
  destructor; it is destroyed when nobody is in \<open>put\<close> or \<open>stop\<close> and not used any more. The other steps
  are taken by threads that are at that point; a join returns when that thread has (the workers are
  only counted, so that thread \<open>i\<close> has returned only if more than \<open>i\<close> have).
\<close>

fun pool_legal :: "pool_op \<Rightarrow> pool \<Rightarrow> bool" where
  "pool_legal (PoolStart created) s =
     (\<not> tp_bound s \<and> \<not> tp_destroyed s \<and> 0 \<le> tp_numThread s \<and> list_all created [0..<nat (tp_numThread s)])"
| "pool_legal (PoolRun x) s = (tp_bound s \<and> \<not> tp_dying s)"
| "pool_legal (PutWake i) s = (i < length (tp_wokenPutters s))"
| "pool_legal (PutSpurious i) s = (\<not> tp_destroyed s)"
| "pool_legal PoolStop s = (tp_running s \<and> \<not> tp_dying s)"
| "pool_legal PoolJoin s = (case tp_stopping s of None \<Rightarrow> False | Some i \<Rightarrow> i < tp_exited s \<or> i = length (tp_threads s))"
| "pool_legal PoolDestroy s =
     (\<not> tp_dying s \<and> tp_stopping s = None \<and> tp_putters s = [] \<and> tp_wokenPutters s = [])"
| "pool_legal WorkerTest s = (0 < tp_looping s)"
| "pool_legal (TakeEnter k) s = (0 < tp_entering s)"
| "pool_legal (TakeWake k) s = (0 < tp_woken s)"
| "pool_legal TakeSpurious s = (\<not> tp_destroyed s)"
| "pool_legal (TaskDone i) s = (i < length (tp_busy s))"

section \<open>The invariant\<close>

definition pool_workers :: "pool \<Rightarrow> nat" where
  "pool_workers s = tp_looping s + tp_entering s + tp_takers s + tp_woken s + length (tp_busy s) + tp_exited s"

text \<open>First in, first out, within the bound.\<close>

definition pool_fifo :: "pool \<Rightarrow> bool" where
  "pool_fifo s \<longleftrightarrow> tp_accepted s = tp_taken s @ tp_queue s \<and> length (tp_queue s) \<le> tp_maxQueueSize s"

text \<open>
  Sleepers: a worker sleeps only while the woken workers suffice for the tasks queued, a thread in
  \<open>put\<close> only while the woken ones suffice for the free places, and nobody sleeps after \<open>stop\<close>.
\<close>

definition pool_awake :: "pool \<Rightarrow> bool" where
  "pool_awake s \<longleftrightarrow>
     (0 < tp_takers s \<longrightarrow> tp_running s \<and> length (tp_queue s) \<le> tp_woken s) \<and>
     (tp_putters s \<noteq> [] \<longrightarrow> tp_running s \<and> tp_maxQueueSize s \<le> length (tp_queue s) + length (tp_wokenPutters s))"

text \<open>The threads joined so far, and the life of the pool.\<close>

definition pool_joins :: "pool \<Rightarrow> nat" where
  "pool_joins s = (if tp_running s then 0 else case tp_stopping s of Some i \<Rightarrow> i | None \<Rightarrow> length (tp_threads s))"

definition threads_ok :: "nat \<Rightarrow> thread list \<Rightarrow> bool" where
  "threads_ok j ths \<longleftrightarrow> j \<le> length ths \<and> (\<forall>k < length ths. th_started (ths ! k) \<and> th_pc (ths ! k) \<noteq> NotCreated \<and> th_joined (ths ! k) = (k < j))"

definition pool_count :: "pool \<Rightarrow> bool" where
  "pool_count s \<longleftrightarrow>
     (\<not> tp_bound s \<longrightarrow> \<not> tp_running s \<and> pool_workers s = 0 \<and> tp_wokenPutters s = [] \<and> tp_putters s = []) \<and>
     (tp_bound s \<longrightarrow> pool_workers s = nat (tp_numThread s)) \<and> (tp_running s \<longrightarrow> tp_exited s = 0)"

definition pool_life :: "pool \<Rightarrow> bool" where
  "pool_life s \<longleftrightarrow> (\<not> tp_bound s \<longrightarrow> tp_threads s = [] \<and> tp_stopping s = None) \<and>
     (tp_bound s \<longrightarrow> length (tp_threads s) = nat (tp_numThread s) \<and> threads_ok (pool_joins s) (tp_threads s) \<and>
        (\<not> tp_running s \<longrightarrow> pool_joins s \<le> tp_exited s)) \<and>
     (tp_running s \<longrightarrow> tp_stopping s = None \<and> \<not> tp_dying s) \<and>
     (tp_dying s \<longrightarrow> tp_wokenPutters s = [] \<and> tp_putters s = []) \<and>
     (tp_destroyed s \<longleftrightarrow> tp_dying s \<and> tp_stopping s = None)"

definition pool_ok :: "pool \<Rightarrow> bool" where
  "pool_ok s \<longleftrightarrow> pool_fifo s \<and> pool_awake s \<and> pool_count s \<and> pool_life s"

lemmas pool_defs = pool_fifo_def pool_awake_def pool_count_def pool_workers_def

lemma pool_life_cong:
  assumes "pool_life s" "tp_bound s' = tp_bound s" "tp_threads s' = tp_threads s" "tp_stopping s' = tp_stopping s"
    "tp_numThread s' = tp_numThread s" "tp_running s' = tp_running s" "tp_exited s \<le> tp_exited s'" "tp_dying s' = tp_dying s"
    "tp_destroyed s' = tp_destroyed s" "tp_dying s \<Longrightarrow> tp_wokenPutters s' = [] \<and> tp_putters s' = []"
  shows "pool_life s'"
proof -
  have "pool_joins s' = pool_joins s" using assms by (simp add: pool_joins_def split: option.split)
  then show ?thesis using assms by (auto simp: pool_life_def)
qed

lemma new_pool_ok: "pool_ok (new_pool n maxsize)"
  by (simp add: pool_ok_def pool_defs pool_life_def new_pool_def)

text \<open>How many steps the workers still have to take once \<open>running_\<close> is false.\<close>

definition work_left :: "pool \<Rightarrow> nat" where
  "work_left s = 2 * (tp_entering s + tp_woken s + length (tp_busy s)) + tp_looping s"

section \<open>Every step keeps the invariant\<close>

lemma pool_put_ok:
  assumes "pool_fifo s" "pool_count s" "pool_life s" "tp_bound s" "\<not> tp_dying s"
    and "0 < tp_takers s \<longrightarrow> tp_running s \<and> length (tp_queue s) \<le> tp_woken s"
    and "tp_putters s \<noteq> [] \<longrightarrow> tp_running s \<and> tp_maxQueueSize s \<le> length (tp_queue s) + length (tp_wokenPutters s) + 1"
    and "isFull s \<or> tp_putters s = [] \<or> tp_maxQueueSize s \<le> length (tp_queue s) + length (tp_wokenPutters s) + 1"
  shows "\<exists>s'. pool_put x s = Inr s' \<and> pool_ok s'"
proof -
  define s' where "s' = (if isFull s \<and> tp_running s then s\<lparr>tp_putters := tp_putters s @ [x]\<rparr>
    else if \<not> tp_running s then s
    else notEmpty_notify (s\<lparr>tp_queue := tp_queue s @ [x], tp_accepted := tp_accepted s @ [x]\<rparr>))"
  have "pool_put x s = Inr s'" using assms(4) by (simp add: pool_put_def pool_running_def s'_def)
  moreover have "pool_life s'"
    by (rule pool_life_cong [OF assms(3)]) (use assms(5) in \<open>auto simp: s'_def notEmpty_notify_def\<close>)
  moreover have "pool_fifo s' \<and> pool_awake s' \<and> pool_count s'"
    using assms by (auto simp: s'_def isFull_def notEmpty_notify_def pool_defs)
  ultimately show ?thesis by (auto simp: pool_ok_def)
qed

text \<open>A worker that was counted elsewhere comes to the test in \<open>take\<close>.\<close>

definition take_ready :: "pool \<Rightarrow> bool" where
  "take_ready s \<longleftrightarrow> pool_fifo s \<and> pool_life s \<and> tp_bound s \<and> pool_workers s + 1 = nat (tp_numThread s) \<and>
     (tp_running s \<longrightarrow> tp_exited s = 0) \<and>
     (0 < tp_takers s \<longrightarrow> tp_running s \<and> length (tp_queue s) \<le> tp_woken s + 1) \<and>
     (tp_putters s \<noteq> [] \<longrightarrow> tp_running s \<and> tp_maxQueueSize s \<le> length (tp_queue s) + length (tp_wokenPutters s))"

lemma notFull_notify_frame:
  "tp_running (notFull_notify k s) = tp_running s" "tp_queue (notFull_notify k s) = tp_queue s"
  "tp_bound (notFull_notify k s) = tp_bound s" "tp_takers (notFull_notify k s) = tp_takers s"
  "tp_woken (notFull_notify k s) = tp_woken s" "tp_busy (notFull_notify k s) = tp_busy s"
  "tp_looping (notFull_notify k s) = tp_looping s" "tp_entering (notFull_notify k s) = tp_entering s"
  "tp_exited (notFull_notify k s) = tp_exited s" "tp_numThread (notFull_notify k s) = tp_numThread s"
  "tp_accepted (notFull_notify k s) = tp_accepted s" "tp_taken (notFull_notify k s) = tp_taken s"
  "tp_maxQueueSize (notFull_notify k s) = tp_maxQueueSize s" "tp_threads (notFull_notify k s) = tp_threads s"
  "tp_stopping (notFull_notify k s) = tp_stopping s" "tp_dying (notFull_notify k s) = tp_dying s"
  "tp_destroyed (notFull_notify k s) = tp_destroyed s"
  by (simp_all add: notFull_notify_def Let_def)

lemma notFull_notify_putters:
  "tp_putters (notFull_notify k s) \<noteq> [] \<Longrightarrow> tp_putters s \<noteq> []"
  "tp_putters s \<noteq> [] \<Longrightarrow> length (tp_wokenPutters (notFull_notify k s)) = length (tp_wokenPutters s) + 1"
  "tp_putters s = [] \<Longrightarrow> tp_wokenPutters (notFull_notify k s) = tp_wokenPutters s"
  "tp_putters s = [] \<Longrightarrow> tp_putters (notFull_notify k s) = []"
  by (auto simp: notFull_notify_def Let_def remove_nth_def split: if_splits)

lemma pool_take_ok:
  assumes ready: "take_ready s"
  shows "\<exists>s'. pool_take k s = Inr s' \<and> pool_ok s'"
proof -
  have life: "pool_life s" and bound: "tp_bound s" using ready by (simp_all add: take_ready_def)
  have dying: "tp_dying s \<Longrightarrow> tp_wokenPutters s = [] \<and> tp_putters s = []" "tp_running s \<Longrightarrow> \<not> tp_dying s"
    using life by (simp_all add: pool_life_def)
  show ?thesis
  proof (cases "tp_running s")
    case False
    then have "pool_take k s = Inr (s\<lparr>tp_looping := tp_looping s + 1\<rparr>)"
      using bound by (simp add: pool_take_def pool_running_def)
    moreover have "pool_life (s\<lparr>tp_looping := tp_looping s + 1\<rparr>)" by (rule pool_life_cong [OF life]) (simp_all add: dying)
    ultimately show ?thesis using ready False by (auto simp: take_ready_def pool_ok_def pool_defs)
  next
    case running: True
    show ?thesis
    proof (cases "tp_queue s")
      case Nil
      then have "pool_take k s = Inr (s\<lparr>tp_takers := tp_takers s + 1\<rparr>)"
        using bound running by (simp add: pool_take_def pool_running_def)
      moreover have "pool_life (s\<lparr>tp_takers := tp_takers s + 1\<rparr>)" by (rule pool_life_cong [OF life]) (simp_all add: dying)
      ultimately show ?thesis using ready running Nil by (auto simp: take_ready_def pool_ok_def pool_defs)
    next
      case (Cons x q)
      define s1 where "s1 = s\<lparr>tp_queue := q, tp_taken := tp_taken s @ [x], tp_busy := tp_busy s @ [x]\<rparr>"
      have take: "pool_take k s = Inr (notFull_notify k s1)"
        using Cons bound running by (simp add: pool_take_def pool_running_def s1_def)
      have "tp_putters (notFull_notify k s1) \<noteq> [] \<Longrightarrow>
          tp_maxQueueSize s \<le> length q + length (tp_wokenPutters (notFull_notify k s1))"
        using ready notFull_notify_putters(2) [of s1 k] notFull_notify_putters(1) [of k s1] Cons by (auto simp: take_ready_def s1_def)
      moreover have "pool_life (notFull_notify k s1)"
        by (rule pool_life_cong [OF life]) (use dying(2) running in \<open>simp_all add: notFull_notify_frame s1_def\<close>)
      ultimately show ?thesis using take running ready Cons
        by (auto simp: take_ready_def pool_ok_def pool_defs notFull_notify_frame s1_def)
    qed
  qed
qed

lemma pool_stop_ok:
  assumes "pool_ok s" "tp_running s"
  shows "\<exists>s'. pool_stop s = Inr s' \<and> pool_ok s' \<and> \<not> tp_running s' \<and> tp_bound s' \<and> tp_stopping s' = Some 0 \<and>
    \<not> tp_dying s' \<and> tp_wokenPutters s' = tp_wokenPutters s @ tp_putters s \<and> tp_putters s' = [] \<and> tp_numThread s' = tp_numThread s \<and>
    tp_taken s' = tp_taken s"
proof -
  have b: "tp_bound s" using assms by (auto simp: pool_ok_def pool_count_def)
  define s' where "s' = s\<lparr>tp_running := False, tp_takers := 0, tp_woken := tp_woken s + tp_takers s,
      tp_putters := [], tp_wokenPutters := tp_wokenPutters s @ tp_putters s, tp_stopping := Some 0\<rparr>"
  have "pool_stop s = Inr s'" using b by (simp add: pool_stop_def pool_notifyAll_def pool_running_def s'_def)
  moreover have "pool_life s'" using assms b by (auto simp: pool_ok_def pool_life_def pool_joins_def s'_def)
  moreover have "pool_fifo s' \<and> pool_awake s' \<and> pool_count s'" using assms b by (auto simp: pool_ok_def pool_defs s'_def)
  moreover have "\<not> tp_dying s" using assms by (auto simp: pool_ok_def pool_life_def)
  ultimately show ?thesis using b by (auto simp: pool_ok_def s'_def)
qed

lemma pool_join_ok:
  assumes ok: "pool_ok s" and st: "tp_stopping s = Some i" and i: "i < tp_exited s \<or> i = length (tp_threads s)"
  shows "\<exists>s'. pool_join s = Inr s' \<and> pool_ok s' \<and> tp_taken s' = tp_taken s \<and> tp_numThread s' = tp_numThread s \<and>
    tp_exited s' = tp_exited s \<and> tp_running s' = tp_running s \<and> tp_bound s' = tp_bound s \<and> tp_dying s' = tp_dying s \<and>
    work_left s' = work_left s \<and> length (tp_threads s') = length (tp_threads s) \<and>
    tp_stopping s' = (if i < length (tp_threads s) then Some (i + 1) else None)"
proof -
  have parts: "pool_fifo s" "pool_awake s" "pool_count s" "pool_life s" using ok by (simp_all add: pool_ok_def)
  have nr: "\<not> tp_running s" and b: "tp_bound s" using parts(4) st by (auto simp: pool_life_def)
  have ths: "threads_ok i (tp_threads s)" "length (tp_threads s) = nat (tp_numThread s)"
    using parts(4) b nr st by (simp_all add: pool_life_def pool_joins_def)
  show ?thesis
  proof (cases "i < length (tp_threads s)")
    case True
    let ?th = "tp_threads s ! i"
    have th: "th_started ?th" "\<not> th_joined ?th" "th_pc ?th \<noteq> NotCreated" using ths(1) True by (auto simp: threads_ok_def)
    define s' where "s' = s\<lparr>tp_threads := (tp_threads s)[i := ?th\<lparr>th_joined := True\<rparr>], tp_stopping := Some (i + 1)\<rparr>"
    have "pool_join s = Inr s'"
      using th st True by (simp add: pool_join_def join_worker_def thread_join_def s'_def)
    moreover have "threads_ok (i + 1) (tp_threads s')"
      using ths(1) True by (auto simp: threads_ok_def s'_def nth_list_update)
    then have "pool_life s'" using parts(4) i b nr st True by (auto simp: pool_life_def pool_joins_def s'_def)
    moreover have "pool_fifo s' \<and> pool_awake s' \<and> pool_count s'" using parts by (auto simp: pool_defs s'_def)
    ultimately show ?thesis using True by (auto simp: pool_ok_def s'_def work_left_def)
  next
    case False
    then have i: "i = length (tp_threads s)" using ths(1) by (simp add: threads_ok_def)
    define s' where "s' = s\<lparr>tp_stopping := None, tp_destroyed := tp_dying s\<rparr>"
    have "pool_join s = Inr s'" using st False by (simp add: pool_join_def s'_def)
    moreover have "pool_life s'" using parts(4) b nr st i by (auto simp: pool_life_def pool_joins_def s'_def)
    moreover have "pool_fifo s' \<and> pool_awake s' \<and> pool_count s'" using parts by (auto simp: pool_defs s'_def)
    ultimately show ?thesis using False by (auto simp: pool_ok_def s'_def work_left_def)
  qed
qed

definition started_thread :: thread where
  "started_thread = new_thread\<lparr>th_started := True, th_latch := latch_test (new_latch 1), th_pc := Created\<rparr>"

lemma start_workers:
  "length (tp_threads s) = i \<Longrightarrow> list_all created [i..<i + n] \<Longrightarrow> rfold (start_worker created) [i..<i + n] s =
     Inr (s\<lparr>tp_threads := tp_threads s @ replicate n started_thread, tp_looping := tp_looping s + n\<rparr>)"
proof (induction n arbitrary: i s)
  case (Suc n)
  define s1 where "s1 = s\<lparr>tp_threads := tp_threads s @ [started_thread], tp_looping := tp_looping s + 1\<rparr>"
  have upt: "[i..<i + Suc n] = i # [Suc i..<Suc i + n]" by (simp add: upt_rec)
  then have c: "created i" "list_all created [Suc i..<Suc i + n]" using Suc.prems(2) by simp_all
  have "start_worker created i s = Inr s1" using Suc.prems(1) c(1)
    by (simp add: start_worker_def thread_start_def new_thread_def started_thread_def s1_def Let_def nth_append list_update_append)
  moreover have "length (tp_threads s1) = Suc i" using Suc.prems by (simp add: s1_def)
  ultimately show ?case using Suc.IH [of s1 "Suc i"] c(2) upt by (simp add: s1_def)
qed simp

lemma pool_start_ok:
  assumes "pool_ok s" "pool_legal (PoolStart created) s"
  shows "\<exists>s'. pool_start created s = Inr s' \<and> pool_ok s'"
proof -
  define s1 where "s1 = s\<lparr>tp_running := True, tp_bound := True\<rparr>"
  let ?n = "nat (tp_numThread s)"
  let ?s' = "s1\<lparr>tp_threads := replicate ?n started_thread, tp_looping := ?n\<rparr>"
  have b: "\<not> tp_bound s" "tp_threads s = []" "tp_looping s = 0" "\<not> tp_running s" "\<not> tp_dying s" "tp_stopping s = None"
    using assms by (auto simp: pool_ok_def pool_life_def pool_defs)
  have "length (tp_threads s1) = 0" using b by (simp add: s1_def)
  from start_workers [OF this, of created ?n] have "pool_start created s = Inr ?s'"
    using assms(2) b by (simp add: pool_start_def s1_def Let_def)
  moreover have "pool_life ?s'"
    using b assms by (auto simp: pool_ok_def pool_life_def pool_joins_def threads_ok_def s1_def started_thread_def new_thread_def)
  moreover have "pool_fifo ?s' \<and> pool_awake ?s' \<and> pool_count ?s'"
    using assms b by (auto simp: pool_ok_def pool_defs s1_def)
  ultimately show ?thesis by (auto simp: pool_ok_def)
qed

text \<open>Nobody takes a step in a pool that is gone.\<close>

lemma legal_alive:
  assumes "pool_ok s" "pool_legal op s"
  shows "\<not> tp_destroyed s"
proof
  assume d: "tp_destroyed s"
  then have dy: "tp_dying s" "tp_stopping s = None" "\<not> tp_running s" "tp_wokenPutters s = []"
    using assms(1) by (auto simp: pool_ok_def pool_life_def)
  have "tp_looping s + tp_entering s + tp_woken s + length (tp_busy s) = 0"
  proof (cases "tp_bound s")
    case True
    then have "nat (tp_numThread s) \<le> tp_exited s" "pool_workers s = nat (tp_numThread s)"
      using assms(1) dy by (auto simp: pool_ok_def pool_life_def pool_joins_def pool_count_def)
    then show ?thesis unfolding pool_workers_def by linarith
  qed (use assms(1) in \<open>simp add: pool_ok_def pool_defs\<close>)
  then show False using assms(2) d dy by (cases op) auto
qed

lemma pool_destruct_ok:
  assumes ok: "pool_ok s" and legal: "pool_legal PoolDestroy s"
  shows "\<exists>s'. pool_destruct s = Inr s' \<and> pool_ok s'"
proof (cases "tp_running s")
  case True
  obtain s1 where s1: "pool_stop s = Inr s1" "pool_ok s1" "\<not> tp_running s1" "tp_stopping s1 = Some 0"
    "tp_wokenPutters s1 = tp_wokenPutters s @ tp_putters s" "tp_putters s1 = []"
    using pool_stop_ok [OF ok True] by blast
  then have "pool_ok (s1\<lparr>tp_dying := True\<rparr>)"
    using legal by (auto simp: pool_ok_def pool_life_def pool_joins_def pool_defs)
  then show ?thesis using s1(1) True by (simp add: pool_destruct_def)
next
  case False
  then have "pool_ok (s\<lparr>tp_dying := True, tp_destroyed := True\<rparr>)"
    using ok legal by (auto simp: pool_ok_def pool_life_def pool_joins_def pool_defs)
  then show ?thesis using False by (simp add: pool_destruct_def)
qed

text \<open>A step that moves threads between the counts.\<close>

lemma pool_ok_moved:
  assumes "pool_ok s" "pool_fifo s' \<and> pool_awake s' \<and> pool_count s'" "tp_bound s' = tp_bound s" "tp_threads s' = tp_threads s"
    "tp_stopping s' = tp_stopping s" "tp_numThread s' = tp_numThread s" "tp_running s' = tp_running s" "tp_exited s \<le> tp_exited s'"
    "tp_dying s' = tp_dying s" "tp_destroyed s' = tp_destroyed s" "tp_dying s \<Longrightarrow> tp_wokenPutters s' = [] \<and> tp_putters s' = []"
  shows "pool_ok s'"
  using assms(1,2) pool_life_cong [of s s', OF _ assms(3-11)] by (auto simp: pool_ok_def)

lemma pool_act_ok:
  assumes ok: "pool_ok s" and legal: "pool_legal op s"
  shows "\<exists>s'. pool_act op s = Inr s' \<and> pool_ok s'"
proof -
  have parts: "pool_fifo s" "pool_awake s" "pool_count s" "pool_life s" using ok by (simp_all add: pool_ok_def)
  have dying: "tp_dying s \<Longrightarrow> tp_wokenPutters s = [] \<and> tp_putters s = []" using parts(4) by (simp add: pool_life_def)
  show ?thesis
  proof (cases op)
    case (PoolStart created)
    then show ?thesis using pool_start_ok ok legal by simp
  next
    case (PoolRun x)
    then have "\<exists>s'. pool_put x s = Inr s' \<and> pool_ok s'"
      using parts legal by (intro pool_put_ok) (auto simp: pool_awake_def)
    then show ?thesis by (simp add: PoolRun pool_run_def)
  next
    case (PutWake i)
    define s1 where "s1 = s\<lparr>tp_wokenPutters := remove_nth i (tp_wokenPutters s)\<rparr>"
    have nd: "\<not> tp_dying s" and bound: "tp_bound s" using dying parts(3) legal PutWake by (auto simp: pool_count_def)
    have len: "length (tp_wokenPutters s1) = length (tp_wokenPutters s) - 1"
      using legal PutWake by (simp add: s1_def length_remove_nth)
    have "pool_life s1" by (rule pool_life_cong [OF parts(4)]) (use nd in \<open>simp_all add: s1_def\<close>)
    moreover have "pool_fifo s1" "pool_count s1" using parts bound by (auto simp: pool_defs s1_def)
    moreover have "tp_putters s1 \<noteq> [] \<longrightarrow> tp_running s1 \<and> tp_maxQueueSize s1 \<le> length (tp_queue s1) + length (tp_wokenPutters s1) + 1"
      using parts(2) legal PutWake len by (auto simp: pool_awake_def s1_def)
    ultimately have "\<exists>s'. pool_put (tp_wokenPutters s ! i) s1 = Inr s' \<and> pool_ok s'"
      using parts(2) bound nd by (intro pool_put_ok) (auto simp: pool_awake_def s1_def)
    then show ?thesis by (simp add: PutWake s1_def)
  next
    case (PutSpurious i)
    have "pool_fifo (notFull_notify i s) \<and> pool_awake (notFull_notify i s) \<and> pool_count (notFull_notify i s)"
      using parts notFull_notify_putters(1) [of i s] notFull_notify_putters(2-4) [of s i]
      by (cases "tp_putters s = []") (auto simp: pool_defs notFull_notify_frame)
    then have "pool_ok (notFull_notify i s)"
      by (rule pool_ok_moved [OF ok]) (use dying notFull_notify_putters(3,4) [of s i] in \<open>simp_all add: notFull_notify_frame\<close>)
    then show ?thesis by (simp add: PutSpurious)
  next
    case PoolStop
    then show ?thesis using pool_stop_ok [OF ok] legal by auto
  next
    case PoolJoin
    with legal obtain i where "tp_stopping s = Some i" "i < tp_exited s \<or> i = length (tp_threads s)" by (auto split: option.splits)
    from pool_join_ok [OF ok this] PoolJoin show ?thesis by auto
  next
    case PoolDestroy
    then show ?thesis using pool_destruct_ok [OF ok] legal by simp
  next
    case WorkerTest
    have "pool_fifo (worker_test s) \<and> pool_awake (worker_test s) \<and> pool_count (worker_test s)"
      using parts legal WorkerTest by (auto simp: worker_test_def Let_def pool_defs)
    then have "pool_ok (worker_test s)"
      by (rule pool_ok_moved [OF ok]) (use dying in \<open>simp_all add: worker_test_def Let_def\<close>)
    then show ?thesis by (simp add: WorkerTest)
  next
    case (TakeEnter k)
    have "pool_life (s\<lparr>tp_entering := tp_entering s - 1\<rparr>)" by (rule pool_life_cong [OF parts(4)]) (simp_all add: dying)
    then have "take_ready (s\<lparr>tp_entering := tp_entering s - 1\<rparr>)"
      using parts legal TakeEnter by (auto simp: take_ready_def pool_defs)
    then show ?thesis using pool_take_ok by (simp add: TakeEnter)
  next
    case (TakeWake k)
    have "pool_life (s\<lparr>tp_woken := tp_woken s - 1\<rparr>)" by (rule pool_life_cong [OF parts(4)]) (simp_all add: dying)
    then have "take_ready (s\<lparr>tp_woken := tp_woken s - 1\<rparr>)" using parts legal TakeWake by (auto simp: take_ready_def pool_defs)
    then show ?thesis using pool_take_ok by (simp add: TakeWake)
  next
    case TakeSpurious
    have "pool_fifo (notEmpty_notify s) \<and> pool_awake (notEmpty_notify s) \<and> pool_count (notEmpty_notify s)"
      using parts by (auto simp: notEmpty_notify_def pool_defs)
    then have "pool_ok (notEmpty_notify s)"
      by (rule pool_ok_moved [OF ok]) (use dying in \<open>simp_all add: notEmpty_notify_def\<close>)
    then show ?thesis by (simp add: TakeSpurious)
  next
    case (TaskDone i)
    define s' where "s' = s\<lparr>tp_busy := remove_nth i (tp_busy s), tp_looping := tp_looping s + 1\<rparr>"
    have "pool_fifo s' \<and> pool_awake s' \<and> pool_count s'"
      using parts legal TaskDone by (auto simp: length_remove_nth pool_defs s'_def)
    then have "pool_ok s'" by (rule pool_ok_moved [OF ok]) (use dying in \<open>simp_all add: s'_def\<close>)
    then show ?thesis by (simp add: TaskDone worker_done_def s'_def)
  qed
qed

lemma pool_step_ok:
  assumes "pool_ok s" "pool_legal op s"
  shows "\<exists>s'. pool_step op s = Inr s' \<and> pool_ok s'"
  using pool_act_ok [OF assms] legal_alive [OF assms] by (simp add: pool_step_def)

interpretation tpm: safe_machine pool_step pool_legal pool_ok "{}"
proof unfold_locales
  fix s op
  assume "pool_ok s" "pool_legal op s"
  then show "ok_or {} pool_ok (pool_step op s)" using pool_step_ok [of s op] by (auto simp: ok_or_total)
qed

section \<open>After stop\<close>

text \<open>The steps of the workers and of the thread in \<open>stop\<close>.\<close>

fun stop_op :: "pool_op \<Rightarrow> bool" where
  "stop_op WorkerTest = True"
| "stop_op (TakeEnter k) = True"
| "stop_op (TakeWake k) = True"
| "stop_op (TaskDone i) = True"
| "stop_op PoolJoin = True"
| "stop_op _ = False"

text \<open>The joins still to be made, with the return from \<open>stop\<close>, added to what the workers have to do.\<close>

definition stop_left :: "pool \<Rightarrow> nat" where
  "stop_left s = work_left s + (case tp_stopping s of None \<Rightarrow> 0 | Some i \<Rightarrow> Suc (length (tp_threads s)) - i)"

definition stopped :: "pool \<Rightarrow> bool" where
  "stopped s \<longleftrightarrow> pool_ok s \<and> tp_bound s \<and> \<not> tp_running s \<and> \<not> tp_dying s"

lemma worker_step_stopped:
  assumes "stopped s" "pool_legal op s" "stop_op op" "op \<noteq> PoolJoin" "pool_act op s = Inr s'" "pool_ok s'"
  shows "stopped s' \<and> tp_numThread s' = tp_numThread s \<and> tp_taken s' = tp_taken s \<and> stop_left s' < stop_left s"
proof -
  have take: "pool_take k t = Inr (t\<lparr>tp_looping := tp_looping t + 1\<rparr>)" if "tp_bound t" "\<not> tp_running t" for k t
    using that by (simp add: pool_take_def pool_running_def)
  have "stopped s' \<and> tp_numThread s' = tp_numThread s \<and> tp_taken s' = tp_taken s \<and> work_left s' < work_left s \<and>
      tp_stopping s' = tp_stopping s \<and> tp_threads s' = tp_threads s"
    using assms
    by (cases op) (auto simp: stopped_def take worker_test_def worker_done_def Let_def work_left_def length_remove_nth)
  then show ?thesis by (auto simp: stop_left_def split: option.split)
qed

lemma stop_step:
  assumes st: "stopped s" and legal: "pool_legal op s" and op: "stop_op op"
  shows "\<exists>s'. pool_step op s = Inr s' \<and> stopped s' \<and> tp_numThread s' = tp_numThread s \<and> tp_taken s' = tp_taken s \<and>
    stop_left s' < stop_left s"
proof (cases "op = PoolJoin")
  case True
  then obtain i where i: "tp_stopping s = Some i" "i < tp_exited s \<or> i = length (tp_threads s)" using legal by (auto split: option.splits)
  have ok: "pool_ok s" using st by (simp add: stopped_def)
  have le: "i \<le> length (tp_threads s)"
    using st i(1) by (auto simp: stopped_def pool_ok_def pool_life_def pool_joins_def threads_ok_def)
  obtain s' where s': "pool_join s = Inr s'" "pool_ok s'" "tp_taken s' = tp_taken s" "tp_numThread s' = tp_numThread s"
    "tp_running s' = tp_running s" "tp_bound s' = tp_bound s" "tp_dying s' = tp_dying s" "work_left s' = work_left s"
    "length (tp_threads s') = length (tp_threads s)" "tp_stopping s' = (if i < length (tp_threads s) then Some (i + 1) else None)"
    using pool_join_ok [OF ok i] by blast
  have "stop_left s' < stop_left s" using s'(8-10) i(1) le by (auto simp: stop_left_def)
  then show ?thesis using s' st legal_alive [OF ok legal] True by (auto simp: pool_step_def stopped_def)
next
  case False
  have ok: "pool_ok s" using st by (simp add: stopped_def)
  obtain s' where "pool_act op s = Inr s'" "pool_ok s'" using pool_act_ok [OF ok legal] by blast
  with worker_step_stopped [OF st legal op False this] legal_alive [OF ok legal] show ?thesis by (simp add: pool_step_def)
qed

lemma stop_run:
  assumes "stopped s" "run_legal pool_legal pool_step ops s" "list_all stop_op ops"
  shows "\<exists>s'. rfold pool_step ops s = Inr s' \<and> stopped s' \<and> tp_numThread s' = tp_numThread s \<and>
     tp_taken s' = tp_taken s \<and> length ops + stop_left s' \<le> stop_left s"
  using assms
proof (induction ops arbitrary: s)
  case (Cons op ops)
  obtain t where t: "pool_step op s = Inr t" "stopped t" "tp_numThread t = tp_numThread s" "tp_taken t = tp_taken s"
     "stop_left t < stop_left s"
    using stop_step [of s op] Cons.prems by auto
  obtain s' where "rfold pool_step ops t = Inr s'" "stopped s'" "tp_numThread s' = tp_numThread t"
     "tp_taken s' = tp_taken t" "length ops + stop_left s' \<le> stop_left t"
    using Cons.IH [OF t(2)] Cons.prems(2,3) t(1) by auto
  then show ?case using t by auto
qed simp

lemma stop_enabled:
  assumes st: "stopped s" and none: "\<forall>op. stop_op op \<longrightarrow> \<not> pool_legal op s"
  shows "tp_exited s = nat (tp_numThread s) \<and> tp_stopping s = None \<and> list_all th_joined (tp_threads s)"
proof -
  have "\<not> pool_legal WorkerTest s" "\<not> pool_legal (TakeEnter 0) s" "\<not> pool_legal (TakeWake 0) s" "\<not> pool_legal (TaskDone 0) s"
    "\<not> pool_legal PoolJoin s" using none stop_op.simps by blast+
  then have z: "tp_looping s = 0" "tp_entering s = 0" "tp_woken s = 0" "tp_busy s = []"
    and j: "\<forall>i. tp_stopping s = Some i \<longrightarrow> \<not> i < tp_exited s \<and> i \<noteq> length (tp_threads s)"
    by (auto split: option.splits)
  have "tp_takers s = 0" using st by (auto simp: stopped_def pool_ok_def pool_awake_def)
  then have ex: "tp_exited s = nat (tp_numThread s)" "length (tp_threads s) = nat (tp_numThread s)" "threads_ok (pool_joins s) (tp_threads s)"
    using st z by (auto simp: stopped_def pool_ok_def pool_defs pool_life_def)
  have "tp_stopping s = None"
  proof (rule ccontr)
    assume "tp_stopping s \<noteq> None"
    then obtain i where i: "tp_stopping s = Some i" by blast
    then have "i \<le> length (tp_threads s)" using ex(3) st by (simp add: threads_ok_def pool_joins_def stopped_def)
    then show False using j i ex(1,2) by auto
  qed
  moreover from this have "list_all th_joined (tp_threads s)"
    using ex(3) st by (auto simp: threads_ok_def pool_joins_def stopped_def list_all_length)
  ultimately show ?thesis using ex(1) by simp
qed

lemma start_worker_numThread: "start_worker created i s = Inr s' \<Longrightarrow> tp_numThread s' = tp_numThread s"
  by (auto simp: start_worker_def Let_def rbind_Inr_iff)

lemma pool_act_numThread: "pool_act op s = Inr s' \<Longrightarrow> tp_numThread s' = tp_numThread s"
proof (cases op)
  case (PoolStart created)
  show "tp_numThread s' = tp_numThread s" if "pool_act op s = Inr s'"
    using that rfold_invariantE [of "start_worker created" _ _ s' "\<lambda>t. tp_numThread t = tp_numThread s"] start_worker_numThread
    by (fastforce simp: PoolStart pool_start_def Let_def assertm_def split: if_splits)
qed (auto simp: pool_run_def pool_put_def pool_take_def pool_destruct_def pool_stop_def pool_notifyAll_def worker_test_def worker_done_def
    pool_join_def join_worker_def notEmpty_notify_def notFull_notify_frame res_simps Let_def split: if_splits list.splits option.splits)

lemma pool_step_numThread: "pool_step op s = Inr s' \<Longrightarrow> tp_numThread s' = tp_numThread s"
  by (auto simp: pool_step_def dest: pool_act_numThread split: if_splits)

lemma pool_run_numThread: "rfold pool_step ops s = Inr s' \<Longrightarrow> tp_numThread s' = tp_numThread s"
  by (erule rfold_invariantE [where I = "\<lambda>t. tp_numThread t = tp_numThread s"]) (auto dest: pool_step_numThread)

lemma stop_reached:
  assumes "run_legal pool_legal pool_step (ops @ [PoolStop]) (new_pool n maxsize)"
    and "rfold pool_step (ops @ [PoolStop]) (new_pool n maxsize) = Inr s"
  shows "stopped s \<and> tp_stopping s = Some 0 \<and> tp_numThread s = n \<and> length (tp_threads s) = nat n"
proof -
  have num: "tp_numThread s = n" using pool_run_numThread [OF assms(2)] by (simp add: new_pool_def)
  obtain t where t: "rfold pool_step ops (new_pool n maxsize) = Inr t" "pool_step PoolStop t = Inr s"
    using assms(2) by (auto simp: rfold_append rbind_Inr_iff)
  have legal: "run_legal pool_legal pool_step ops (new_pool n maxsize)" "pool_legal PoolStop t"
    using assms(1) t(1) by (simp_all add: run_legal_append)
  have ok: "pool_ok t" using tpm.run_reaches_inv [OF new_pool_ok legal(1) t(1)] .
  have "tp_running t" using legal(2) by simp
  from pool_stop_ok [OF ok this] t(2) have "pool_ok s" "\<not> tp_running s" "tp_bound s" "tp_stopping s = Some 0" "\<not> tp_dying s"
    by (auto simp: pool_step_def split: if_splits)
  then show ?thesis using num by (auto simp: stopped_def pool_ok_def pool_life_def)
qed

section \<open>Properties\<close>


text \<open>
  C22: \<open>stop\<close> returns. After its notification no further task is taken from the queue, and whatever the
  workers are doing each takes at most two more steps: a run of steps of the workers and of the
  joining thread is never longer than three steps per thread and one more, and when none is possible all
  workers have returned, every thread is joined and \<open>stop\<close> has returned.
\<close>

theorem pool_stop_terminates:
  assumes "run_legal pool_legal pool_step (ops @ [PoolStop]) (new_pool n maxsize)"
    and "rfold pool_step (ops @ [PoolStop]) (new_pool n maxsize) = Inr s"
    and "list_all stop_op ws" "run_legal pool_legal pool_step ws s"
  shows "\<exists>s'. rfold pool_step ws s = Inr s' \<and> tp_taken s' = tp_taken s \<and> length ws \<le> 3 * nat n + 1 \<and>
     ((\<forall>op. stop_op op \<longrightarrow> \<not> pool_legal op s') \<longrightarrow>
        tp_exited s' = nat n \<and> tp_stopping s' = None \<and> list_all th_joined (tp_threads s'))"
proof -
  note s = stop_reached [OF assms(1,2)]
  obtain s' where s': "rfold pool_step ws s = Inr s'" "stopped s'" "tp_numThread s' = tp_numThread s"
     "tp_taken s' = tp_taken s" "length ws + stop_left s' \<le> stop_left s"
    using stop_run [of s ws] s assms(3,4) by blast
  have "stop_left s \<le> 3 * nat n + 1" using s by (auto simp: stop_left_def work_left_def stopped_def pool_ok_def pool_defs)
  then show ?thesis using s' s stop_enabled [OF s'(2)] by auto
qed

text \<open>
  Uses the pool does not survive. \<open>run\<close> before \<open>start\<close> follows the uninitialised pointer
  to the pool; a pool that was stopped cannot be started again: \<open>start\<close> appends new threads but
  starts the old ones, whose assertion fails; nor can it be stopped again: \<open>join\<close> asserts that a
  thread is joined only once.
\<close>

theorem pool_misuse:
  assumes "0 < n" "run_legal pool_legal pool_step (ops @ [PoolStop]) (new_pool n maxsize)"
    "rfold pool_step (ops @ [PoolStop]) (new_pool n maxsize) = Inr s"
    and "list_all stop_op ws" "run_legal pool_legal pool_step ws s" "rfold pool_step ws s = Inr s'" "tp_stopping s' = None"
  shows "pool_run x (new_pool n maxsize) = Inl UseAfterFree \<and> pool_start created s' = Inl AssertFailed \<and>
    rbind (pool_stop s') pool_join = Inl AssertFailed"
proof -
  note s = stop_reached [OF assms(2,3)]
  from stop_run [of s ws] s assms(4-6) have st: "stopped s'" "tp_numThread s' = n" by auto
  then have ths: "length (tp_threads s') = nat n" "threads_ok (nat n) (tp_threads s')" "tp_bound s'" "\<not> tp_running s'"
    using assms(7) by (auto simp: stopped_def pool_ok_def pool_life_def pool_joins_def)
  then have "th_started (tp_threads s' ! 0)" "th_joined (tp_threads s' ! 0)" "tp_threads s' \<noteq> []"
    using assms(1) by (auto simp: threads_ok_def)
  then obtain th rest where cons: "tp_threads s' = th # rest" "th_started th" "th_joined th"
    by (cases "tp_threads s'") simp_all
  have "[0..<nat n] = 0 # [1..<nat n]" using assms(1) by (simp add: upt_rec)
  then have "pool_start created s' = Inl AssertFailed" using st ths assms(1) cons
    by (simp add: pool_start_def Let_def start_worker_def thread_start_def)
  moreover have "rbind (pool_stop s') pool_join = Inl AssertFailed"
    using ths cons by (simp add: pool_stop_def pool_notifyAll_def pool_running_def pool_join_def join_worker_def thread_join_def)
  moreover have "pool_run x (new_pool n maxsize) = Inl UseAfterFree"
    by (simp add: pool_run_def pool_put_def pool_running_def new_pool_def)
  ultimately show ?thesis by simp
qed

definition pool_sample :: "pool_op list" where
  "pool_sample = [PoolStart (\<lambda>i. True), WorkerTest, TakeEnter 0, PoolRun 5, PoolRun 6, TakeWake 0, PutWake 0, PoolRun 7, PoolStop]"

lemma pool_sample_legal: "run_legal pool_legal pool_step pool_sample (new_pool 1 1)"
  by code_simp

definition pool_sample_end :: pool where
  "pool_sample_end = \<lparr>tp_running = False, tp_numThread = 1, tp_threads = [started_thread], tp_maxQueueSize = 1, tp_queue = [6],
     tp_bound = True, tp_looping = 0, tp_entering = 0, tp_takers = 0, tp_woken = 0, tp_busy = [5], tp_exited = 0,
     tp_putters = [], tp_wokenPutters = [7], tp_stopping = Some 0, tp_dying = False, tp_destroyed = False,
     tp_accepted = [5, 6], tp_taken = [5]\<rparr>"

definition pool_sample_stopped :: pool where
  "pool_sample_stopped = pool_sample_end\<lparr>tp_busy := [], tp_exited := 1, tp_threads := [started_thread\<lparr>th_joined := True\<rparr>], tp_stopping := None\<rparr>"

lemma pool_sample_runs: "rfold pool_step pool_sample (new_pool 1 1) = Inr pool_sample_end"
  by code_simp


lemma pool_sample_split: "pool_sample = butlast pool_sample @ [PoolStop]"
  by (simp add: pool_sample_def)

lemma pool_sample_joins:
  "run_legal pool_legal pool_step [TaskDone 0, WorkerTest, PoolJoin, PoolJoin] pool_sample_end"
  "rfold pool_step [TaskDone 0, WorkerTest, PoolJoin, PoolJoin] pool_sample_end = Inr pool_sample_stopped"
  by code_simp+

theorem pool_stop_terminates_witness:
  "\<exists>s'. rfold pool_step [TaskDone 0, WorkerTest, PoolJoin, PoolJoin] pool_sample_end = Inr s' \<and> tp_taken s' = [5] \<and>
     tp_stopping s' = None \<and> (\<forall>op. stop_op op \<longrightarrow> \<not> pool_legal op s')"
proof -
  have "\<exists>s'. rfold pool_step [TaskDone 0, WorkerTest, PoolJoin, PoolJoin] pool_sample_end = Inr s' \<and> tp_taken s' = tp_taken pool_sample_end"
    using pool_stop_terminates [of "butlast pool_sample" 1 1 pool_sample_end "[TaskDone 0, WorkerTest, PoolJoin, PoolJoin]"]
      pool_sample_legal pool_sample_runs pool_sample_joins(1)
    by (auto simp: pool_sample_split [symmetric] simp del: rfold.simps run_legal.simps)
  moreover have "\<not> pool_legal op pool_sample_stopped" if "stop_op op" for op
    using that by (cases op) (simp_all add: pool_sample_stopped_def pool_sample_end_def)
  ultimately show ?thesis using pool_sample_joins(2) by (auto simp: pool_sample_end_def pool_sample_stopped_def)
qed

theorem pool_misuse_witness:
  "pool_run 3 (new_pool 1 1) = Inl UseAfterFree \<and> pool_start (\<lambda>i. True) pool_sample_stopped = Inl AssertFailed"
  using pool_misuse [of 1 "butlast pool_sample" 1 pool_sample_end "[TaskDone 0, WorkerTest, PoolJoin, PoolJoin]" pool_sample_stopped 3 "\<lambda>i. True"]
    pool_sample_legal pool_sample_runs pool_sample_joins by (simp add: pool_sample_split [symmetric] pool_sample_stopped_def)

end
