(* ===== verification/Acceptor.thy ===== *)
theory Acceptor
  imports Channel TcpConnection
begin

text \<open>
  \<open>class Acceptor\<close> of \<open>net/Acceptor.h\<close> and \<open>net/Acceptor.cc\<close>: the listening socket, the loop that
  accepts until the queue is empty, and the reserve descriptor that is given up when the process
  has no descriptor left. The answers of \<open>accept\<close> and \<open>open\<close> are parameters, by the number of the
  call; the loops may run forever, so they are partial functions whose value \<open>None\<close> is that they do
  not return. \<open>ac_events\<close> records the descriptors handed to the callback and those closed.
\<close>

section \<open>State and operations\<close>

definition EMFILE :: int where "EMFILE = 24"

datatype accept_answer = AcceptFd int | AcceptErr int

datatype accept_event = HandedOver int | ClosedFd int

record acceptor =
  ac_chan :: channel
  ac_callback :: bool
  ac_listening :: bool
  ac_idleFd :: int
  ac_accepts :: nat
  ac_opens :: nat
  ac_events :: "accept_event list"

text \<open>\<open>createNonblockingOrDie\<close>, \<open>bindOrDie\<close> and \<open>listenOrDie\<close> end the process when the call fails.\<close>

definition or_die :: "bool \<Rightarrow> 'a res \<Rightarrow> 'a res" where
  "or_die ok m = (if ok then m else Inl FatalLog)"

definition new_acceptor :: "nat \<Rightarrow> int \<Rightarrow> int \<Rightarrow> bool \<Rightarrow> acceptor res" where
  "new_acceptor loop sockfd idleFd bound =
     or_die (0 \<le> sockfd)
       (let a = \<lparr>ac_chan = new_channel loop sockfd, ac_callback = False, ac_listening = False, ac_idleFd = idleFd,
                 ac_accepts = 0, ac_opens = 0, ac_events = []\<rparr>
        in assertm (0 \<le> ac_idleFd a)
             (or_die bound (Inr (a\<lparr>ac_chan := setReadCallback (ac_chan a)\<rparr>))))"

definition setNewConnectionCallback :: "acceptor \<Rightarrow> acceptor" where
  "setNewConnectionCallback a = a\<lparr>ac_callback := True\<rparr>"

definition acc_switch :: "switch \<Rightarrow> acceptor \<Rightarrow> acceptor" where
  "acc_switch sw a = a\<lparr>ac_chan := (ac_chan a)\<lparr>ch_events := switch_events sw (ch_events (ac_chan a)), ch_addedToLoop := True\<rparr>\<rparr>"

text \<open>\<open>inLoop\<close> is whether the caller is the loop's thread; the assertion is a fatal log line.\<close>

definition acc_listen :: "bool \<Rightarrow> bool \<Rightarrow> acceptor \<Rightarrow> acceptor res" where
  "acc_listen inLoop listens a =
     or_die inLoop
       (let a1 = a\<lparr>ac_listening := True\<rparr>
        in or_die listens (Inr (acc_switch EnableReading a1)))"

definition acc_close :: "int \<Rightarrow> acceptor \<Rightarrow> acceptor" where
  "acc_close fd a = a\<lparr>ac_events := ac_events a @ [ClosedFd fd]\<rparr>"

text \<open>The destructor; \<open>disableAll\<close> and \<open>remove\<close> reach the poller, which only the loop's thread may.\<close>

definition acc_destroy :: "bool \<Rightarrow> acceptor \<Rightarrow> acceptor res" where
  "acc_destroy inLoop a =
     or_die inLoop
       (let a1 = acc_switch DisableAll a
        in assertm (isNoneEvent (ac_chan a1))
             (Inr (acc_close (ac_idleFd a1) (a1\<lparr>ac_chan := (ac_chan a1)\<lparr>ch_addedToLoop := False\<rparr>\<rparr>))))"

text \<open>A new connection goes to the callback if there is one, and is closed otherwise.\<close>

definition acc_deliver :: "int \<Rightarrow> acceptor \<Rightarrow> acceptor" where
  "acc_deliver connfd a =
     (if ac_callback a then a\<lparr>ac_events := ac_events a @ [HandedOver connfd]\<rparr> else acc_close connfd a)"

definition acc_next :: "acceptor \<Rightarrow> acceptor" where
  "acc_next a = a\<lparr>ac_accepts := ac_accepts a + 1\<rparr>"

text \<open>The two inner loops: accept with the reserve given up, and open the reserve again.\<close>

partial_function (option) idle_accept :: "(nat \<Rightarrow> accept_answer) \<Rightarrow> acceptor \<Rightarrow> acceptor option" where
  "idle_accept ans a =
     (case ans (ac_accepts a) of
        AcceptFd fd \<Rightarrow> Some ((acc_next a)\<lparr>ac_idleFd := fd\<rparr>)
      | AcceptErr e \<Rightarrow> idle_accept ans ((acc_next a)\<lparr>ac_idleFd := -1\<rparr>))"

partial_function (option) idle_open :: "(nat \<Rightarrow> int) \<Rightarrow> acceptor \<Rightarrow> acceptor option" where
  "idle_open opn a =
     (let a1 = a\<lparr>ac_idleFd := opn (ac_opens a), ac_opens := ac_opens a + 1\<rparr>
      in if ac_idleFd a1 \<ge> 0 then Some a1 else idle_open opn a1)"

partial_function (option) acc_handleRead :: "(nat \<Rightarrow> accept_answer) \<Rightarrow> (nat \<Rightarrow> int) \<Rightarrow> acceptor \<Rightarrow> acceptor option" where
  "acc_handleRead ans opn a =
     (case ans (ac_accepts a) of
        AcceptFd connfd \<Rightarrow> acc_handleRead ans opn (acc_deliver connfd (acc_next a))
      | AcceptErr e \<Rightarrow>
          if e = EAGAIN then Some (acc_next a)
          else if e = EMFILE
          then Option.bind (idle_accept ans (acc_close (ac_idleFd a) (acc_next a))) (\<lambda>a1.
               Option.bind (idle_open opn (acc_close (ac_idleFd a1) a1)) (\<lambda>a2.
               acc_handleRead ans opn a2))
          else acc_handleRead ans opn (acc_next a))"

section \<open>Lemmas\<close>

lemma EMFILE_not_EAGAIN [simp]: "EMFILE \<noteq> EAGAIN" "EAGAIN \<noteq> EMFILE"
  by (simp_all add: EMFILE_def EAGAIN_def)

lemma acc_next_simps [simp]:
  "ac_accepts (acc_next a) = Suc (ac_accepts a)" "ac_callback (acc_next a) = ac_callback a" "ac_events (acc_next a) = ac_events a"
  "ac_idleFd (acc_next a) = ac_idleFd a" "ac_opens (acc_next a) = ac_opens a" "ac_chan (acc_next a) = ac_chan a"
  by (simp_all add: acc_next_def)

text \<open>The descriptors among the answers, and the errors the loop only logs.\<close>

fun accepted_fds :: "accept_answer list \<Rightarrow> int list" where
  "accepted_fds [] = []"
| "accepted_fds (AcceptFd fd # xs) = fd # accepted_fds xs"
| "accepted_fds (AcceptErr e # xs) = accepted_fds xs"

fun plain_answer :: "accept_answer \<Rightarrow> bool" where
  "plain_answer (AcceptFd fd) = True"
| "plain_answer (AcceptErr e) = (e \<noteq> EAGAIN \<and> e \<noteq> EMFILE)"

lemma handleRead_plain:
  assumes "list_all plain_answer xs" "\<And>i. i < length xs \<Longrightarrow> ans (ac_accepts a + i) = xs ! i" "ac_callback a"
  shows "acc_handleRead ans opn a =
     acc_handleRead ans opn (a\<lparr>ac_accepts := ac_accepts a + length xs, ac_events := ac_events a @ map HandedOver (accepted_fds xs)\<rparr>)"
  using assms
proof (induction xs arbitrary: a)
  case (Cons x xs)
  have x: "ans (ac_accepts a) = x" using Cons.prems(2) [of 0] by simp
  have rest: "ans (Suc (ac_accepts a) + i) = xs ! i" if "i < length xs" for i
    using Cons.prems(2) [of "Suc i"] that by simp
  show ?case
  proof (cases x)
    case (AcceptFd fd)
    then show ?thesis
      using Cons.IH [of "acc_deliver fd (acc_next a)"] Cons.prems rest
      by (subst acc_handleRead.simps) (simp add: x acc_deliver_def acc_next_def)
  next
    case (AcceptErr e)
    then show ?thesis
      using Cons.IH [of "acc_next a"] Cons.prems rest
      by (subst acc_handleRead.simps) (simp add: x acc_next_def)
  qed
qed simp

lemma idle_accept_skips:
  assumes "\<And>i. i < m \<Longrightarrow> \<exists>e. ans (ac_accepts a + i) = AcceptErr e" "ans (ac_accepts a + m) = AcceptFd fd"
  shows "idle_accept ans a = Some (a\<lparr>ac_accepts := ac_accepts a + m + 1, ac_idleFd := fd\<rparr>)"
  using assms
proof (induction m arbitrary: a)
  case 0
  then show ?case by (simp add: idle_accept.simps acc_next_def)
next
  case (Suc m)
  obtain e where e: "ans (ac_accepts a) = AcceptErr e" using Suc.prems(1) [of 0] by auto
  have "\<exists>e. ans (Suc (ac_accepts a) + i) = AcceptErr e" if "i < m" for i using Suc.prems(1) [of "Suc i"] that by simp
  then show ?case using Suc.IH [of "(acc_next a)\<lparr>ac_idleFd := -1\<rparr>"] Suc.prems(2) e
    by (subst idle_accept.simps) (simp add: acc_next_def)
qed

lemma idle_accept_spins:
  assumes "idle_accept ans a = Some a'"
  shows "\<exists>j \<ge> ac_accepts a. \<exists>fd. ans j = AcceptFd fd"
proof (rule idle_accept.raw_induct [OF _ assms, of "\<lambda>ans a a'. \<exists>j \<ge> ac_accepts a. \<exists>fd. ans j = AcceptFd fd"])
  fix rec ans a a'
  assume IH: "\<And>ans a a'. rec ans a = Some a' \<Longrightarrow> \<exists>j \<ge> ac_accepts a. \<exists>fd. ans j = AcceptFd fd"
    and body: "(case ans (ac_accepts a) of AcceptFd fd \<Rightarrow> Some ((acc_next a)\<lparr>ac_idleFd := fd\<rparr>)
      | AcceptErr e \<Rightarrow> rec ans ((acc_next a)\<lparr>ac_idleFd := -1\<rparr>)) = Some a'"
  show "\<exists>j \<ge> ac_accepts a. \<exists>fd. ans j = AcceptFd fd"
  proof (cases "ans (ac_accepts a)")
    case (AcceptErr e)
    then have "\<exists>j \<ge> Suc (ac_accepts a). \<exists>fd. ans j = AcceptFd fd" using IH [of ans "(acc_next a)\<lparr>ac_idleFd := -1\<rparr>" a'] body by simp
    then show ?thesis using Suc_leD by blast
  qed auto
qed

section \<open>Properties\<close>

text \<open>
  C26: with descriptors to spare, one readiness event empties the queue of the listening socket:
  every connection the kernel hands out before it answers \<open>EAGAIN\<close> goes to the callback, once and in
  order, errors of single connections are passed over, and the loop returns.
\<close>

theorem acceptor_drains:
  assumes "list_all plain_answer xs" "\<forall>i < length xs. ans (ac_accepts a + i) = xs ! i"
    "ans (ac_accepts a + length xs) = AcceptErr EAGAIN" "ac_callback a"
  shows "acc_handleRead ans opn a =
     Some (a\<lparr>ac_accepts := ac_accepts a + length xs + 1, ac_events := ac_events a @ map HandedOver (accepted_fds xs)\<rparr>)"
proof -
  have "acc_handleRead ans opn a =
     acc_handleRead ans opn (a\<lparr>ac_accepts := ac_accepts a + length xs, ac_events := ac_events a @ map HandedOver (accepted_fds xs)\<rparr>)"
    using assms(1,2,4) by (intro handleRead_plain) auto
  then show ?thesis using assms(3) by (subst (asm) (2) acc_handleRead.simps) (simp add: acc_next_def)
qed

text \<open>
  C27: out of descriptors, the acceptor gives up its reserve, takes the next connection only to close
  it, and opens the reserve again; but only if there is such a connection. When every further
  \<open>accept\<close> fails, as it does when the peer has gone or the queue was empty, the inner loop spins and
  the handler never returns.
\<close>

theorem acceptor_emfile:
  assumes "ans (ac_accepts a) = AcceptErr EMFILE"
  shows "((\<forall>i < m. \<exists>e. ans (ac_accepts a + 1 + i) = AcceptErr e) \<and> ans (ac_accepts a + 1 + m) = AcceptFd fd \<and>
        0 \<le> opn (ac_opens a) \<longrightarrow>
      acc_handleRead ans opn a = acc_handleRead ans opn
        (a\<lparr>ac_idleFd := opn (ac_opens a), ac_accepts := ac_accepts a + m + 2, ac_opens := ac_opens a + 1,
           ac_events := ac_events a @ [ClosedFd (ac_idleFd a), ClosedFd fd]\<rparr>)) \<and>
    ((\<forall>j > ac_accepts a. \<exists>e. ans j = AcceptErr e) \<longrightarrow> acc_handleRead ans opn a = None)"
proof (intro conjI impI)
  let ?a1 = "acc_close (ac_idleFd a) (acc_next a)"
  have step: "acc_handleRead ans opn a = Option.bind (idle_accept ans ?a1) (\<lambda>a1.
       Option.bind (idle_open opn (acc_close (ac_idleFd a1) a1)) (acc_handleRead ans opn))"
    by (subst acc_handleRead.simps) (simp add: assms)
  {
    assume asm: "(\<forall>i < m. \<exists>e. ans (ac_accepts a + 1 + i) = AcceptErr e) \<and> ans (ac_accepts a + 1 + m) = AcceptFd fd \<and>
        0 \<le> opn (ac_opens a)"
    have "idle_accept ans ?a1 = Some (?a1\<lparr>ac_accepts := ac_accepts ?a1 + m + 1, ac_idleFd := fd\<rparr>)"
      using asm by (intro idle_accept_skips) (auto simp: acc_close_def)
    then show "acc_handleRead ans opn a = acc_handleRead ans opn
        (a\<lparr>ac_idleFd := opn (ac_opens a), ac_accepts := ac_accepts a + m + 2, ac_opens := ac_opens a + 1,
           ac_events := ac_events a @ [ClosedFd (ac_idleFd a), ClosedFd fd]\<rparr>)"
      using asm unfolding step by (cases a) (simp add: idle_open.simps acc_close_def acc_next_def Let_def)
  next
    assume none: "\<forall>j > ac_accepts a. \<exists>e. ans j = AcceptErr e"
    have "idle_accept ans ?a1 = None"
    proof (rule ccontr)
      assume "idle_accept ans ?a1 \<noteq> None"
      then obtain a' where "idle_accept ans ?a1 = Some a'" by blast
      then obtain j fd where j: "ac_accepts ?a1 \<le> j" "ans j = AcceptFd fd" using idle_accept_spins by blast
      have "ac_accepts a < j" using j(1) by (simp add: acc_close_def)
      then show False using none j(2) by fastforce
    qed
    then show "acc_handleRead ans opn a = None" by (simp add: step)
  }
qed

definition sample_acceptor :: acceptor where
  "sample_acceptor = \<lparr>ac_chan = new_channel 0 3, ac_callback = True, ac_listening = True, ac_idleFd = 4,
     ac_accepts = 0, ac_opens = 0, ac_events = []\<rparr>"

theorem acceptor_drains_witness:
  "\<exists>a. acc_handleRead (\<lambda>i. if i < 2 then AcceptFd (int i + 5) else AcceptErr EAGAIN) (\<lambda>i. 4) sample_acceptor = Some a \<and>
     ac_events a = [HandedOver 5, HandedOver 6]"
  using acceptor_drains [of "[AcceptFd 5, AcceptFd 6]" "\<lambda>i. if i < 2 then AcceptFd (int i + 5) else AcceptErr EAGAIN" sample_acceptor "\<lambda>i. 4"]
  by (auto simp: sample_acceptor_def less_Suc_eq)

theorem acceptor_emfile_witness:
  "acc_handleRead (\<lambda>i. if i = 0 then AcceptErr EMFILE else AcceptErr EAGAIN) (\<lambda>i. 4) sample_acceptor = None"
  using acceptor_emfile [of "\<lambda>i. if i = 0 then AcceptErr EMFILE else AcceptErr EAGAIN" sample_acceptor 0 0 "\<lambda>i. 4"]
  by (simp add: sample_acceptor_def)

end
