(* ===== verification/TcpServer.thy ===== *)
theory TcpServer
  imports Acceptor Threads
begin

text \<open>
  \<open>class EventLoopThread\<close>, \<open>class EventLoopThreadPool\<close> and \<open>class TcpServer\<close> (\<open>net/EventLoopThread.cc\<close>,
  \<open>net/EventLoopThreadPool.cc\<close>, \<open>net/TcpServer.cc\<close>), with \<open>EventLoop::setAcceptor\<close>: starting the I/O
  threads, giving each its own acceptor, and turning an accepted descriptor into a connection. Loops
  are numbered. The answers of the socket calls are parameters.
\<close>

section \<open>EventLoopThread\<close>

text \<open>
  Besides the members: whether the caller of \<open>startLoop\<close> sleeps or was woken, what it returned, and
  whether the thread has published its loop and left it again.
\<close>

datatype io_pc = BeforeLoop | InLoop | AfterLoop

record io_thread =
  it_thread :: thread
  it_exiting :: bool
  it_loop :: "nat option"
  it_asleep :: bool
  it_woken :: bool
  it_returned :: "nat option"
  it_pc :: io_pc

definition new_io_thread :: io_thread where
  "new_io_thread = \<lparr>it_thread = new_thread, it_exiting = False, it_loop = None, it_asleep = False, it_woken = False,
     it_returned = None, it_pc = BeforeLoop\<rparr>"

text \<open>The loop of \<open>startLoop\<close> with the mutex held.\<close>

definition startLoop_test :: "io_thread \<Rightarrow> io_thread" where
  "startLoop_test t = (if it_loop t = None then t\<lparr>it_asleep := True\<rparr> else t\<lparr>it_returned := it_loop t\<rparr>)"

definition startLoop :: "io_thread \<Rightarrow> io_thread res" where
  "startLoop t =
     assertm (\<not> th_started (it_thread t))
       (rbind (thread_start True (it_thread t)) (\<lambda>th. Inr (startLoop_test (t\<lparr>it_thread := th\<rparr>))))"

definition startLoop_wake :: "io_thread \<Rightarrow> io_thread" where
  "startLoop_wake t = startLoop_test (t\<lparr>it_woken := False\<rparr>)"

text \<open>\<open>threadFunc\<close>: publish the loop and notify; after the loop, take it back.\<close>

definition threadFunc_publish :: "nat \<Rightarrow> io_thread \<Rightarrow> io_thread" where
  "threadFunc_publish l t =
     (let t1 = t\<lparr>it_loop := Some l, it_pc := InLoop\<rparr>
      in if it_asleep t1 then t1\<lparr>it_asleep := False, it_woken := True\<rparr> else t1)"

definition threadFunc_leave :: "io_thread \<Rightarrow> io_thread" where
  "threadFunc_leave t = t\<lparr>it_loop := None, it_pc := AfterLoop\<rparr>"

text \<open>The destructor; the result is the loop it asks to quit.\<close>

definition io_thread_destroy :: "io_thread \<Rightarrow> (nat option \<times> io_thread) res" where
  "io_thread_destroy t =
     (let t1 = t\<lparr>it_exiting := True\<rparr> in
      if it_loop t1 \<noteq> None
      then rbind (thread_join (it_thread t1)) (\<lambda>th. Inr (it_loop t1, t1\<lparr>it_thread := th\<rparr>))
      else Inr (None, t1))"

datatype io_op = IoStart | IoWake | IoSpurious | IoPublish nat | IoLeave

fun io_step :: "io_op \<Rightarrow> io_thread \<Rightarrow> io_thread res" where
  "io_step IoStart t = startLoop t"
| "io_step IoWake t = Inr (startLoop_wake t)"
| "io_step IoSpurious t = Inr (t\<lparr>it_asleep := False, it_woken := True\<rparr>)"
| "io_step (IoPublish l) t = Inr (threadFunc_publish l t)"
| "io_step IoLeave t = Inr (threadFunc_leave t)"

text \<open>The thread runs once started; nobody can make its loop quit before \<open>startLoop\<close> has returned it.\<close>

fun io_legal :: "io_op \<Rightarrow> io_thread \<Rightarrow> bool" where
  "io_legal IoStart t = (\<not> th_started (it_thread t))"
| "io_legal IoWake t = it_woken t"
| "io_legal IoSpurious t = it_asleep t"
| "io_legal (IoPublish l) t = (th_started (it_thread t) \<and> it_pc t = BeforeLoop)"
| "io_legal IoLeave t = (it_pc t = InLoop \<and> it_returned t \<noteq> None)"

section \<open>EventLoopThreadPool\<close>

record io_pool =
  ip_started :: bool
  ip_numThreads :: int
  ip_loops :: "nat list"

definition new_io_pool :: io_pool where
  "new_io_pool = \<lparr>ip_started = False, ip_numThreads = 0, ip_loops = []\<rparr>"

definition io_setThreadNum :: "int \<Rightarrow> io_pool \<Rightarrow> io_pool" where
  "io_setThreadNum n p = p\<lparr>ip_numThreads := n\<rparr>"

text \<open>\<open>mk i\<close> is the loop that the \<open>i\<close>-th call of \<open>startLoop\<close> returns.\<close>

definition io_pool_start :: "(nat \<Rightarrow> nat) \<Rightarrow> io_pool \<Rightarrow> io_pool res" where
  "io_pool_start mk p =
     assertm (\<not> ip_started p)
       (let p1 = p\<lparr>ip_started := True\<rparr>
        in Inr (fold (\<lambda>i p. p\<lparr>ip_loops := ip_loops p @ [mk i]\<rparr>) [0..<nat (ip_numThreads p1)] p1))"

definition getAllLoops :: "io_pool \<Rightarrow> (nat list) res" where
  "getAllLoops p = assertm (ip_started p) (Inr (ip_loops p))"

section \<open>TcpServer\<close>

text \<open>
  The acceptor each loop owns, and the loops to which \<open>Acceptor::listen\<close> was queued. \<open>server_env\<close>
  gives, for each acceptor made, the descriptors and whether \<open>bind\<close> succeeds.
\<close>

record tcp_server =
  ts_started :: int
  ts_pool :: io_pool
  ts_acceptors :: "nat \<Rightarrow> acceptor option"
  ts_listenTasks :: "nat list"

record server_env =
  se_loop :: "nat \<Rightarrow> nat"
  se_sockfd :: "nat \<Rightarrow> int"
  se_idleFd :: "nat \<Rightarrow> int"
  se_binds :: "nat \<Rightarrow> bool"

definition new_tcp_server :: tcp_server where
  "new_tcp_server = \<lparr>ts_started = 0, ts_pool = new_io_pool, ts_acceptors = (\<lambda>l. None), ts_listenTasks = []\<rparr>"

definition setThreadNum :: "int \<Rightarrow> tcp_server \<Rightarrow> tcp_server res" where
  "setThreadNum n s = assertm (0 \<le> n) (Inr (s\<lparr>ts_pool := io_setThreadNum n (ts_pool s)\<rparr>))"

text \<open>
  \<open>EventLoop::setAcceptor\<close>, called by a thread that is not the loop's: an acceptor the loop already
  owns is destroyed on the calling thread.
\<close>

definition setAcceptor :: "nat \<Rightarrow> acceptor \<Rightarrow> tcp_server \<Rightarrow> tcp_server res" where
  "setAcceptor loop a s =
     rbind (case ts_acceptors s loop of None \<Rightarrow> Inr () | Some old \<Rightarrow> rbind (acc_destroy False old) (\<lambda>_. Inr ())) (\<lambda>_.
     assertm (\<not> ac_listening a)
       (Inr (s\<lparr>ts_acceptors := (ts_acceptors s)(loop \<mapsto> a), ts_listenTasks := ts_listenTasks s @ [loop]\<rparr>)))"

definition start_loop_acceptor :: "server_env \<Rightarrow> nat \<Rightarrow> tcp_server \<Rightarrow> tcp_server res" where
  "start_loop_acceptor E loop s =
     rbind (new_acceptor loop (se_sockfd E loop) (se_idleFd E loop) (se_binds E loop)) (\<lambda>a.
     setAcceptor loop (setNewConnectionCallback a) s)"

definition tcp_start :: "server_env \<Rightarrow> tcp_server \<Rightarrow> tcp_server res" where
  "tcp_start E s =
     (let old = ts_started s; s1 = s\<lparr>ts_started := 1\<rparr> in
      rbind (if old = 0
             then rbind (io_pool_start (se_loop E) (ts_pool s1)) (\<lambda>p. Inr (s1\<lparr>ts_pool := p\<rparr>))
             else Inr s1) (\<lambda>s2.
      rbind (getAllLoops (ts_pool s2)) (\<lambda>loops.
      rfold (start_loop_acceptor E) loops s2)))"

text \<open>
  \<open>newConnection\<close> runs on the loop's own thread, as the acceptor's callback, so that \<open>runInLoop\<close>
  calls \<open>connectEstablished\<close> at once.
\<close>

definition newConnection :: "nat \<Rightarrow> conn conn_cbs \<Rightarrow> bool \<Rightarrow> int \<Rightarrow> conn res" where
  "newConnection loop cbs writeComplete sockfd =
     rbind (new_connection loop sockfd writeComplete) (connectEstablished cbs)"

section \<open>Lemmas\<close>

definition io_ok :: "io_thread \<Rightarrow> bool" where
  "io_ok t \<longleftrightarrow> (it_pc t = InLoop \<longleftrightarrow> it_loop t \<noteq> None) \<and>
     (it_asleep t \<longrightarrow> it_pc t = BeforeLoop \<and> th_started (it_thread t) \<and> it_returned t = None) \<and>
     (it_woken t \<longrightarrow> it_pc t \<noteq> AfterLoop \<and> th_started (it_thread t) \<and> it_returned t = None) \<and>
     \<not> (it_asleep t \<and> it_woken t) \<and>
     (\<not> th_started (it_thread t) \<longrightarrow> it_pc t = BeforeLoop \<and> it_returned t = None) \<and>
     (it_returned t \<noteq> None \<longrightarrow> it_pc t \<noteq> BeforeLoop \<and> (it_pc t = InLoop \<longrightarrow> it_returned t = it_loop t))"

lemma new_io_thread_ok: "io_ok new_io_thread"
  by (simp add: io_ok_def new_io_thread_def new_thread_def)

interpretation iom: safe_machine io_step io_legal io_ok "{}"
proof unfold_locales
  fix t op
  assume ok: "io_ok t" and legal: "io_legal op t"
  have "\<exists>t'. io_step op t = Inr t' \<and> io_ok t'"
  proof (cases op)
    case IoStart
    then show ?thesis using ok legal
      by (auto simp: io_ok_def startLoop_def startLoop_test_def thread_start_def Let_def)
  next
    case IoWake
    then show ?thesis using ok legal
      by (cases "it_pc t") (auto simp: io_ok_def startLoop_wake_def startLoop_test_def)
  qed (use ok legal in \<open>auto simp: io_ok_def threadFunc_publish_def threadFunc_leave_def Let_def\<close>)
  then show "ok_or {} io_ok (io_step op t)" by (simp add: ok_or_total)
qed

text \<open>\<open>startLoop\<close> never sleeps past the moment the loop is there, and returns that loop.\<close>

lemma startLoop_handshake:
  assumes "run_legal io_legal io_step ops new_io_thread"
  shows "\<exists>t. rfold io_step ops new_io_thread = Inr t \<and> (it_asleep t \<longrightarrow> it_loop t = None \<and> it_pc t = BeforeLoop) \<and>
     (it_returned t \<noteq> None \<and> it_pc t = InLoop \<longrightarrow> it_returned t = it_loop t)"
  using iom.run_safe [OF new_io_thread_ok assms] by (auto simp: ok_or_total io_ok_def)

definition env_ok :: "server_env \<Rightarrow> bool" where
  "env_ok E \<longleftrightarrow> inj (se_loop E) \<and> (\<forall>l. 0 \<le> se_sockfd E l \<and> 0 \<le> se_idleFd E l \<and> se_binds E l)"

lemma fold_loops:
  "fold (\<lambda>i p. p\<lparr>ip_loops := ip_loops p @ [mk i]\<rparr>) xs p = p\<lparr>ip_loops := ip_loops p @ map mk xs\<rparr>"
  by (induction xs arbitrary: p) auto

definition fresh_acceptor :: "server_env \<Rightarrow> nat \<Rightarrow> acceptor" where
  "fresh_acceptor E loop = \<lparr>ac_chan = setReadCallback (new_channel loop (se_sockfd E loop)), ac_callback = True, ac_listening = False,
     ac_idleFd = se_idleFd E loop, ac_accepts = 0, ac_opens = 0, ac_events = []\<rparr>"

lemma start_loop_acceptor_fresh:
  assumes "env_ok E" "ts_acceptors s loop = None"
  shows "start_loop_acceptor E loop s =
     Inr (s\<lparr>ts_acceptors := (ts_acceptors s)(loop \<mapsto> fresh_acceptor E loop), ts_listenTasks := ts_listenTasks s @ [loop]\<rparr>)"
  using assms by (simp add: start_loop_acceptor_def new_acceptor_def or_die_def env_ok_def Let_def setAcceptor_def
      setNewConnectionCallback_def fresh_acceptor_def)

lemma start_loop_acceptors:
  assumes "env_ok E" "distinct loops" "\<forall>l \<in> set loops. ts_acceptors s l = None"
  shows "rfold (start_loop_acceptor E) loops s =
     Inr (s\<lparr>ts_acceptors := (\<lambda>l. if l \<in> set loops then Some (fresh_acceptor E l) else ts_acceptors s l),
            ts_listenTasks := ts_listenTasks s @ loops\<rparr>)"
  using assms(2,3)
proof (induction loops arbitrary: s)
  case (Cons l loops)
  define t where "t = s\<lparr>ts_acceptors := (ts_acceptors s)(l \<mapsto> fresh_acceptor E l), ts_listenTasks := ts_listenTasks s @ [l]\<rparr>"
  have step: "start_loop_acceptor E l s = Inr t" using start_loop_acceptor_fresh [OF assms(1), of s l] Cons.prems by (simp add: t_def)
  have "\<forall>k \<in> set loops. ts_acceptors t k = None" using Cons.prems by (auto simp: t_def)
  moreover have "(\<lambda>k. if k \<in> set loops then Some (fresh_acceptor E k) else ts_acceptors t k) =
      (\<lambda>k. if k \<in> set (l # loops) then Some (fresh_acceptor E k) else ts_acceptors s k)"
    by (auto simp: t_def fun_eq_iff)
  ultimately show ?case using Cons.IH [of t] Cons.prems(1) step by (simp add: t_def)
qed simp

section \<open>Properties\<close>

text \<open>
  \<open>start\<close> gives every I/O loop exactly one acceptor, not yet listening, with the server's
  callback set, and queues one \<open>listen\<close> to it; no other loop gets one. With no I/O threads, the
  default, there is none at all.
\<close>

theorem tcp_start_acceptors:
  assumes "env_ok E" "0 \<le> n"
  shows "\<exists>s. rbind (setThreadNum n new_tcp_server) (tcp_start E) = Inr s \<and>
     ts_listenTasks s = map (se_loop E) [0..<nat n] \<and>
     (\<forall>l. ts_acceptors s l = (if l \<in> se_loop E ` {..<nat n} then Some (fresh_acceptor E l) else None))"
proof -
  have "distinct (map (se_loop E) [0..<nat n])" using assms(1) by (simp add: env_ok_def distinct_map inj_on_def)
  then show ?thesis using assms
    by (simp add: setThreadNum_def tcp_start_def new_tcp_server_def new_io_pool_def io_setThreadNum_def io_pool_start_def
        getAllLoops_def fold_loops start_loop_acceptors Let_def atLeast0LessThan)
qed

text \<open>
  A second \<open>start\<close> ends the process, although a flag guards the first part of it: the acceptors
  are replaced, and the destructor of an old one runs on the wrong thread.
\<close>

theorem tcp_start_twice_dies:
  assumes "env_ok E" "0 < n" "rbind (setThreadNum n new_tcp_server) (tcp_start E) = Inr s"
  shows "tcp_start E s = Inl FatalLog"
proof -
  have "distinct (map (se_loop E) [0..<nat n])" using assms(1) by (simp add: env_ok_def distinct_map inj_on_def)
  then have s: "ts_started s = 1" "ip_started (ts_pool s)" "ip_loops (ts_pool s) = map (se_loop E) [0..<nat n]"
    "ts_acceptors s (se_loop E 0) = Some (fresh_acceptor E (se_loop E 0))"
    using assms
    by (auto simp: setThreadNum_def tcp_start_def new_tcp_server_def new_io_pool_def io_setThreadNum_def io_pool_start_def
        getAllLoops_def fold_loops start_loop_acceptors Let_def)
  have "[0..<nat n] = 0 # [1..<nat n]" using assms(2) by (simp add: upt_rec)
  then show ?thesis using assms(1) s
    by (simp add: tcp_start_def getAllLoops_def start_loop_acceptor_def new_acceptor_def or_die_def env_ok_def
        setAcceptor_def acc_destroy_def Let_def)
qed

definition sample_env :: server_env where
  "sample_env = \<lparr>se_loop = (\<lambda>i. i), se_sockfd = (\<lambda>l. 10), se_idleFd = (\<lambda>l. 11), se_binds = (\<lambda>l. True)\<rparr>"

lemma sample_answers_ok: "env_ok sample_env"
  by (simp add: env_ok_def sample_env_def)

theorem tcp_start_acceptors_witness:
  "\<exists>s. rbind (setThreadNum 2 new_tcp_server) (tcp_start sample_env) = Inr s \<and> ts_listenTasks s = [0, 1]"
  using tcp_start_acceptors [OF sample_answers_ok, of 2] by (auto simp: sample_env_def upt_rec)

theorem tcp_start_twice_dies_witness:
  "\<exists>s. rbind (setThreadNum 1 new_tcp_server) (tcp_start sample_env) = Inr s \<and> tcp_start sample_env s = Inl FatalLog"
proof -
  have "\<exists>s. rbind (setThreadNum 1 new_tcp_server) (tcp_start sample_env) = Inr s"
    using sample_answers_ok
    by (simp add: setThreadNum_def tcp_start_def new_tcp_server_def new_io_pool_def io_setThreadNum_def io_pool_start_def
        getAllLoops_def start_loop_acceptor_fresh Let_def)
  then show ?thesis using tcp_start_twice_dies [OF sample_answers_ok, of 1] by auto
qed

end
