(* ===== verification/FileServer.thy ===== *)
theory FileServer
  imports TcpConnection
begin

text \<open>
  The file server of \<open>fileServer/fileServer.cc\<close>: length-prefixed requests to upload a file under a
  password and to download it again. The connection's record is extended by the files and the
  password map. Whether a file can be opened and the answers of \<open>write\<close> (by the length offered) are
  parameters. A loop that waits for the buffer to change, which nothing else on this thread can do,
  is the fault \<open>Diverges\<close>; an exception ends the process (\<open>LengthError\<close>, \<open>OutOfRange\<close>).
\<close>

section \<open>Integers and strings\<close>

text \<open>An \<open>int32_t\<close> read from memory in the machine's byte order, and arithmetic on it.\<close>

definition le_int32 :: "string \<Rightarrow> int" where
  "le_int32 bs =
     (let n = foldr (\<lambda>c acc. int (of_char c) + 256 * acc) bs 0
      in if n < 2 ^ 31 then n else n - 2 ^ 32)"

definition wrap32 :: "int \<Rightarrow> int" where
  "wrap32 i = (i + 2 ^ 31) mod 2 ^ 32 - 2 ^ 31"

definition to_size :: "int \<Rightarrow> nat" where
  "to_size i = nat (i mod 2 ^ 64)"

definition peek_int32 :: "buffer \<Rightarrow> int res" where
  "peek_int32 b = rbind (read_at (buf_data b) (peek b) 4) (\<lambda>bs. Inr (le_int32 bs))"

text \<open>The constructor \<open>string(ptr, n)\<close>, and \<open>substr\<close>.\<close>

definition make_string :: "buffer \<Rightarrow> nat \<Rightarrow> int \<Rightarrow> string res" where
  "make_string b off n =
     (if to_size n > vec_max then Inl LengthError else read_at (buf_data b) (peek b + off) (to_size n))"

definition std_substr :: "int \<Rightarrow> int \<Rightarrow> string \<Rightarrow> string res" where
  "std_substr pos n s =
     (if to_size pos > length s then Inl OutOfRange else Inr (take (to_size n) (drop (to_size pos) s)))"

text \<open>Four bytes of a \<open>std::string\<close> read as an \<open>int\<close>; a string is followed by a zero byte.\<close>

definition string_int32 :: "string \<Rightarrow> int res" where
  "string_int32 s = rbind (read_at (s @ [CHR 0x00]) 0 4) (\<lambda>bs. Inr (le_int32 bs))"

section \<open>State and operations\<close>

record file_conn = conn +
  fs_files :: "string \<Rightarrow> string option"
  fs_passwords :: "string \<Rightarrow> string option"

record file_env =
  fe_opens :: "string \<Rightarrow> bool"
  fe_write :: "nat \<Rightarrow> io_result"

definition file_send :: "file_env \<Rightarrow> string \<Rightarrow> file_conn \<Rightarrow> file_conn res" where
  "file_send E data s = conn_send True (fe_write E (length data)) data s"

text \<open>The name and the password after a command word of \<open>k\<close> letters.\<close>

definition request_fields :: "int \<Rightarrow> string \<Rightarrow> int \<Rightarrow> (string \<times> string) res" where
  "request_fields k message len =
     rbind (std_substr k 4 message) (\<lambda>nameLen.
     rbind (string_int32 nameLen) (\<lambda>n.
     rbind (std_substr (k + 4) n message) (\<lambda>filename.
     rbind (std_substr (wrap32 (k + 4 + n)) (wrap32 (len - (k + 4) - n)) message) (\<lambda>password.
     Inr (filename, password)))))"

definition uploaded :: string where
  "uploaded = ''Upload file finished''"

text \<open>
  An upload: the file's content is the next packet, which must be in the buffer already. The result
  tells whether the handler goes on, and the length of the packet it has to retrieve then.
\<close>

definition file_upload :: "file_env \<Rightarrow> string \<Rightarrow> string \<Rightarrow> int \<Rightarrow> file_conn \<Rightarrow> (bool \<times> int \<times> file_conn) res" where
  "file_upload E filename password len s =
     (if \<not> fe_opens E filename then Inr (False, len, s)
      else
        let s1 = s\<lparr>fs_files := (fs_files s)(filename \<mapsto> [])\<rparr> in
        rbind (retrieve (to_size (wrap32 (len + 4))) (c_in s1)) (\<lambda>b.
        if readableBytes b < 4 then Inl Diverges
        else rbind (peek_int32 b) (\<lambda>len2.
        if readableBytes b < to_size (wrap32 (len2 + 4)) then Inl Diverges
        else rbind (if len2 < 0 then Inl OutOfBounds else read_at (buf_data b) (peek b + 4) (nat len2)) (\<lambda>data.
        let s2 = s1\<lparr>c_in := b, fs_files := (fs_files s1)(filename \<mapsto> data),
                    fs_passwords := (fs_passwords s1)(filename \<mapsto> password)\<rparr>
        in rbind (file_send E uploaded s2) (\<lambda>s3. Inr (True, len2, s3))))))"

text \<open>The length of a chunk printed into an array of four bytes.\<close>

definition chunk_length :: "nat \<Rightarrow> string res" where
  "chunk_length n = write_at (replicate 4 (CHR 0x00)) 0 (dec_nat n @ [CHR 0x00])"

text \<open>A C string read from the 1024 bytes of the buffer.\<close>

definition buffer_cstr :: "string \<Rightarrow> string res" where
  "buffer_cstr buf = (if CHR 0x00 \<in> set buf then Inr (c_str buf) else Inl OutOfBounds)"

text \<open>The download loop; the buffer keeps the bytes of the previous chunk where the new one is shorter.\<close>

function download_loop :: "file_env \<Rightarrow> string \<Rightarrow> string \<Rightarrow> file_conn \<Rightarrow> file_conn res" where
  "download_loop E rest buf s =
     (let chunk = take 1024 rest in
      if chunk = [] then Inr s
      else let buf' = chunk @ drop (length chunk) buf in
           rbind (chunk_length (length chunk)) (\<lambda>len.
           rbind (buffer_cstr buf') (\<lambda>txt.
           rbind (file_send E (''1'' @ len @ txt) s) (\<lambda>s'.
           download_loop E (drop 1024 rest) buf' s'))))"
  by pat_completeness auto
termination
  by (relation "measure (\<lambda>(E, rest, buf, s). length rest)") (auto simp: Let_def)

declare download_loop.simps [simp del]

definition file_download :: "file_env \<Rightarrow> string \<Rightarrow> string \<Rightarrow> file_conn \<Rightarrow> (bool \<times> file_conn) res" where
  "file_download E filename password s =
     (if fs_passwords s filename \<noteq> Some password
      then rbind (file_send E ''0'' s) (\<lambda>s'. Inr (True, s'))
      else case (if fe_opens E filename then fs_files s filename else None) of
             None \<Rightarrow> Inr (False, s)
           | Some content \<Rightarrow>
               rbind (download_loop E content (replicate 1024 (CHR 0x00)) s) (\<lambda>s1.
               rbind (file_send E ''0'' s1) (\<lambda>s2.
               rbind (file_send E ''0'' s2) (\<lambda>s3.
               rbind (file_send E ''0'' s3) (\<lambda>s4. Inr (True, s4))))))"

text \<open>One turn of the loop of \<open>onMessage\<close>, and whether there is another.\<close>

definition file_packet :: "file_env \<Rightarrow> file_conn \<Rightarrow> (bool \<times> file_conn) res" where
  "file_packet E s =
     (if readableBytes (c_in s) < 4 then Inr (False, s)
      else rbind (peek_int32 (c_in s)) (\<lambda>len.
      if readableBytes (c_in s) < to_size (wrap32 (len + 4)) then Inr (False, s)
      else rbind (make_string (c_in s) 4 len) (\<lambda>message.
      rbind (if take 6 message = ''UPLOAD''
             then rbind (request_fields 6 message len) (\<lambda>(filename, password). file_upload E filename password len s)
             else Inr (True, len, s)) (\<lambda>(go1, len1, s1).
      if \<not> go1 then Inr (False, s1)
      else rbind (if take 8 message = ''DOWNLOAD''
             then rbind (request_fields 8 message len1) (\<lambda>(filename, password). file_download E filename password s1)
             else Inr (True, s1)) (\<lambda>(go2, s2).
      if \<not> go2 then Inr (False, s2)
      else rbind (retrieve (to_size (wrap32 (len1 + 4))) (c_in s2)) (\<lambda>b. Inr (True, s2\<lparr>c_in := b\<rparr>)))))))"

partial_function (option) file_onMessage :: "file_env \<Rightarrow> file_conn \<Rightarrow> file_conn res option" where
  "file_onMessage E s =
     (if readableBytes (c_in s) > 0
      then case file_packet E s of
             Inl e \<Rightarrow> Some (Inl e)
           | Inr r \<Rightarrow> if fst r then file_onMessage E (snd r) else Some (Inr (snd r))
      else Some (Inr s))"

section \<open>Packets\<close>

text \<open>What a client sends: a length in the server's byte order and that many bytes.\<close>

definition le_bytes :: "nat \<Rightarrow> string" where
  "le_bytes n = map (\<lambda>i. char_of (n div 256 ^ i)) [0, 1, 2, 3]"

definition packet :: "string \<Rightarrow> string" where
  "packet message = le_bytes (length message) @ message"

definition upload_request :: "string \<Rightarrow> string \<Rightarrow> string" where
  "upload_request filename password = ''UPLOAD'' @ le_bytes (length filename) @ filename @ password"

definition download_request :: "string \<Rightarrow> string \<Rightarrow> string" where
  "download_request filename password = ''DOWNLOAD'' @ le_bytes (length filename) @ filename @ password"

lemma length_le_bytes [simp]: "length (le_bytes n) = 4"
  by (simp add: le_bytes_def)

lemma base256_digits:
  fixes n :: nat
  assumes "n < 2 ^ 31"
  shows "n mod 256 + 256 * (n div 256 mod 256 + 256 * (n div 256 ^ 2 mod 256 + 256 * (n div 256 ^ 3 mod 256))) = n"
proof -
  have q: "n div 256 ^ 2 = n div 256 div 256" "n div 256 ^ 3 = n div 256 div 256 div 256"
    by (simp_all add: div_mult2_eq [symmetric])
  have "n div 256 div 256 div 256 < 256" using assms by (simp add: div_mult2_eq [symmetric] div_less_iff_less_mult)
  then show ?thesis unfolding q by (simp add: mod_mult_div_eq)
qed

lemma le_int32_le_bytes:
  assumes "n < 2 ^ 31"
  shows "le_int32 (le_bytes n) = int n"
proof -
  have "foldr (\<lambda>c acc. int (of_char c) + 256 * acc) (le_bytes n) 0 = int (n mod 256 + 256 * (n div 256 mod 256 +
      256 * (n div 256 ^ 2 mod 256 + 256 * (n div 256 ^ 3 mod 256))))"
    by (simp add: le_bytes_def zmod_int)
  then show ?thesis using assms unfolding base256_digits [OF assms] by (simp add: le_int32_def)
qed

lemma to_size_nat [simp]: "0 \<le> i \<Longrightarrow> i < 2 ^ 64 \<Longrightarrow> to_size i = nat i"
  by (simp add: to_size_def)

lemma wrap32_id [simp]: "- (2 ^ 31) \<le> i \<Longrightarrow> i < 2 ^ 31 \<Longrightarrow> wrap32 i = i"
  by (simp add: wrap32_def)

lemma read_readable_at:
  assumes "buffer_wf b" "k + n \<le> length (readable b)"
  shows "read_at (buf_data b) (peek b + k) n = Inr (take n (drop k (readable b)))"
proof -
  have wf: "readerIndex b \<le> writerIndex b" "writerIndex b \<le> length (buf_data b)" using assms(1) by (auto simp: buffer_wf_def)
  then have len: "length (readable b) = writerIndex b - readerIndex b" by (simp add: readable_def)
  then have "n \<le> writerIndex b - readerIndex b - k" using assms(2) by simp
  then have "take n (drop k (readable b)) = take n (drop (readerIndex b + k) (buf_data b))"
    by (simp add: readable_def drop_take add.commute)
  moreover have "peek b + k + n \<le> length (buf_data b)" using wf len assms(2) by (simp add: peek_def)
  ultimately show ?thesis by (simp add: read_at_def peek_def)
qed

lemma packet_head:
  assumes "buffer_wf b" "readable b = packet message @ rest" "length message + 4 < 2 ^ 31"
  shows "peek_int32 b = Inr (int (length message))" "make_string b 4 (int (length message)) = Inr message"
    "readableBytes b = length message + 4 + length rest"
proof -
  show "readableBytes b = length message + 4 + length rest" using assms(1,2) by (simp add: readableBytes_length packet_def)
  have "read_at (buf_data b) (peek b + 0) 4 = Inr (take 4 (drop 0 (readable b)))"
    using assms by (intro read_readable_at) (auto simp: packet_def)
  then show "peek_int32 b = Inr (int (length message))"
    using assms by (simp add: peek_int32_def packet_def le_int32_le_bytes)
  have "read_at (buf_data b) (peek b + 4) (length message) = Inr (take (length message) (drop 4 (readable b)))"
    using assms by (intro read_readable_at) (auto simp: packet_def)
  then show "make_string b 4 (int (length message)) = Inr message"
    using assms(2,3) by (simp add: make_string_def packet_def vec_max_def)
qed

lemma request_fields_parse:
  assumes "message = word @ le_bytes (length filename) @ filename @ password" "length message + 4 < 2 ^ 31" "k = int (length word)"
  shows "request_fields k message (int (length message)) = Inr (filename, password)"
proof -
  have n: "length word + 4 + length filename + length password + 4 < 2 ^ 31" using assms(1,2) by simp
  have "std_substr k 4 message = Inr (le_bytes (length filename))"
    using assms n by (simp add: std_substr_def)
  moreover have "string_int32 (le_bytes (length filename)) = Inr (int (length filename))"
    using n by (simp add: string_int32_def read_at_def le_int32_le_bytes)
  moreover have "std_substr (k + 4) (int (length filename)) message = Inr filename"
    using assms n by (simp add: std_substr_def nat_add_distrib)
  moreover have "std_substr (wrap32 (k + 4 + int (length filename))) (wrap32 (int (length message) - (k + 4) - int (length filename))) message =
      Inr password"
    using assms n by (simp add: std_substr_def nat_add_distrib)
  ultimately show ?thesis by (simp add: request_fields_def)
qed

text \<open>A turn of the loop on a whole packet, and on one that has not arrived.\<close>

lemma file_packet_whole:
  assumes "buffer_wf (c_in s)" "readable (c_in s) = packet message @ rest" "length message + 4 < 2 ^ 31"
  shows "file_packet E s =
     rbind (if take 6 message = ''UPLOAD''
            then rbind (request_fields 6 message (int (length message))) (\<lambda>(filename, password).
                   file_upload E filename password (int (length message)) s)
            else Inr (True, int (length message), s)) (\<lambda>(go1, len1, s1).
     if \<not> go1 then Inr (False, s1)
     else rbind (if take 8 message = ''DOWNLOAD''
            then rbind (request_fields 8 message len1) (\<lambda>(filename, password). file_download E filename password s1)
            else Inr (True, s1)) (\<lambda>(go2, s2).
     if \<not> go2 then Inr (False, s2)
     else rbind (retrieve (to_size (wrap32 (len1 + 4))) (c_in s2)) (\<lambda>b. Inr (True, s2\<lparr>c_in := b\<rparr>))))"
  unfolding file_packet_def
  using packet_head [OF assms] assms(3) by (simp add: nat_add_distrib)

section \<open>Sending\<close>

text \<open>The kernel keeps its promise and the peer has not gone.\<close>

definition peer_there :: "file_env \<Rightarrow> bool" where
  "peer_there E \<longleftrightarrow> (\<forall>n. write_spec n (fe_write E n) \<and> fe_write E n \<noteq> IoErr EPIPE \<and> fe_write E n \<noteq> IoErr ECONNRESET)"

lemma switch_files:
  "fs_files (conn_switch sw s) = fs_files s" "fs_passwords (conn_switch sw s) = fs_passwords s"
  "fs_files (queue_task t s) = fs_files s" "fs_passwords (queue_task t s) = fs_passwords s"
  by (simp_all add: conn_switch_def queue_task_def)

lemma sendInLoop_files: "sendInLoop wr data s = Inr s' \<Longrightarrow> fs_files s' = fs_files s \<and> fs_passwords s' = fs_passwords s"
  by (auto simp: sendInLoop_def Let_def assertm_def switch_files rbind_Inr_iff split: if_splits prod.splits)

text \<open>A connection that is open, and what a send leaves of it.\<close>

definition file_live :: "file_conn \<Rightarrow> bool" where
  "file_live s \<longleftrightarrow> conn_inv s \<and> c_state s = kConnected"

definition sent :: "string \<Rightarrow> file_conn \<Rightarrow> file_conn \<Rightarrow> bool" where
  "sent data s s' \<longleftrightarrow> file_live s' \<and> c_in s' = c_in s \<and> fs_files s' = fs_files s \<and> fs_passwords s' = fs_passwords s \<and>
     c_accepted s' = c_accepted s @ data"

lemma sent_refl: "file_live s \<Longrightarrow> sent [] s s"
  by (simp add: sent_def)

lemma sent_trans: "sent d1 s s1 \<Longrightarrow> sent d2 s1 s2 \<Longrightarrow> sent (d1 @ d2) s s2"
  by (simp add: sent_def)

lemma file_send_ok:
  assumes "file_live s" "peer_there E" "length data \<le> vec_max"
  shows "ok_or {LengthError} (sent data s) (file_send E data s)"
proof -
  have wr: "write_spec (length data) (fe_write E (length data))" "fe_write E (length data) \<noteq> IoErr EPIPE"
      "fe_write E (length data) \<noteq> IoErr ECONNRESET"
    using assms(2) by (auto simp: peer_there_def)
  have inv: "conn_inv s" "c_state s = kConnected" using assms(1) by (auto simp: file_live_def)
  show ?thesis
  proof (cases "sendInLoop (fe_write E (length data)) data s")
    case (Inl e)
    then show ?thesis using sendInLoop_ok [OF inv(1) wr(1) assms(3)] inv(2) by (simp add: file_send_def conn_send_def)
  next
    case (Inr s')
    then show ?thesis using sendInLoop_ok [OF inv(1) wr(1) assms(3)] inv(2) wr(2,3) sendInLoop_files [OF Inr]
      by (auto simp: file_send_def conn_send_def sent_def file_live_def conn_same_def)
  qed
qed

lemma file_send_then:
  assumes "sent d0 s0 s" "peer_there E" "length data \<le> vec_max"
    and "\<And>s'. sent (d0 @ data) s0 s' \<Longrightarrow> ok_or {LengthError} P (f s')"
  shows "ok_or {LengthError} P (rbind (file_send E data s) f)"
proof (rule ok_or_bind)
  show "ok_or {LengthError} (sent data s) (file_send E data s)"
    using assms(1-3) by (intro file_send_ok) (auto simp: sent_def)
qed (use assms(1,4) sent_trans in blast)

text \<open>The chunk of a small file.\<close>

definition chunk_frame :: "string \<Rightarrow> string" where
  "chunk_frame content = ''1'' @ dec_nat (length content) @ replicate (4 - length (dec_nat (length content))) (CHR 0x00) @ content"

lemma chunk_length_small:
  assumes "n < 1000"
  shows "chunk_length n = Inr (dec_nat n @ replicate (4 - length (dec_nat n)) (CHR 0x00))"
proof -
  have "length (dec_nat n) \<le> 3" using length_dec_nat [of n 3] assms by simp
  moreover have "CHR 0x00 # replicate (3 - k) (CHR 0x00) = replicate (4 - k) (CHR 0x00)" if "k \<le> 3" for k :: nat
    using that by (simp add: Suc_diff_le flip: replicate_Suc)
  ultimately show ?thesis by (simp add: chunk_length_def write_at_def)
qed

lemma c_str_append_nul: "CHR 0x00 \<notin> set xs \<Longrightarrow> c_str (xs @ CHR 0x00 # ys) = xs"
  by (induction xs) (auto simp: c_str_def)

lemma download_small:
  assumes "sent d0 s0 s" "peer_there E" "length content < 1000" "content \<noteq> []" "CHR 0x00 \<notin> set content"
  shows "ok_or {LengthError} (sent (d0 @ chunk_frame content) s0) (download_loop E content (replicate 1024 (CHR 0x00)) s)"
proof -
  have cstr: "buffer_cstr (content @ replicate (1024 - length content) (CHR 0x00)) = Inr content"
  proof -
    have "replicate (1024 - length content) (CHR 0x00) = CHR 0x00 # replicate (1023 - length content) (CHR 0x00)"
      using assms(3) by (simp add: Suc_diff_le flip: replicate_Suc)
    then show ?thesis using assms(5) by (simp add: buffer_cstr_def c_str_append_nul)
  qed
  have frame: "''1'' @ (dec_nat (length content) @ replicate (4 - length (dec_nat (length content))) (CHR 0x00)) @ content = chunk_frame content"
    by (simp add: chunk_frame_def)
  have small: "length (dec_nat (length content)) \<le> 3" using length_dec_nat [of "length content" 3] assms(3) by simp
  have "download_loop E content (replicate 1024 (CHR 0x00)) s =
      rbind (file_send E (chunk_frame content) s) (\<lambda>s'. download_loop E [] (content @ replicate (1024 - length content) (CHR 0x00)) s')"
    using assms(3,4) cstr by (subst download_loop.simps) (simp add: chunk_length_small frame [simplified] Let_def)
  also have "ok_or {LengthError} (sent (d0 @ chunk_frame content) s0) \<dots>"
    using assms(1,2)
  proof (rule file_send_then)
    show "length (chunk_frame content) \<le> vec_max" using assms(3) small by (simp add: chunk_frame_def vec_max_def)
  qed (simp add: download_loop.simps)
  finally show ?thesis .
qed

lemma onMessage_packet:
  assumes "buffer_wf (c_in s)" "readable (c_in s) \<noteq> []" "ok_or F (\<lambda>(go, s'). go \<and> P s') (file_packet E s)"
    and "\<And>s'. P s' \<Longrightarrow> \<exists>r. file_onMessage E s' = Some r \<and> ok_or F Q r"
  shows "\<exists>r. file_onMessage E s = Some r \<and> ok_or F Q r"
proof (cases "file_packet E s")
  case (Inl e)
  then show ?thesis using assms by (subst file_onMessage.simps) (simp add: readableBytes_length)
next
  case (Inr r)
  then show ?thesis using assms by (subst file_onMessage.simps) (auto simp: readableBytes_length)
qed

lemma onMessage_empty: "buffer_wf (c_in s) \<Longrightarrow> readable (c_in s) = [] \<Longrightarrow> file_onMessage E s = Some (Inr s)"
  by (subst file_onMessage.simps) (simp add: readableBytes_length)

section \<open>Requests\<close>

text \<open>A whole upload: its request, then the packet with the content.\<close>

lemma upload_packet:
  assumes "file_live s" "peer_there E" "fe_opens E filename"
    "readable (c_in s) = packet (upload_request filename password) @ packet content @ rest"
    "length (upload_request filename password) + 4 < 2 ^ 31" "length content + 4 < 2 ^ 31"
  shows "ok_or {LengthError} (\<lambda>(go, s'). go \<and> file_live s' \<and> readable (c_in s') = rest \<and> c_accepted s' = c_accepted s @ uploaded \<and>
      fs_files s' = (fs_files s)(filename \<mapsto> content) \<and> fs_passwords s' = (fs_passwords s)(filename \<mapsto> password)) (file_packet E s)"
proof -
  let ?m = "upload_request filename password"
  have wf: "buffer_wf (c_in s)" using assms(1) by (simp add: file_live_def conn_inv_def)
  obtain b where b: "retrieve (length ?m + 4) (c_in s) = Inr b" "buffer_wf b" "readable b = packet content @ rest"
    using retrieve_ok [OF wf, of "length ?m + 4"] assms(4) by (auto simp: packet_def)
  note head = packet_head [OF b(2,3) assms(6)]
  have data: "read_at (buf_data b) (peek b + 4) (length content) = Inr content"
    using read_readable_at [OF b(2), of 4 "length content"] b(3) by (simp add: packet_def)
  define s2 where "s2 = s\<lparr>c_in := b, fs_files := (fs_files s)(filename \<mapsto> content), fs_passwords := (fs_passwords s)(filename \<mapsto> password)\<rparr>"
  have "file_live s2" using assms(1) b(2) by (auto simp: file_live_def conn_inv_def s2_def)
  then have live: "sent [] s2 s2" by (rule sent_refl)
  have len: "to_size (wrap32 (int (length ?m) + 4)) = length ?m + 4" using assms(5) by (simp add: nat_add_distrib)
  have up: "file_upload E filename password (int (length ?m)) s = rbind (file_send E uploaded s2) (\<lambda>s3. Inr (True, int (length content), s3))"
    unfolding file_upload_def len
    using assms(3,6) b(1) head data by (simp add: Let_def nat_add_distrib s2_def)
  have fields: "request_fields 6 ?m (int (length ?m)) = Inr (filename, password)"
    using assms(5) by (intro request_fields_parse) (auto simp: upload_request_def)
  have heads: "take 6 ?m = ''UPLOAD''" "take 8 ?m \<noteq> ''DOWNLOAD''" by (simp_all add: upload_request_def)
  have "file_packet E s = rbind (file_send E uploaded s2) (\<lambda>s3.
      rbind (retrieve (length content + 4) (c_in s3)) (\<lambda>b. Inr (True, s3\<lparr>c_in := b\<rparr>)))"
    unfolding file_packet_whole [OF wf assms(4,5)]
    using heads assms(6) by (simp add: fields up rbind_assoc nat_add_distrib)
  also have "ok_or {LengthError} (\<lambda>(go, s'). go \<and> file_live s' \<and> readable (c_in s') = rest \<and> c_accepted s' = c_accepted s @ uploaded \<and>
      fs_files s' = (fs_files s)(filename \<mapsto> content) \<and> fs_passwords s' = (fs_passwords s)(filename \<mapsto> password)) \<dots>"
    using live assms(2)
  proof (rule file_send_then)
    show "length uploaded \<le> vec_max" by (simp add: uploaded_def vec_max_def)
    fix s3 assume s3: "sent ([] @ uploaded) s2 s3"
    then have "c_in s3 = b" by (simp add: sent_def s2_def)
    then obtain b' where "retrieve (length content + 4) (c_in s3) = Inr b'" "buffer_wf b'" "readable b' = rest"
      using retrieve_ok [OF b(2), of "length content + 4"] b(3) by (auto simp: packet_def)
    then show "ok_or {LengthError} (\<lambda>(go, s'). go \<and> file_live s' \<and> readable (c_in s') = rest \<and> c_accepted s' = c_accepted s @ uploaded \<and>
      fs_files s' = (fs_files s)(filename \<mapsto> content) \<and> fs_passwords s' = (fs_passwords s)(filename \<mapsto> password))
      (rbind (retrieve (length content + 4) (c_in s3)) (\<lambda>b. Inr (True, s3\<lparr>c_in := b\<rparr>)))"
      using s3 by (auto simp: sent_def s2_def file_live_def conn_inv_def)
  qed
  finally show ?thesis .
qed

text \<open>A download request: what the server sends depends on the password alone.\<close>

lemma download_packet:
  assumes "file_live s" "peer_there E"
    "readable (c_in s) = packet (download_request filename password) @ rest" "length (download_request filename password) + 4 < 2 ^ 31"
    and reply: "ok_or {LengthError} (\<lambda>(go, s'). go \<and> sent reply s s') (file_download E filename password s)"
  shows "ok_or {LengthError} (\<lambda>(go, s'). go \<and> file_live s' \<and> readable (c_in s') = rest \<and> c_accepted s' = c_accepted s @ reply \<and>
      fs_files s' = fs_files s \<and> fs_passwords s' = fs_passwords s) (file_packet E s)"
proof -
  let ?m = "download_request filename password"
  have wf: "buffer_wf (c_in s)" using assms(1) by (simp add: file_live_def conn_inv_def)
  have fields: "request_fields 8 ?m (int (length ?m)) = Inr (filename, password)"
    using assms(4) by (intro request_fields_parse) (auto simp: download_request_def)
  have heads: "take 6 ?m \<noteq> ''UPLOAD''" "take 8 ?m = ''DOWNLOAD''" by (simp_all add: download_request_def)
  have len: "to_size (wrap32 (int (length ?m) + 4)) = length ?m + 4" using assms(4) by (simp add: nat_add_distrib)
  have "file_packet E s = rbind (file_download E filename password s) (\<lambda>(go2, s2).
     if \<not> go2 then Inr (False, s2) else rbind (retrieve (length ?m + 4) (c_in s2)) (\<lambda>b. Inr (True, s2\<lparr>c_in := b\<rparr>)))"
    unfolding file_packet_whole [OF wf assms(3,4)] using heads by (simp add: fields len cong: if_cong)
  also have "ok_or {LengthError} (\<lambda>(go, s'). go \<and> file_live s' \<and> readable (c_in s') = rest \<and> c_accepted s' = c_accepted s @ reply \<and>
      fs_files s' = fs_files s \<and> fs_passwords s' = fs_passwords s) \<dots>"
    using reply
  proof (rule ok_or_bind)
    fix r assume "case r of (go, s') \<Rightarrow> go \<and> sent reply s s'"
    then obtain s2 where s2: "r = (True, s2)" "sent reply s s2" by (cases r) auto
    then have "c_in s2 = c_in s" by (simp add: sent_def)
    then obtain b' where "retrieve (length ?m + 4) (c_in s2) = Inr b'" "buffer_wf b'" "readable b' = rest"
      using retrieve_ok [OF wf, of "length ?m + 4"] assms(3) by (auto simp: packet_def)
    then show "ok_or {LengthError} (\<lambda>(go, s'). go \<and> file_live s' \<and> readable (c_in s') = rest \<and> c_accepted s' = c_accepted s @ reply \<and>
      fs_files s' = fs_files s \<and> fs_passwords s' = fs_passwords s)
      (case r of (go2, s2) \<Rightarrow> if \<not> go2 then Inr (False, s2) else rbind (retrieve (length ?m + 4) (c_in s2)) (\<lambda>b. Inr (True, s2\<lparr>c_in := b\<rparr>)))"
      using s2 by (auto simp: sent_def file_live_def conn_inv_def)
  qed
  finally show ?thesis .
qed

lemma download_reply_refused:
  assumes "file_live s" "peer_there E" "fs_passwords s filename \<noteq> Some password"
  shows "ok_or {LengthError} (\<lambda>(go, s'). go \<and> sent ''0'' s s') (file_download E filename password s)"
proof -
  have "ok_or {LengthError} (\<lambda>(go, s'). go \<and> sent ''0'' s s') (rbind (file_send E ''0'' s) (\<lambda>s'. Inr (True, s')))"
    using sent_refl [OF assms(1)] assms(2) by (rule file_send_then) (auto simp: vec_max_def)
  then show ?thesis using assms(3) by (simp add: file_download_def)
qed

lemma download_reply_content:
  assumes "file_live s" "peer_there E" "fe_opens E filename" "fs_passwords s filename = Some password" "fs_files s filename = Some content"
    "length content < 1000" "content \<noteq> []" "CHR 0x00 \<notin> set content"
  shows "ok_or {LengthError} (\<lambda>(go, s'). go \<and> sent (chunk_frame content @ ''000'') s s') (file_download E filename password s)"
proof -
  have one: "length ''0'' \<le> vec_max" by (simp add: vec_max_def)
  have "ok_or {LengthError} (\<lambda>(go, s'). go \<and> sent (chunk_frame content @ ''000'') s s')
     (rbind (download_loop E content (replicate 1024 (CHR 0x00)) s) (\<lambda>s1.
      rbind (file_send E ''0'' s1) (\<lambda>s2. rbind (file_send E ''0'' s2) (\<lambda>s3. rbind (file_send E ''0'' s3) (\<lambda>s4. Inr (True, s4))))))"
    using download_small [OF sent_refl [OF assms(1)] assms(2,6-8)]
  proof (rule ok_or_bind)
    fix s1 assume 1: "sent ([] @ chunk_frame content) s s1"
    show "ok_or {LengthError} (\<lambda>(go, s'). go \<and> sent (chunk_frame content @ ''000'') s s')
      (rbind (file_send E ''0'' s1) (\<lambda>s2. rbind (file_send E ''0'' s2) (\<lambda>s3. rbind (file_send E ''0'' s3) (\<lambda>s4. Inr (True, s4)))))"
      by (rule file_send_then [OF 1 assms(2) one], rule file_send_then [OF _ assms(2) one], assumption,
          rule file_send_then [OF _ assms(2) one], assumption) simp
  qed
  then show ?thesis using assms(3-5) by (simp add: file_download_def)
qed

text \<open>
  A chunk of a thousand bytes or more has a length of four digits, whose terminating zero is written
  behind the array: no file of that size can be downloaded.
\<close>

lemma dec_nat_digits: "10 ^ k \<le> n \<Longrightarrow> k < length (dec_nat n)"
proof (induction k arbitrary: n)
  case 0
  then show ?case by (subst dec_nat.simps) simp
next
  case (Suc k)
  have "(10 :: nat) \<le> 10 * 10 ^ k" by simp
  also have "\<dots> \<le> n" using Suc.prems by simp
  finally have "\<not> n < 10" by simp
  moreover have "10 ^ k \<le> n div 10" using Suc.prems by (simp add: less_eq_div_iff_mult_less_eq mult.commute)
  ultimately show ?case using Suc.IH [of "n div 10"] by (subst dec_nat.simps) simp
qed

lemma download_large_overflows:
  assumes "1000 \<le> length content"
  shows "download_loop E content buf s = Inl OutOfBounds"
proof -
  have "3 < length (dec_nat (length (take 1024 content)))" using assms by (intro dec_nat_digits) simp
  then have "chunk_length (length (take 1024 content)) = Inl OutOfBounds" by (simp add: chunk_length_def write_at_def)
  moreover have "take 1024 content \<noteq> []" using assms by auto
  ultimately show ?thesis by (subst download_loop.simps) (simp add: Let_def)
qed

section \<open>Properties\<close>

text \<open>
  C24: upload and download are inverse. A client that uploads a file of fewer than 1000 bytes without
  zero bytes and then asks for it with the password it gave gets it back, framed by its length, and
  the three closing zeros; the file is stored under the name and everything sent was read. (Only an
  output buffer beyond its largest size stops the server.)
\<close>

theorem upload_download_round_trip:
  assumes "file_live s" "peer_there E" "fe_opens E filename"
    "readable (c_in s) = packet (upload_request filename password) @ packet content @ packet (download_request filename password)"
    "length filename + length password < 2 ^ 30" "length content < 1000" "content \<noteq> []" "CHR 0x00 \<notin> set content"
  shows "\<exists>r. file_onMessage E s = Some r \<and> ok_or {LengthError} (\<lambda>s'. readable (c_in s') = [] \<and>
     fs_files s' filename = Some content \<and> fs_passwords s' filename = Some password \<and>
     c_accepted s' = c_accepted s @ uploaded @ chunk_frame content @ ''000'') r"
proof -
  have lens: "length (upload_request filename password) + 4 < 2 ^ 31" "length (download_request filename password) + 4 < 2 ^ 31"
      "length content + 4 < 2 ^ 31"
    using assms(5,6) by (simp_all add: upload_request_def download_request_def)
  have wf: "buffer_wf (c_in s)" "readable (c_in s) \<noteq> []" using assms(1,4) by (auto simp: file_live_def conn_inv_def packet_def le_bytes_def)
  show ?thesis
    using wf upload_packet [OF assms(1-4) lens(1,3)]
  proof (rule onMessage_packet, elim conjE)
    fix s1 assume s1: "file_live s1" "readable (c_in s1) = packet (download_request filename password)"
      "c_accepted s1 = c_accepted s @ uploaded" "fs_files s1 = (fs_files s)(filename \<mapsto> content)"
      "fs_passwords s1 = (fs_passwords s)(filename \<mapsto> password)"
    have wf1: "buffer_wf (c_in s1)" "readable (c_in s1) \<noteq> []" using s1(1,2) by (auto simp: file_live_def conn_inv_def packet_def le_bytes_def)
    have reply: "ok_or {LengthError} (\<lambda>(go, s'). go \<and> sent (chunk_frame content @ ''000'') s1 s') (file_download E filename password s1)"
      using s1 assms by (intro download_reply_content) auto
    have rd: "readable (c_in s1) = packet (download_request filename password) @ []" using s1(2) by simp
    show "\<exists>r. file_onMessage E s1 = Some r \<and> ok_or {LengthError} (\<lambda>s'. readable (c_in s') = [] \<and>
       fs_files s' filename = Some content \<and> fs_passwords s' filename = Some password \<and>
       c_accepted s' = c_accepted s @ uploaded @ chunk_frame content @ ''000'') r"
      using wf1 download_packet [OF s1(1) assms(2) rd lens(2) reply]
    proof (rule onMessage_packet, elim conjE)
      fix s2 assume s2: "file_live s2" "readable (c_in s2) = []" "c_accepted s2 = c_accepted s1 @ chunk_frame content @ ''000''"
        "fs_files s2 = fs_files s1" "fs_passwords s2 = fs_passwords s1"
      have "buffer_wf (c_in s2)" using s2(1) by (simp add: file_live_def conn_inv_def)
      from onMessage_empty [OF this s2(2), of E] show "\<exists>r. file_onMessage E s2 = Some r \<and> ok_or {LengthError} (\<lambda>s'. readable (c_in s') = [] \<and>
         fs_files s' filename = Some content \<and> fs_passwords s' filename = Some password \<and>
         c_accepted s' = c_accepted s @ uploaded @ chunk_frame content @ ''000'') r"
        using s1 s2 by simp
    qed
  qed
qed

text \<open>
  C25: the password protects a file. A download request whose password is not the one the file was
  uploaded with, or whose file was never uploaded, is answered by the single byte \<open>0\<close>: nothing of any
  file is sent, and neither the files nor the passwords change.
\<close>

theorem download_needs_password:
  assumes "file_live s" "peer_there E" "readable (c_in s) = packet (download_request filename password)"
    "length filename + length password < 2 ^ 30" "fs_passwords s filename \<noteq> Some password"
  shows "\<exists>r. file_onMessage E s = Some r \<and> ok_or {LengthError} (\<lambda>s'. c_accepted s' = c_accepted s @ ''0'' \<and>
     fs_files s' = fs_files s \<and> fs_passwords s' = fs_passwords s) r"
proof -
  have len: "length (download_request filename password) + 4 < 2 ^ 31" using assms(4) by (simp add: download_request_def)
  have wf: "buffer_wf (c_in s)" "readable (c_in s) \<noteq> []" using assms(1,3) by (auto simp: file_live_def conn_inv_def packet_def le_bytes_def)
  have rd: "readable (c_in s) = packet (download_request filename password) @ []" using assms(3) by simp
  show ?thesis
    using wf download_packet [OF assms(1,2) rd len download_reply_refused [OF assms(1,2,5)]]
  proof (rule onMessage_packet, elim conjE)
    fix s2 assume s2: "file_live s2" "readable (c_in s2) = []" "c_accepted s2 = c_accepted s @ ''0''"
      "fs_files s2 = fs_files s" "fs_passwords s2 = fs_passwords s"
    have "buffer_wf (c_in s2)" using s2(1) by (simp add: file_live_def conn_inv_def)
    from onMessage_empty [OF this s2(2), of E] show "\<exists>r. file_onMessage E s2 = Some r \<and> ok_or {LengthError}
        (\<lambda>s'. c_accepted s' = c_accepted s @ ''0'' \<and> fs_files s' = fs_files s \<and> fs_passwords s' = fs_passwords s) r"
      using s2 by simp
  qed
qed

text \<open>
  C40: two messages that stop the whole server. A length of -1 passes the test for a whole packet and
  makes the string constructor throw; and an upload request whose content has not arrived with it
  leaves the handler in a loop that never ends, since only this thread reads the socket.
\<close>

theorem file_server_stops:
  assumes "buffer_wf (c_in s)"
  shows "(\<forall>rest. readable (c_in s) = replicate 4 (CHR 0xFF) @ rest \<longrightarrow> file_onMessage E s = Some (Inl LengthError)) \<and>
    (readable (c_in s) = packet (upload_request filename password) \<and> length filename + length password < 2 ^ 30 \<and> fe_opens E filename \<longrightarrow>
       file_onMessage E s = Some (Inl Diverges))"
proof (intro conjI allI impI)
  fix rest assume rd: "readable (c_in s) = replicate 4 (CHR 0xFF) @ rest"
  have "read_at (buf_data (c_in s)) (peek (c_in s) + 0) 4 = Inr (take 4 (drop 0 (readable (c_in s))))"
    using rd by (intro read_readable_at [OF assms]) simp
  then have "peek_int32 (c_in s) = Inr (- 1)" using rd by (simp add: peek_int32_def le_int32_def numeral_eq_Suc)
  moreover have "make_string (c_in s) 4 (- 1) = Inl LengthError" by (simp add: make_string_def to_size_def vec_max_def)
  ultimately have "file_packet E s = Inl LengthError"
    using rd by (simp add: file_packet_def readableBytes_length [OF assms])
  then show "file_onMessage E s = Some (Inl LengthError)"
    using rd by (subst file_onMessage.simps) (simp add: readableBytes_length [OF assms])
next
  assume "readable (c_in s) = packet (upload_request filename password) \<and> length filename + length password < 2 ^ 30 \<and> fe_opens E filename"
  then have rd: "readable (c_in s) = packet (upload_request filename password) @ []" and len: "length (upload_request filename password) + 4 < 2 ^ 31"
    and opens: "fe_opens E filename"
    by (auto simp: upload_request_def)
  let ?m = "upload_request filename password"
  obtain b where b: "retrieve (length ?m + 4) (c_in s) = Inr b" "buffer_wf b" "readable b = []"
    using retrieve_ok [OF assms, of "length ?m + 4"] rd by (auto simp: packet_def)
  have size: "to_size (wrap32 (int (length ?m) + 4)) = length ?m + 4" using len by (simp add: nat_add_distrib)
  have "file_upload E filename password (int (length ?m)) s = Inl Diverges"
    unfolding file_upload_def size using opens b by (simp add: readableBytes_length)
  moreover have "request_fields 6 ?m (int (length ?m)) = Inr (filename, password)"
    using len by (intro request_fields_parse) (auto simp: upload_request_def)
  moreover have "take 6 ?m = ''UPLOAD''" by (simp add: upload_request_def)
  ultimately have "file_packet E s = Inl Diverges" unfolding file_packet_whole [OF assms rd len] by simp
  then show "file_onMessage E s = Some (Inl Diverges)"
    using rd by (subst file_onMessage.simps) (auto simp: readableBytes_length [OF assms] packet_def le_bytes_def)
qed

section \<open>Concrete runs\<close>

definition file_sample :: "string \<Rightarrow> file_conn" where
  "file_sample input =
     \<lparr>c_state = kConnected, c_reading = True, c_chan = (new_channel 0 7)\<lparr>ch_events := 3\<rparr>,
      c_in = buffer_of input, c_out = buffer_of [], c_writeCompleteCallback = False,
      c_highWaterMarkCallback = False, c_highWaterMark = 64 * 1024 * 1024, c_inLoop = True,
      c_tasks = [], c_wire = [], c_shut = False, c_accepted = [], c_dropped = [], c_closes = 0,
      fs_files = (\<lambda>name. None), fs_passwords = (\<lambda>name. None)\<rparr>"

definition file_sample_env :: file_env where
  "file_sample_env = \<lparr>fe_opens = (\<lambda>name. True), fe_write = (\<lambda>n. IoOk n)\<rparr>"

lemma file_sample_live: "length input + 8 \<le> vec_max \<Longrightarrow> file_live (file_sample input)"
  by (simp add: file_live_def conn_inv_def file_sample_def isWriting_def kWriteEvent_def poll_bits buffer_of_ok
      vec_max_def new_channel_def)

lemma file_sample_peer: "peer_there file_sample_env" "fe_opens file_sample_env name"
  by (simp_all add: peer_there_def file_sample_env_def write_spec_def)

lemma file_sample_readable: "readable (c_in (file_sample input)) = input" "c_accepted (file_sample input) = []"
  "fs_passwords (file_sample input) name = None"
  by (simp_all add: file_sample_def buffer_of_ok)

theorem upload_download_round_trip_witness:
  "\<exists>r. file_onMessage file_sample_env (file_sample (packet (upload_request ''f'' ''pw'') @ packet ''hello'' @ packet (download_request ''f'' ''pw''))) = Some r \<and>
     ok_or {LengthError} (\<lambda>s'. c_accepted s' = uploaded @ chunk_frame ''hello'' @ ''000'') r"
proof -
  let ?i = "packet (upload_request ''f'' ''pw'') @ packet ''hello'' @ packet (download_request ''f'' ''pw'')"
  have "file_live (file_sample ?i)"
    by (rule file_sample_live) (simp add: packet_def upload_request_def download_request_def vec_max_def)
  from upload_download_round_trip [OF this file_sample_peer(1) file_sample_peer(2) file_sample_readable(1)]
  show ?thesis by (auto simp: file_sample_readable elim: ok_or_mono)
qed

theorem download_needs_password_witness:
  "\<exists>r. file_onMessage file_sample_env (file_sample (packet (download_request ''f'' ''pw''))) = Some r \<and>
     ok_or {LengthError} (\<lambda>s'. c_accepted s' = ''0'') r"
proof -
  have "file_live (file_sample (packet (download_request ''f'' ''pw'')))"
    by (rule file_sample_live) (simp add: packet_def download_request_def vec_max_def)
  from download_needs_password [OF this file_sample_peer(1) file_sample_readable(1)]
  show ?thesis by (auto simp: file_sample_readable elim: ok_or_mono)
qed

theorem file_server_stops_witness:
  "file_onMessage file_sample_env (file_sample (replicate 4 (CHR 0xFF))) = Some (Inl LengthError)"
proof -
  have "buffer_wf (c_in (file_sample (replicate 4 (CHR 0xFF))))" by (simp add: file_sample_def buffer_of_ok vec_max_def)
  from file_server_stops [OF this, of file_sample_env] show ?thesis by (simp add: file_sample_readable)
qed

end
