(* ===== verification/Logging.thy ===== *)
theory Logging
  imports LogStream Timestamp
begin

text \<open>
  \<open>class Logger\<close> of \<open>base/Logging.h\<close> and \<open>base/Logging.cc\<close>, with the thread-local caches of
  \<open>base/CurrentThread.h\<close>: a log line is built in a fixed buffer when a \<open>Logger\<close> is made, written to
  by \<open><<\<close>, completed and handed to the output function when it is destroyed. \<open>gmtime_r\<close>,
  \<open>strerror_r\<close> and the kernel's thread id are parameters. The buffer is that of a \<open>LogStream\<close>.
\<close>

section \<open>State\<close>

datatype LogLevel = TRACE | DEBUG | INFO | WARN | ERROR | FATAL

fun level_value :: "LogLevel \<Rightarrow> nat" where
  "level_value TRACE = 0"
| "level_value DEBUG = 1"
| "level_value INFO = 2"
| "level_value WARN = 3"
| "level_value ERROR = 4"
| "level_value FATAL = 5"

fun LogLevelName :: "LogLevel \<Rightarrow> string" where
  "LogLevelName TRACE = ''TRACE ''"
| "LogLevelName DEBUG = ''DEBUG ''"
| "LogLevelName INFO = ''INFO  ''"
| "LogLevelName WARN = ''WARN  ''"
| "LogLevelName ERROR = ''ERROR ''"
| "LogLevelName FATAL = ''FATAL ''"

text \<open>Thread-local data: the second formatted last and its text, the cached id and its text.\<close>

record log_tls =
  t_lastSecond :: int
  t_time :: string
  t_cachedTid :: int
  t_tidString :: string
  t_tidStringLength :: int

definition new_tls :: log_tls where
  "new_tls = \<lparr>t_lastSecond = 0, t_time = [], t_cachedTid = 0, t_tidString = [], t_tidStringLength = 6\<rparr>"

record logger_env =
  lg_gmtime :: "int \<Rightarrow> tm"
  lg_strerror :: "int \<Rightarrow> string"
  lg_gettid :: int

section \<open>Operations\<close>

text \<open>\<open>SourceFile\<close>: the part of a path after its last slash.\<close>

definition sourceFile :: "string \<Rightarrow> string" where
  "sourceFile path = rev (takeWhile (\<lambda>c. c \<noteq> CHR ''/'') (rev path))"

text \<open>\<open>%5d \<close> printed into the thread's array of 32 bytes, once.\<close>

definition pad_space5 :: "int \<Rightarrow> string" where
  "pad_space5 i = replicate (5 - length (dec_int i)) (CHR '' '') @ dec_int i"

definition current_tid :: "logger_env \<Rightarrow> log_tls \<Rightarrow> log_tls" where
  "current_tid E tls =
     (if t_cachedTid tls = 0
      then let acc = pad_space5 (lg_gettid E) @ '' ''
           in tls\<lparr>t_cachedTid := lg_gettid E, t_tidString := snprintf_buf 32 acc, t_tidStringLength := int (length acc)\<rparr>
      else tls)"

text \<open>\<open>s << T(str, len)\<close>: the length is asserted, then that many bytes are appended.\<close>

definition put_T :: "string \<Rightarrow> int \<Rightarrow> fixed_buffer \<Rightarrow> fixed_buffer res" where
  "put_T str len b = assertm (int (length (c_str str)) = len) (stream_append str len b)"

definition formatTime :: "logger_env \<Rightarrow> Timestamp \<Rightarrow> log_tls \<Rightarrow> fixed_buffer \<Rightarrow> (log_tls \<times> fixed_buffer) res" where
  "formatTime E time tls b =
     (let seconds = c_div time kMicroSecondsPerSecond; microseconds = c_mod time kMicroSecondsPerSecond;
          date = format_date (lg_gmtime E seconds)
      in rbind (if seconds \<noteq> t_lastSecond tls
                then assertm (length date = 17)
                       (Inr (tls\<lparr>t_lastSecond := seconds, t_time := snprintf_buf 64 date\<rparr>))
                else Inr tls) (\<lambda>tls1.
         rbind (put_T (t_time tls1) 17 b) (\<lambda>b1.
         rbind (put_T (snprintf_buf 32 (''.'' @ pad6 microseconds @ ''Z '')) 9 b1) (\<lambda>b2.
         Inr (tls1, b2)))))"

text \<open>The error of a failed system call, if the statement is about one.\<close>

definition put_errno :: "logger_env \<Rightarrow> int \<Rightarrow> fixed_buffer \<Rightarrow> fixed_buffer res" where
  "put_errno E savedErrno b =
     (if savedErrno \<noteq> 0
      then rbind (stream_cstr (Some (lg_strerror E savedErrno)) b) (\<lambda>b1.
           rbind (stream_cstr (Some '' (errno='') b1) (\<lambda>b2.
           rbind (formatInteger savedErrno b2) (\<lambda>b3.
           stream_cstr (Some '') '') b3)))
      else Inr b)"

text \<open>The constructor of \<open>Impl\<close>, on a fresh buffer.\<close>

definition new_impl :: "logger_env \<Rightarrow> LogLevel \<Rightarrow> int \<Rightarrow> Timestamp \<Rightarrow> log_tls \<Rightarrow> fixed_buffer \<Rightarrow> (log_tls \<times> fixed_buffer) res" where
  "new_impl E level savedErrno time tls b =
     rbind (formatTime E time tls b) (\<lambda>(tls1, b1).
     let tls2 = current_tid E tls1 in
     rbind (put_T (t_tidString tls2) (t_tidStringLength tls2) b1) (\<lambda>b2.
     rbind (put_T (LogLevelName level) 6 b2) (\<lambda>b3.
     rbind (put_errno E savedErrno b3) (\<lambda>b4. Inr (tls2, b4)))))"

definition finish :: "string \<Rightarrow> int \<Rightarrow> fixed_buffer \<Rightarrow> fixed_buffer res" where
  "finish basename line b =
     rbind (stream_cstr (Some '' - '') b) (\<lambda>b1.
     rbind (stream_append basename (int (length basename)) b1) (\<lambda>b2.
     rbind (stream_char (CHR '':'') b2) (\<lambda>b3.
     rbind (formatInteger line b3) (\<lambda>b4.
     stream_char (CHR 0x0A) b4))))"

text \<open>The four constructors: for \<open>INFO\<close>, for the levels with the function's name, for the others, for errors.\<close>

datatype log_kind = LogInfo | LogFunc LogLevel string | LogPlain LogLevel | LogSys bool int

fun kind_level :: "log_kind \<Rightarrow> LogLevel" where
  "kind_level LogInfo = INFO"
| "kind_level (LogFunc level func) = level"
| "kind_level (LogPlain level) = level"
| "kind_level (LogSys toAbort errno) = (if toAbort then FATAL else ERROR)"

fun kind_errno :: "log_kind \<Rightarrow> int" where
  "kind_errno (LogSys toAbort errno) = errno"
| "kind_errno _ = 0"

definition new_logger :: "logger_env \<Rightarrow> log_kind \<Rightarrow> Timestamp \<Rightarrow> log_tls \<Rightarrow> fixed_buffer \<Rightarrow> (log_tls \<times> fixed_buffer) res" where
  "new_logger E kind time tls b =
     rbind (new_impl E (kind_level kind) (kind_errno kind) time tls b) (\<lambda>(tls1, b1).
     case kind of
       LogFunc level func \<Rightarrow> rbind (stream_cstr (Some func) b1) (\<lambda>b2. rbind (stream_char (CHR '' '') b2) (\<lambda>b3. Inr (tls1, b3)))
     | _ \<Rightarrow> Inr (tls1, b1))"

text \<open>A whole log statement: the text given to the output function, and whether the process ends after it.\<close>

definition log_statement :: "logger_env \<Rightarrow> log_kind \<Rightarrow> string \<Rightarrow> int \<Rightarrow> Timestamp \<Rightarrow> stream_op list \<Rightarrow> log_tls \<Rightarrow>
    fixed_buffer \<Rightarrow> (string \<times> bool \<times> log_tls) res" where
  "log_statement E kind path line time body tls b =
     rbind (new_logger E kind time tls b) (\<lambda>(tls1, b1).
     rbind (rfold stream_step body b1) (\<lambda>b2.
     rbind (finish (sourceFile path) line b2) (\<lambda>b3.
     Inr (fb_toString b3, kind_level kind = FATAL, tls1))))"

text \<open>The macros: three of the levels are subject to the global level.\<close>

definition log_enabled :: "LogLevel \<Rightarrow> log_kind \<Rightarrow> bool" where
  "log_enabled g_logLevel kind \<longleftrightarrow>
     (kind_level kind \<in> {TRACE, DEBUG, INFO} \<longrightarrow> level_value g_logLevel \<le> level_value (kind_level kind))"

section \<open>Lemmas\<close>

text \<open>The caches: nothing formatted yet, or the text belongs to the second and to the id.\<close>

definition tls_ok :: "logger_env \<Rightarrow> log_tls \<Rightarrow> bool" where
  "tls_ok E tls \<longleftrightarrow>
     (t_lastSecond tls = 0 \<or> t_time tls = format_date (lg_gmtime E (t_lastSecond tls))) \<and>
     (t_cachedTid tls = 0 \<or> t_cachedTid tls = lg_gettid E \<and> t_tidString tls = pad_space5 (lg_gettid E) @ '' '' \<and>
        t_tidStringLength tls = int (length (t_tidString tls)))"

definition logger_env_ok :: "logger_env \<Rightarrow> bool" where
  "logger_env_ok E \<longleftrightarrow> (\<forall>t. tm_ok (lg_gmtime E t)) \<and> 0 < lg_gettid E \<and> lg_gettid E < 2 ^ 31"

lemma new_tls_ok: "tls_ok E new_tls"
  by (simp add: tls_ok_def new_tls_def)

lemma pad_space5_ok:
  assumes "0 < i" "i < 2 ^ 31"
  shows "length (pad_space5 i) \<le> 10" "CHR 0x00 \<notin> set (pad_space5 i)"
proof -
  have "length (dec_nat (nat i)) \<le> 10" using assms length_dec_nat [of "nat i" 10] by simp
  then show "length (pad_space5 i) \<le> 10" using assms by (simp add: pad_space5_def dec_int_def)
  show "CHR 0x00 \<notin> set (pad_space5 i)" using assms dec_nat_no_nul by (simp add: pad_space5_def dec_int_def)
qed

lemma current_tid_ok:
  assumes "tls_ok E tls" "logger_env_ok E"
  shows "tls_ok E (current_tid E tls)" "t_tidString (current_tid E tls) = pad_space5 (lg_gettid E) @ '' ''"
    "t_tidStringLength (current_tid E tls) = int (length (pad_space5 (lg_gettid E))) + 1"
  using assms pad_space5_ok [of "lg_gettid E"]
  by (auto simp: current_tid_def tls_ok_def logger_env_ok_def Let_def snprintf_buf_def)

text \<open>Appending to a buffer with room for it.\<close>

definition holds :: "string \<Rightarrow> fixed_buffer \<Rightarrow> bool" where
  "holds acc b \<longleftrightarrow> fb_ok kSmallBuffer b \<and> fb_toString b = acc"

lemma holds_length: "holds acc b \<Longrightarrow> length acc < kSmallBuffer"
  using fb_text_length [of kSmallBuffer b] by (auto simp: holds_def fb_ok_def)

lemma holds_append:
  assumes "holds acc b" "length acc + length x < kSmallBuffer"
  shows "\<exists>b'. fb_append x (int (length x)) b = Inr b' \<and> holds (acc @ x) b'"
proof -
  have ok: "fb_ok kSmallBuffer b" "fb_toString b = acc" using assms(1) by (auto simp: holds_def)
  have "length x < fb_avail b" using assms(2) ok fb_text_length [OF ok(1)] by (auto simp: fb_avail_def fb_ok_def)
  from fb_append_fits [OF ok(1) this] ok(2) show ?thesis by (auto simp: holds_def)
qed

lemma holds_step:
  assumes "holds acc b" "stream_op_ok op" "length acc + stream_room op \<le> kSmallBuffer"
  shows "\<exists>b'. stream_step op b = Inr b' \<and> holds (acc @ stream_text op) b'"
  using stream_step_ok [of kSmallBuffer b op] assms by (auto simp: holds_def)

lemma then_append:
  assumes "holds acc b" "length acc + length x < kSmallBuffer" "\<And>b'. holds (acc @ x) b' \<Longrightarrow> ok_or F Q (f b')"
  shows "ok_or F Q (rbind (stream_append x (int (length x)) b) f)"
  using holds_append [OF assms(1,2)] assms(3) by (auto simp: stream_append_def)

lemma then_T:
  assumes "holds acc b" "CHR 0x00 \<notin> set x" "len = int (length x)" "length acc + length x < kSmallBuffer"
    "\<And>b'. holds (acc @ x) b' \<Longrightarrow> ok_or F Q (f b')"
  shows "ok_or F Q (rbind (put_T x len b) f)"
  using then_append [OF assms(1,4,5)] assms(2,3) by (simp add: put_T_def)

lemma then_step:
  assumes "holds acc b" "stream_op_ok op" "length acc + stream_room op \<le> kSmallBuffer"
    "\<And>b'. holds (acc @ stream_text op) b' \<Longrightarrow> ok_or F Q (f b')"
  shows "ok_or F Q (rbind (stream_step op b) f)"
  using holds_step [OF assms(1-3)] assms(4) by auto

lemmas then_cstr = then_step [where op = "StreamCstr (Some x)" for x, unfolded stream_step.simps]
lemmas then_char = then_step [where op = "StreamChar c" for c, unfolded stream_step.simps]
lemmas then_int = then_step [where op = "StreamInteger i" for i, unfolded stream_step.simps]

lemma stream_room_text: "stream_op_ok op \<Longrightarrow> length (stream_text op) < stream_room op"
proof (cases op)
  case (StreamInteger v)
  assume "stream_op_ok op"
  then show ?thesis using length_convert [of v] by (simp add: StreamInteger convert_dec_int [symmetric])
next
  case (StreamPointer v)
  assume "stream_op_ok op"
  then show ?thesis using length_convertHex_loop [of v 16] by (simp add: StreamPointer convertHex_def)
qed simp_all

lemma holds_run:
  assumes "holds acc b" "\<forall>op \<in> set ops. stream_op_ok op" "length acc + sum_list (map stream_room ops) \<le> kSmallBuffer"
    "\<And>b'. holds (acc @ concat (map stream_text ops)) b' \<Longrightarrow> ok_or F Q (f b')"
  shows "ok_or F Q (rbind (rfold stream_step ops b) f)"
  using assms
proof (induction ops arbitrary: acc b)
  case (Cons op ops)
  have "ok_or F Q (rbind (stream_step op b) (\<lambda>b'. rbind (rfold stream_step ops b') f))"
  proof (rule then_step [OF Cons.prems(1)])
    fix b' assume b': "holds (acc @ stream_text op) b'"
    show "ok_or F Q (rbind (rfold stream_step ops b') f)"
      using Cons.prems stream_room_text [of op] by (intro Cons.IH [OF b']) auto
  qed (use Cons.prems in auto)
  then show ?case by (simp add: rbind_assoc)
qed simp

text \<open>The time, from the cache or not, is that of the statement.\<close>

definition time_text :: "logger_env \<Rightarrow> Timestamp \<Rightarrow> string" where
  "time_text E time = format_date (lg_gmtime E (time div 1000000)) @ ''.'' @ pad6 (time mod 1000000) @ ''Z ''"

lemma formatTime_ok:
  assumes "logger_env_ok E" "tls_ok E tls" "1000000 \<le> time" "holds [] b"
  shows "ok_or {} (\<lambda>(tls', b'). tls_ok E tls' \<and> holds (time_text E time) b') (formatTime E time tls b)"
proof -
  let ?sec = "time div 1000000"
  have sec: "c_div time kMicroSecondsPerSecond = ?sec" "c_mod time kMicroSecondsPerSecond = time mod 1000000" "?sec \<noteq> 0"
    using assms(3) by (auto simp: c_div_nonneg c_mod_nonneg kMicroSecondsPerSecond_def)
  have date: "length (format_date (lg_gmtime E ?sec)) = 17" using assms(1) by (simp add: logger_env_ok_def length_format_date)
  define tls1 where "tls1 = (if ?sec \<noteq> t_lastSecond tls
     then tls\<lparr>t_lastSecond := ?sec, t_time := snprintf_buf 64 (format_date (lg_gmtime E ?sec))\<rparr> else tls)"
  have tls1: "tls_ok E tls1" "t_time tls1 = format_date (lg_gmtime E ?sec)"
    using assms(2) date sec(3) by (auto simp: tls1_def tls_ok_def snprintf_buf_def)
  have us: "length (pad6 (time mod 1000000)) = 6" by (intro length_pad6) auto
  have "formatTime E time tls b = rbind (put_T (t_time tls1) 17 b) (\<lambda>b1.
      rbind (put_T (''.'' @ pad6 (time mod 1000000) @ ''Z '') 9 b1) (\<lambda>b2. Inr (tls1, b2)))"
    using date us by (simp add: formatTime_def sec tls1_def Let_def snprintf_buf_def)
  also have "ok_or {} (\<lambda>(tls', b'). tls_ok E tls' \<and> holds (time_text E time) b') \<dots>"
  proof (rule then_T [OF assms(4)])
    fix b1 assume b1: "holds ([] @ t_time tls1) b1"
    show "ok_or {} (\<lambda>(tls', b'). tls_ok E tls' \<and> holds (time_text E time) b')
      (rbind (put_T (''.'' @ pad6 (time mod 1000000) @ ''Z '') 9 b1) (\<lambda>b2. Inr (tls1, b2)))"
      by (rule then_T [OF b1]) (use tls1 us date format_date_no_nul in \<open>auto simp: kSmallBuffer_def time_text_def\<close>)
  qed (use tls1 date format_date_no_nul in \<open>auto simp: kSmallBuffer_def\<close>)
  finally show ?thesis .
qed

definition errno_text :: "logger_env \<Rightarrow> int \<Rightarrow> string" where
  "errno_text E e = (if e \<noteq> 0 then c_str (lg_strerror E e) @ '' (errno='' @ dec_int e @ '') '' else [])"

fun func_text :: "log_kind \<Rightarrow> string" where
  "func_text (LogFunc level func) = c_str func @ '' ''"
| "func_text _ = []"

text \<open>What a line starts with: time, thread, level, the error, the function.\<close>

definition impl_text :: "logger_env \<Rightarrow> LogLevel \<Rightarrow> int \<Rightarrow> Timestamp \<Rightarrow> string" where
  "impl_text E level e time =
     time_text E time @ (pad_space5 (lg_gettid E) @ '' '') @ LogLevelName level @ errno_text E e"

definition log_header :: "logger_env \<Rightarrow> log_kind \<Rightarrow> Timestamp \<Rightarrow> string" where
  "log_header E kind time = impl_text E (kind_level kind) (kind_errno kind) time @ func_text kind"

lemma level_name: "length (LogLevelName level) = 6" "CHR 0x00 \<notin> set (LogLevelName level)"
  by (cases level; simp)+

lemma then_errno:
  assumes "holds acc b" "- (2 ^ 31) \<le> e" "e < 2 ^ 31" "length (lg_strerror E e) < 2 ^ 31" "length (acc @ errno_text E e) + 40 \<le> kSmallBuffer"
    "\<And>b'. holds (acc @ errno_text E e) b' \<Longrightarrow> ok_or F Q (f b')"
  shows "ok_or F Q (rbind (put_errno E e b) f)"
proof (cases "e = 0")
  case True
  then show ?thesis using assms(1,6) by (simp add: errno_text_def put_errno_def)
next
  case False
  have room: "length acc + length (c_str (lg_strerror E e)) + 50 \<le> kSmallBuffer"
    using assms(5) False by (simp add: errno_text_def)
  have "ok_or F Q (rbind (stream_cstr (Some (lg_strerror E e)) b) (\<lambda>b4. rbind (stream_cstr (Some '' (errno='') b4) (\<lambda>b5.
      rbind (formatInteger e b5) (\<lambda>b6. rbind (stream_cstr (Some '') '') b6) f))))"
  proof (rule then_cstr [OF assms(1)])
    fix b4 assume b4: "holds (acc @ stream_text (StreamCstr (Some (lg_strerror E e)))) b4"
    show "ok_or F Q (rbind (stream_cstr (Some '' (errno='') b4) (\<lambda>b5. rbind (formatInteger e b5) (\<lambda>b6. rbind (stream_cstr (Some '') '') b6) f)))"
    proof (rule then_cstr [OF b4])
      fix b5 assume b5: "holds ((acc @ stream_text (StreamCstr (Some (lg_strerror E e)))) @ stream_text (StreamCstr (Some '' (errno=''))) b5"
      show "ok_or F Q (rbind (formatInteger e b5) (\<lambda>b6. rbind (stream_cstr (Some '') '') b6) f))"
      proof (rule then_int [OF b5])
        fix b6 assume b6: "holds (((acc @ stream_text (StreamCstr (Some (lg_strerror E e)))) @ stream_text (StreamCstr (Some '' (errno=''))) @
          stream_text (StreamInteger e)) b6"
        show "ok_or F Q (rbind (stream_cstr (Some '') '') b6) f)"
          by (rule then_cstr [OF b6]) (use assms(5,6) False in \<open>auto simp: errno_text_def c_str_def\<close>)
      qed (use assms(2,3) room in \<open>auto simp: c_str_def\<close>)
    qed (use room in \<open>auto simp: c_str_def\<close>)
  qed (use assms(4) room in auto)
  then show ?thesis using False by (simp add: put_errno_def rbind_assoc)
qed

lemma new_impl_ok:
  assumes E: "logger_env_ok E" and tls: "tls_ok E tls" and time: "1000000 \<le> time" and b: "holds [] b"
    and e: "- (2 ^ 31) \<le> e" "e < 2 ^ 31" "length (lg_strerror E e) < 2 ^ 31" "length (impl_text E level e time) + 40 \<le> kSmallBuffer"
  shows "ok_or {} (\<lambda>(tls', b'). tls_ok E tls' \<and> holds (impl_text E level e time) b') (new_impl E level e time tls b)"
  unfolding new_impl_def
proof (rule ok_or_bind [OF formatTime_ok [OF E tls time b]])
  fix r assume r: "case r of (tls1, b1) \<Rightarrow> tls_ok E tls1 \<and> holds (time_text E time) b1"
  obtain tls1 b1 where r1: "r = (tls1, b1)" "tls_ok E tls1" "holds (time_text E time) b1" using r by (cases r) auto
  define tls2 where "tls2 = current_tid E tls1"
  note tid = current_tid_ok [OF r1(2) E, folded tls2_def]
  have pid: "CHR 0x00 \<notin> set (pad_space5 (lg_gettid E))" using E pad_space5_ok by (simp add: logger_env_ok_def)
  have room: "length (time_text E time) + length (pad_space5 (lg_gettid E)) + 7 + length (errno_text E e) + 40 \<le> kSmallBuffer"
    using e(4) by (simp add: impl_text_def level_name)
  have "ok_or {} (\<lambda>(tls', b'). tls_ok E tls' \<and> holds (impl_text E level e time) b')
      (rbind (put_T (t_tidString tls2) (t_tidStringLength tls2) b1) (\<lambda>b2. rbind (put_T (LogLevelName level) 6 b2) (\<lambda>b3.
     rbind (put_errno E e b3) (\<lambda>b4. Inr (tls2, b4)))))"
  proof (rule then_T [OF r1(3)])
    fix b2 assume b2: "holds (time_text E time @ t_tidString tls2) b2"
    show "ok_or {} (\<lambda>(tls', b'). tls_ok E tls' \<and> holds (impl_text E level e time) b')
      (rbind (put_T (LogLevelName level) 6 b2) (\<lambda>b3.
     rbind (put_errno E e b3) (\<lambda>b4. Inr (tls2, b4))))"
    proof (rule then_T [OF b2])
      fix b3 assume b3: "holds ((time_text E time @ t_tidString tls2) @ LogLevelName level) b3"
      show "ok_or {} (\<lambda>(tls', b'). tls_ok E tls' \<and> holds (impl_text E level e time) b')
        (rbind (put_errno E e b3) (\<lambda>b4. Inr (tls2, b4)))"
        by (rule then_errno [OF b3 e(1-3)]) (use tid room in \<open>auto simp: level_name impl_text_def\<close>)
    qed (use tid room in \<open>auto simp: level_name\<close>)
  qed (use tid pid room in auto)
  then show "ok_or {} (\<lambda>(tls', b'). tls_ok E tls' \<and> holds (impl_text E level e time) b')
    (case r of (tls1, b1) \<Rightarrow> let tls2 = current_tid E tls1 in
     rbind (put_T (t_tidString tls2) (t_tidStringLength tls2) b1) (\<lambda>b2. rbind (put_T (LogLevelName level) 6 b2) (\<lambda>b3.
     rbind (put_errno E e b3) (\<lambda>b4. Inr (tls2, b4)))))"
    by (simp add: r1(1) tls2_def Let_def)
qed

definition kind_ok :: "logger_env \<Rightarrow> log_kind \<Rightarrow> bool" where
  "kind_ok E kind \<longleftrightarrow> - (2 ^ 31) \<le> kind_errno kind \<and> kind_errno kind < 2 ^ 31 \<and> length (lg_strerror E (kind_errno kind)) < 2 ^ 31 \<and>
     (case kind of LogFunc level func \<Rightarrow> length func < 2 ^ 31 | _ \<Rightarrow> True)"

lemma stream_rooms: "\<forall>op \<in> set ops. stream_op_ok op \<Longrightarrow> length (concat (map stream_text ops)) \<le> sum_list (map stream_room ops)"
proof (induction ops)
  case (Cons op ops)
  then show ?case using stream_room_text [of op] by auto
qed simp

lemma new_logger_ok:
  assumes E: "logger_env_ok E" and tls: "tls_ok E tls" and time: "1000000 \<le> time" and b: "holds [] b"
    and e: "- (2 ^ 31) \<le> kind_errno kind" "kind_errno kind < 2 ^ 31" "length (lg_strerror E (kind_errno kind)) < 2 ^ 31"
    and room: "length (log_header E kind time) + 40 \<le> kSmallBuffer"
    and func: "\<And>level f. kind = LogFunc level f \<Longrightarrow> length f < 2 ^ 31"
  shows "ok_or {} (\<lambda>(tls', b'). tls_ok E tls' \<and> holds (log_header E kind time) b') (new_logger E kind time tls b)"
  unfolding new_logger_def
proof (rule ok_or_bind [OF new_impl_ok [OF E tls time b e]])
  show "length (impl_text E (kind_level kind) (kind_errno kind) time) + 40 \<le> kSmallBuffer" using room by (simp add: log_header_def)
  fix r assume r: "case r of (tls1, b1) \<Rightarrow> tls_ok E tls1 \<and> holds (impl_text E (kind_level kind) (kind_errno kind) time) b1"
  obtain tls1 b1 where r1: "r = (tls1, b1)" "tls_ok E tls1" "holds (impl_text E (kind_level kind) (kind_errno kind) time) b1"
    using r by (cases r) auto
  show "ok_or {} (\<lambda>(tls', b'). tls_ok E tls' \<and> holds (log_header E kind time) b')
    (case r of (tls1, b1) \<Rightarrow> case kind of
       LogFunc level func \<Rightarrow> rbind (stream_cstr (Some func) b1) (\<lambda>b2. rbind (stream_char (CHR '' '') b2) (\<lambda>b3. Inr (tls1, b3)))
     | _ \<Rightarrow> Inr (tls1, b1))"
  proof (cases kind)
    case (LogFunc level f)
    have "ok_or {} (\<lambda>(tls', b'). tls_ok E tls' \<and> holds (log_header E kind time) b')
        (rbind (stream_cstr (Some f) b1) (\<lambda>b2. rbind (stream_char (CHR '' '') b2) (\<lambda>b3. Inr (tls1, b3))))"
    proof (rule then_cstr [OF r1(3)])
      fix b2 assume b2: "holds (impl_text E (kind_level kind) (kind_errno kind) time @ stream_text (StreamCstr (Some f))) b2"
      show "ok_or {} (\<lambda>(tls', b'). tls_ok E tls' \<and> holds (log_header E kind time) b')
          (rbind (stream_char (CHR '' '') b2) (\<lambda>b3. Inr (tls1, b3)))"
        by (rule then_char [OF b2]) (use room r1(2) LogFunc in \<open>auto simp: log_header_def\<close>)
    qed (use func room LogFunc in \<open>auto simp: log_header_def\<close>)
    then show ?thesis by (simp add: r1(1) LogFunc)
  qed (use r1 in \<open>auto simp: log_header_def\<close>)
qed

definition log_footer :: "string \<Rightarrow> int \<Rightarrow> string" where
  "log_footer basename line = '' - '' @ basename @ '':'' @ dec_int line @ [CHR 0x0A]"

lemma finish_ok:
  assumes "holds acc b" "- (2 ^ 31) \<le> line" "line < 2 ^ 31" "length acc + length basename + 50 \<le> kSmallBuffer"
  shows "ok_or {} (holds (acc @ log_footer basename line)) (finish basename line b)"
proof -
  have int_room: "length (dec_int line) < 32" using length_convert [of line] assms(2,3) by (simp add: convert_dec_int)
  have "ok_or {} (holds (acc @ log_footer basename line)) (rbind (finish basename line b) Inr)"
    unfolding finish_def rbind_assoc
  proof (rule then_cstr [OF assms(1)])
    fix b1 assume b1: "holds (acc @ stream_text (StreamCstr (Some '' - ''))) b1"
    show "ok_or {} (holds (acc @ log_footer basename line)) (rbind (stream_append basename (int (length basename)) b1) (\<lambda>b2.
      rbind (stream_char (CHR '':'') b2) (\<lambda>b3. rbind (formatInteger line b3) (\<lambda>b4. rbind (stream_char (CHR 0x0A) b4) Inr))))"
    proof (rule then_append [OF b1])
      fix b2 assume b2: "holds ((acc @ stream_text (StreamCstr (Some '' - ''))) @ basename) b2"
      show "ok_or {} (holds (acc @ log_footer basename line)) (rbind (stream_char (CHR '':'') b2) (\<lambda>b3.
        rbind (formatInteger line b3) (\<lambda>b4. rbind (stream_char (CHR 0x0A) b4) Inr)))"
      proof (rule then_char [OF b2])
        fix b3 assume b3: "holds (((acc @ stream_text (StreamCstr (Some '' - ''))) @ basename) @ stream_text (StreamChar (CHR '':''))) b3"
        show "ok_or {} (holds (acc @ log_footer basename line)) (rbind (formatInteger line b3) (\<lambda>b4. rbind (stream_char (CHR 0x0A) b4) Inr))"
        proof (rule then_int [OF b3])
          fix b4 assume b4: "holds ((((acc @ stream_text (StreamCstr (Some '' - ''))) @ basename) @ stream_text (StreamChar (CHR '':''))) @
            stream_text (StreamInteger line)) b4"
          show "ok_or {} (holds (acc @ log_footer basename line)) (rbind (stream_char (CHR 0x0A) b4) Inr)"
            by (rule then_char [OF b4]) (use assms(4) int_room in \<open>auto simp: log_footer_def c_str_def\<close>)
        qed (use assms in \<open>auto simp: c_str_def\<close>)
      qed (use assms in \<open>auto simp: c_str_def\<close>)
    qed (use assms in \<open>auto simp: c_str_def\<close>)
  qed (use assms in \<open>auto simp: c_str_def\<close>)
  then show ?thesis by (cases "finish basename line b") auto
qed

text \<open>A statement with room for its line.\<close>

lemma log_statement_ok:
  assumes E: "logger_env_ok E" and tls: "tls_ok E tls" and time: "1000000 \<le> time" and b: "holds [] b"
    and kind: "kind_ok E kind" and line: "0 \<le> line" "line < 2 ^ 31" and body: "\<forall>op \<in> set body. stream_op_ok op"
    and room: "length (log_header E kind time) + sum_list (map stream_room body) + length (sourceFile path) + 50 \<le> kSmallBuffer"
  shows "\<exists>tls'. log_statement E kind path line time body tls b =
      Inr (log_header E kind time @ concat (map stream_text body) @ log_footer (sourceFile path) line, kind_level kind = FATAL, tls') \<and>
    tls_ok E tls' \<and> length (log_header E kind time @ concat (map stream_text body) @ log_footer (sourceFile path) line) < kSmallBuffer"
proof -
  let ?Q = "\<lambda>(out, dies, tls'). out = log_header E kind time @ concat (map stream_text body) @ log_footer (sourceFile path) line \<and>
     dies = (kind_level kind = FATAL) \<and> tls_ok E tls' \<and> length out < kSmallBuffer"
  have start: "ok_or {} (\<lambda>(tls', b'). tls_ok E tls' \<and> holds (log_header E kind time) b') (new_logger E kind time tls b)"
    using kind room by (intro new_logger_ok [OF E tls time b]) (auto simp: kind_ok_def)
  have "ok_or {} ?Q (log_statement E kind path line time body tls b)"
    unfolding log_statement_def
  proof (rule ok_or_bind [OF start], clarify)
    fix tls1 b1 assume 1: "tls_ok E tls1" "holds (log_header E kind time) b1"
    show "ok_or {} ?Q (rbind (rfold stream_step body b1) (\<lambda>b2. rbind (finish (sourceFile path) line b2)
        (\<lambda>b3. Inr (fb_toString b3, kind_level kind = FATAL, tls1))))"
    proof (rule holds_run [OF 1(2) body])
      fix b2 assume b2: "holds (log_header E kind time @ concat (map stream_text body)) b2"
      have "ok_or {} (holds ((log_header E kind time @ concat (map stream_text body)) @ log_footer (sourceFile path) line)) (finish (sourceFile path) line b2)"
        using line room stream_rooms [OF body] by (intro finish_ok [OF b2]) auto
      then show "ok_or {} ?Q (rbind (finish (sourceFile path) line b2) (\<lambda>b3. Inr (fb_toString b3, kind_level kind = FATAL, tls1)))"
      proof (rule ok_or_bind)
        fix b3 assume b3: "holds ((log_header E kind time @ concat (map stream_text body)) @ log_footer (sourceFile path) line) b3"
        from holds_length [OF b3] b3 1(1) show "ok_or {} ?Q (Inr (fb_toString b3, kind_level kind = FATAL, tls1))"
          by (simp add: holds_def)
      qed
    qed (use room in simp)
  qed
  then show ?thesis by (auto simp: ok_or_total)
qed

section \<open>Properties\<close>

text \<open>
  A log statement that has room in its buffer hands the output function exactly one whole line:
  the time of the statement, whether or not its second was formatted before on this thread, the
  thread, the level, the error of a failed system call, the function, the message and the place,
  in this order; no assertion on a length fails, the caches stay valid for the next statement, and
  the process ends after the line exactly when the level is fatal.
\<close>

theorem log_statement_line:
  assumes E: "logger_env_ok E" and tls: "tls_ok E tls" and time: "1000000 \<le> time" and b: "holds [] b"
    and kind: "kind_ok E kind" and line: "0 \<le> line" "line < 2 ^ 31" and body: "\<forall>op \<in> set body. stream_op_ok op"
    and room: "length (log_header E kind time) + sum_list (map stream_room body) + length (sourceFile path) + 50 \<le> kSmallBuffer"
  shows "\<exists>tls'. log_statement E kind path line time body tls b =
      Inr (log_header E kind time @ concat (map stream_text body) @ log_footer (sourceFile path) line, kind_level kind = FATAL, tls') \<and>
    tls_ok E tls'"
  using log_statement_ok [OF assms] by blast

definition sample_logger_env :: logger_env where
  "sample_logger_env = \<lparr>lg_gmtime = (\<lambda>t. \<lparr>tm_year = 121, tm_mon = 5, tm_mday = 7, tm_hour = 8, tm_min = 9, tm_sec = 10\<rparr>),
     lg_strerror = (\<lambda>e. ''Broken pipe''), lg_gettid = 42\<rparr>"

theorem log_statement_line_witness:
  "\<exists>tls'. log_statement sample_logger_env (LogSys False 32) ''net/a.cc'' 7 5000003 [StreamCstr (Some ''write''), StreamInteger (- 1)] new_tls
      (new_fixed_buffer (replicate kSmallBuffer (CHR 0x00))) =
      Inr (''20210607 08:09:10.000003Z    42 ERROR Broken pipe (errno=32) write-1 - a.cc:7'' @ [CHR 0x0A], False, tls')"
proof -
  let ?b = "new_fixed_buffer (replicate kSmallBuffer (CHR 0x00))"
  have b: "holds [] ?b" by (simp add: holds_def fb_ok_def new_fixed_buffer_def fb_toString_def fb_length_def kSmallBuffer_def)
  have E: "logger_env_ok sample_logger_env" by (simp add: logger_env_ok_def sample_logger_env_def tm_ok_def)
  have k: "kind_ok sample_logger_env (LogSys False 32)" by (simp add: kind_ok_def sample_logger_env_def)
  have h: "log_header sample_logger_env (LogSys False 32) 5000003 = ''20210607 08:09:10.000003Z    42 ERROR Broken pipe (errno=32) ''"
    by code_simp
  have p: "sourceFile ''net/a.cc'' = ''a.cc''" by code_simp
  have f: "log_footer ''a.cc'' 7 = '' - a.cc:7'' @ [CHR 0x0A]" by code_simp
  have m: "dec_int (- 1) = ''-1''" "c_str ''write'' = ''write''" by code_simp+
  from log_statement_line [OF E new_tls_ok _ b k, of 5000003 7 "[StreamCstr (Some ''write''), StreamInteger (- 1)]" "''net/a.cc''"]
  show ?thesis by (auto simp: h p f m kSmallBuffer_def)
qed

end
