(* ===== verification/InetAddress.thy ===== *)
theory InetAddress
  imports Prelude
begin

text \<open>
  \<open>net/Endian.h\<close>, \<open>class InetAddress\<close> of \<open>net/InetAddress.h\<close> and \<open>net/InetAddress.cc\<close>, and the address
  functions of \<open>net/SocketOps.cc\<close>. Integers keep their widths; the host is little-endian, as the
  machines the program is built for are. \<open>inet_pton\<close> and \<open>inet_ntop\<close> are those of the C library, for
  the one address family the sources use.
\<close>

section \<open>Byte order\<close>

text \<open>The bytes of a number in the order of a little-endian memory, and back.\<close>

definition bytes_of :: "nat \<Rightarrow> nat \<Rightarrow> nat list" where
  "bytes_of k n = map (\<lambda>i. n div 256 ^ i mod 256) [0..<k]"

definition of_bytes :: "nat list \<Rightarrow> nat" where
  "of_bytes bs = foldr (\<lambda>b acc. b + 256 * acc) bs 0"

definition byte_swap :: "nat \<Rightarrow> nat \<Rightarrow> nat" where
  "byte_swap k n = of_bytes (rev (bytes_of k n))"

definition hostToNetwork16 :: "16 word \<Rightarrow> 16 word" where "hostToNetwork16 x = of_nat (byte_swap 2 (unat x))"
definition hostToNetwork32 :: "32 word \<Rightarrow> 32 word" where "hostToNetwork32 x = of_nat (byte_swap 4 (unat x))"
definition hostToNetwork64 :: "64 word \<Rightarrow> 64 word" where "hostToNetwork64 x = of_nat (byte_swap 8 (unat x))"
definition networkToHost16 :: "16 word \<Rightarrow> 16 word" where "networkToHost16 x = of_nat (byte_swap 2 (unat x))"
definition networkToHost32 :: "32 word \<Rightarrow> 32 word" where "networkToHost32 x = of_nat (byte_swap 4 (unat x))"
definition networkToHost64 :: "64 word \<Rightarrow> 64 word" where "networkToHost64 x = of_nat (byte_swap 8 (unat x))"

section \<open>Addresses\<close>

definition AF_INET :: nat where "AF_INET = 2"
definition INET_ADDRSTRLEN :: nat where "INET_ADDRSTRLEN = 16"
definition kInaddrAny :: "32 word" where "kInaddrAny = 0"
definition kInaddrLoopback :: "32 word" where "kInaddrLoopback = 0x7F000001"

record sockaddr_in =
  sin_family :: nat
  sin_port :: "16 word"
  sin_addr :: "32 word"

text \<open>The C library: an address is four decimal numbers below 256 without leading zeros.\<close>

definition digit_value :: "char \<Rightarrow> nat option" where
  "digit_value c = (if 48 \<le> (of_char c :: nat) \<and> (of_char c :: nat) \<le> 57 then Some (of_char c - 48) else None)"

definition octet :: "string \<Rightarrow> nat option" where
  "octet s =
     (if s = [] \<or> length s > 3 \<or> (length s > 1 \<and> hd s = CHR ''0'') \<or> None \<in> set (map digit_value s) then None
      else let n = foldl (\<lambda>acc c. 10 * acc + the (digit_value c)) 0 s in if n < 256 then Some n else None)"

fun split_dots :: "string \<Rightarrow> string list" where
  "split_dots [] = [[]]"
| "split_dots (c # cs) = (if c = CHR ''.'' then [] # split_dots cs else case split_dots cs of [] \<Rightarrow> [[c]] | w # ws \<Rightarrow> (c # w) # ws)"

definition inet_pton :: "string \<Rightarrow> (32 word) option" where
  "inet_pton ip =
     (let os = map octet (split_dots ip)
      in if length os = 4 \<and> None \<notin> set os then Some (of_nat (of_bytes (map the os))) else None)"

definition dotted :: "nat list \<Rightarrow> string" where
  "dotted bs = concat (map (\<lambda>b. dec_nat b @ ''.'') (butlast bs)) @ dec_nat (last bs)"

definition inet_ntop :: "32 word \<Rightarrow> string" where
  "inet_ntop a = dotted (bytes_of 4 (unat a))"

text \<open>\<open>socketOps::fromIpPort\<close>: a string that is no address is logged and leaves the address as it was.\<close>

definition fromIpPort :: "string \<Rightarrow> 16 word \<Rightarrow> sockaddr_in \<Rightarrow> sockaddr_in" where
  "fromIpPort ip port addr =
     (let addr1 = addr\<lparr>sin_family := AF_INET, sin_port := hostToNetwork16 port\<rparr>
      in case inet_pton ip of None \<Rightarrow> addr1 | Some a \<Rightarrow> addr1\<lparr>sin_addr := a\<rparr>)"

text \<open>The text written to a buffer of \<open>bufsize\<close> bytes that holds an empty string.\<close>

definition sock_toIp :: "nat \<Rightarrow> sockaddr_in \<Rightarrow> string res" where
  "sock_toIp bufsize addr =
     (if sin_family addr = AF_INET
      then assertm (bufsize \<ge> INET_ADDRSTRLEN) (Inr (inet_ntop (sin_addr addr)))
      else Inr [])"

definition sock_toIpPort :: "nat \<Rightarrow> sockaddr_in \<Rightarrow> string res" where
  "sock_toIpPort bufsize addr =
     rbind (sock_toIp bufsize addr) (\<lambda>buf.
     let end = length buf; port = networkToHost16 (sin_port addr)
     in assertm (bufsize > end) (Inr (buf @ snprintf_buf (bufsize - end) ('':'' @ dec_nat (unat port)))))"

definition isSelfConnect :: "sockaddr_in \<Rightarrow> sockaddr_in \<Rightarrow> bool" where
  "isSelfConnect localaddr peeraddr \<longleftrightarrow>
     sin_family localaddr = AF_INET \<and> sin_port localaddr = sin_port peeraddr \<and> sin_addr localaddr = sin_addr peeraddr"

section \<open>InetAddress\<close>

definition zero_addr :: sockaddr_in where
  "zero_addr = \<lparr>sin_family = 0, sin_port = 0, sin_addr = 0\<rparr>"

definition inet_port :: "16 word \<Rightarrow> bool \<Rightarrow> sockaddr_in" where
  "inet_port port loopbackOnly =
     (let ip = (if loopbackOnly then kInaddrLoopback else kInaddrAny)
      in zero_addr\<lparr>sin_family := AF_INET, sin_addr := hostToNetwork32 ip, sin_port := hostToNetwork16 port\<rparr>)"

definition inet_ip :: "string \<Rightarrow> 16 word \<Rightarrow> sockaddr_in" where
  "inet_ip ip port = fromIpPort ip port zero_addr"

definition inet_toIp :: "sockaddr_in \<Rightarrow> string res" where
  "inet_toIp addr = sock_toIp 64 addr"

definition inet_toIpPort :: "sockaddr_in \<Rightarrow> string res" where
  "inet_toIpPort addr = sock_toIpPort 64 addr"

definition inet_getPort :: "sockaddr_in \<Rightarrow> 16 word" where
  "inet_getPort addr = networkToHost16 (sin_port addr)"

section \<open>Lemmas\<close>

lemma bytes_of_Suc: "bytes_of (Suc k) n = n mod 256 # bytes_of k (n div 256)"
  by (simp add: bytes_of_def upt_conv_Cons map_Suc_upt [symmetric] div_mult2_eq del: upt_Suc)

lemma of_bytes_simps [simp]: "of_bytes [] = 0" "of_bytes (b # bs) = b + 256 * of_bytes bs"
  by (simp_all add: of_bytes_def)

lemma of_bytes_less: "list_all (\<lambda>b. b < 256) bs \<Longrightarrow> of_bytes bs < 256 ^ length bs"
  by (induction bs) auto

lemma bytes_of_of_bytes: "list_all (\<lambda>b. b < 256) bs \<Longrightarrow> bytes_of (length bs) (of_bytes bs) = bs"
  by (induction bs) (auto simp: bytes_of_Suc bytes_of_def [of 0])

lemma of_bytes_bytes_of: "n < 256 ^ k \<Longrightarrow> of_bytes (bytes_of k n) = n"
proof (induction k arbitrary: n)
  case (Suc k)
  then have "n div 256 < 256 ^ k" by (simp add: div_less_iff_less_mult mult.commute)
  then show ?case using Suc.IH by (simp add: bytes_of_Suc)
qed (simp add: bytes_of_def)

lemma bytes_of_bound: "list_all (\<lambda>b. b < 256) (bytes_of k n)" "length (bytes_of k n) = k"
  by (simp_all add: bytes_of_def list_all_iff)

lemma byte_swap_involution:
  assumes "n < 256 ^ k"
  shows "byte_swap k (byte_swap k n) = n" "byte_swap k n < 256 ^ k"
proof -
  have rev_ok: "list_all (\<lambda>b. b < 256) (rev (bytes_of k n))" using bytes_of_bound(1) by simp
  show "byte_swap k n < 256 ^ k" using of_bytes_less [OF rev_ok] by (simp add: byte_swap_def bytes_of_bound)
  show "byte_swap k (byte_swap k n) = n"
    using bytes_of_of_bytes [OF rev_ok] of_bytes_bytes_of [OF assms] by (simp add: byte_swap_def bytes_of_bound)
qed

lemma network_inverse:
  "networkToHost16 (hostToNetwork16 x) = x" "networkToHost32 (hostToNetwork32 y) = y" "networkToHost64 (hostToNetwork64 z) = z"
proof -
  have "unat x < 2 ^ LENGTH(16)" "unat y < 2 ^ LENGTH(32)" "unat z < 2 ^ LENGTH(64)" by (rule unsigned_less)+
  then have "unat x < 256 ^ 2" "unat y < 256 ^ 4" "unat z < 256 ^ 8" by simp_all
  note swaps = this [THEN byte_swap_involution(1)] this [THEN byte_swap_involution(2)]
  show "networkToHost16 (hostToNetwork16 x) = x" "networkToHost32 (hostToNetwork32 y) = y" "networkToHost64 (hostToNetwork64 z) = z"
    using swaps by (simp_all add: networkToHost16_def hostToNetwork16_def networkToHost32_def hostToNetwork32_def
        networkToHost64_def hostToNetwork64_def unat_of_nat)
qed

lemma digit_table:
  "list_all (\<lambda>d. digit_value (digit_char d) = Some d \<and> digit_char d \<noteq> CHR ''.'' \<and> (digit_char d = CHR ''0'' \<longleftrightarrow> d = 0)) [0..<10]"
  by code_simp

lemma digit_facts:
  assumes "d < 10"
  shows "digit_value (digit_char d) = Some d" "CHR ''.'' \<noteq> digit_char d" "digit_char d = CHR ''0'' \<longleftrightarrow> d = 0"
  using digit_table assms by (auto simp: list_all_iff)

lemma octet_dec_nat:
  assumes "n < 256"
  shows "octet (dec_nat n) = Some n"
proof -
  consider "n < 10" | "10 \<le> n" "n < 100" | "100 \<le> n" by linarith
  then show ?thesis
  proof cases
    case 1
    then have "dec_nat n = [digit_char n]" by (subst dec_nat.simps) simp
    then show ?thesis using 1 by (simp add: octet_def digit_facts)
  next
    case 2
    then have d: "n div 10 < 10" "n mod 10 < 10" "n div 10 \<noteq> 0" by auto
    have "dec_nat n = [digit_char (n div 10), digit_char (n mod 10)]"
      using 2 d(1) by (subst dec_nat.simps, subst dec_nat.simps) simp
    then show ?thesis using d assms by (simp add: octet_def digit_facts Let_def)
  next
    case 3
    then have d: "n div 10 div 10 < 10" "n div 10 mod 10 < 10" "n mod 10 < 10" "n div 10 div 10 \<noteq> 0" "\<not> n div 10 < 10"
      using assms by auto
    have "dec_nat n = [digit_char (n div 10 div 10), digit_char (n div 10 mod 10), digit_char (n mod 10)]"
      using 3 d(1,5) by (subst dec_nat.simps, subst dec_nat.simps, subst dec_nat.simps) simp
    moreover have "10 * (10 * (n div 10 div 10) + n div 10 mod 10) + n mod 10 = n" by simp
    ultimately show ?thesis using d assms by (simp add: octet_def digit_facts Let_def)
  qed
qed

lemma dec_nat_no_dot: "CHR ''.'' \<notin> set (dec_nat n)"
proof (induction n rule: dec_nat.induct)
  case (1 n)
  then show ?case using digit_facts(2) [of n] digit_facts(2) [of "n mod 10"] by (subst dec_nat.simps) auto
qed

lemma split_dots_word: "CHR ''.'' \<notin> set w \<Longrightarrow> split_dots (w @ CHR ''.'' # rest) = w # split_dots rest"
  by (induction w) auto

lemma split_dots_last: "CHR ''.'' \<notin> set w \<Longrightarrow> split_dots w = [w]"
  by (induction w) auto

lemma split_dotted: "bs \<noteq> [] \<Longrightarrow> split_dots (dotted bs) = map dec_nat bs"
proof (induction bs)
  case (Cons b bs)
  then show ?case
    by (cases bs) (auto simp: dotted_def split_dots_word split_dots_last dec_nat_no_dot)
qed simp

lemma inet_pton_dotted:
  assumes "length bs = 4" "list_all (\<lambda>b. b < 256) bs"
  shows "inet_pton (dotted bs) = Some (of_nat (of_bytes bs))"
proof -
  have "map octet (split_dots (dotted bs)) = map Some bs"
    using assms by (subst split_dotted) (auto simp: list_all_iff octet_dec_nat)
  then show ?thesis using assms(1) by (auto simp: inet_pton_def Let_def comp_def)
qed

lemma inet_ntop_pton:
  assumes "length bs = 4" "list_all (\<lambda>b. b < 256) bs"
  shows "inet_ntop (of_nat (of_bytes bs)) = dotted bs"
proof -
  have "of_bytes bs < 2 ^ 32" using of_bytes_less [OF assms(2)] assms(1) by simp
  then have "unat (of_nat (of_bytes bs) :: 32 word) = of_bytes bs" by (simp add: unat_of_nat)
  then show ?thesis using bytes_of_of_bytes [OF assms(2)] assms(1) by (simp add: inet_ntop_def)
qed

lemma length_dotted:
  assumes "length bs = 4" "list_all (\<lambda>b. b < 256) bs"
  shows "length (dotted bs) \<le> 15"
proof -
  obtain a b c d where bs: "bs = [a, b, c, d]" using assms(1) by (auto simp: length_Suc_conv numeral_eq_Suc)
  have "length (dec_nat n) \<le> 3" if "n < 256" for n using length_dec_nat [of n 3] that by simp
  from this [of a] this [of b] this [of c] this [of d] show ?thesis using assms(2) by (simp add: bs dotted_def)
qed

section \<open>Properties\<close>

text \<open>
  C39: an address survives the way through the kernel's representation. An \<open>InetAddress\<close> made from
  four numbers below 256 and a port prints as exactly that address and port, within its buffer of 64
  bytes and with both assertions holding, and gives the port back; network order is undone by host
  order at all three widths.
\<close>

theorem inet_address_round_trip:
  assumes "length bs = 4" "list_all (\<lambda>b. b < 256) bs"
  shows "inet_toIpPort (inet_ip (dotted bs) port) = Inr (dotted bs @ '':'' @ dec_nat (unat port)) \<and>
     inet_toIp (inet_ip (dotted bs) port) = Inr (dotted bs) \<and> inet_getPort (inet_ip (dotted bs) port) = port \<and>
     networkToHost32 (hostToNetwork32 x) = x \<and> networkToHost64 (hostToNetwork64 y) = y"
proof -
  have "unat port < 2 ^ LENGTH(16)" by (rule unsigned_less)
  then have "unat port < 10 ^ 5" by simp
  from length_dec_nat [OF this] have "length (dec_nat (unat port)) \<le> 5" by simp
  then show ?thesis
    using inet_pton_dotted [OF assms] inet_ntop_pton [OF assms] length_dotted [OF assms]
    by (simp add: inet_toIpPort_def inet_toIp_def inet_getPort_def sock_toIpPort_def sock_toIp_def inet_ip_def fromIpPort_def
        INET_ADDRSTRLEN_def network_inverse Let_def snprintf_buf_def)
qed

theorem inet_address_round_trip_witness:
  "inet_toIpPort (inet_ip ''127.0.0.1'' 8000) = Inr ''127.0.0.1:8000''"
proof -
  have "dotted [127, 0, 0, 1] = ''127.0.0.1''" "dec_nat (unat (8000 :: 16 word)) = ''8000''"
    by (simp_all add: dotted_def dec_nat.simps digit_char_def) (simp_all add: char_of_def bit_numeral_rec bit_0)
  then show ?thesis using inet_address_round_trip [of "[127, 0, 0, 1]" 8000 0 0] by simp
qed

end
