(* ===== verification/LoopTimers.thy ===== *)
theory LoopTimers
  imports TimerQueue
begin

text \<open>
  Timers as the program asks for them: \<open>EventLoop::runAt\<close>, \<open>runAfter\<close>, \<open>runEvery\<close>, \<open>cancel\<close>
  (\<open>net/EventLoop.cc\<close>) and \<open>TimerQueue::addTimer\<close>, \<open>cancel\<close> (\<open>net/TimerQueue.cc\<close>), called from the
  loop's thread or from another one. The timer is created by the caller; \<open>runInLoop\<close> then changes
  the queue at once in the loop's thread and otherwise leaves a task among the pending functors,
  which the loop swaps out and runs. One step is what one thread does between two points where
  another can come in; what the loop's thread does to the queue is one step.
\<close>

section \<open>State and operations\<close>

datatype timer_task =
    AddTimerInLoop timer_ptr
  | CancelInLoop TimerId

text \<open>
  \<open>lt_running\<close> is the vector \<open>doPendingFunctors\<close> swapped out and has not run yet; \<open>lt_returning\<close> are the
  timers of the other threads that are in \<open>addTimer\<close>, between handing the timer over and reading its
  sequence number.
\<close>

record loop_timers =
  lt_queue :: timer_queue
  lt_pending :: "timer_task list"
  lt_running :: "timer_task list"
  lt_returning :: "timer_ptr list"

definition new_loop_timers :: loop_timers where
  "new_loop_timers = \<lparr>lt_queue = new_timer_queue, lt_pending = [], lt_running = [], lt_returning = []\<rparr>"

definition create_timer :: "allocator \<Rightarrow> nat \<Rightarrow> Timestamp \<Rightarrow> int \<Rightarrow> bool \<Rightarrow> timer_queue \<Rightarrow> (timer_ptr \<times> timer_queue) res" where
  "create_timer alloc cb t interval positive q =
     (case alloc (tq_heap q) of
        None \<Rightarrow> Inl BadAlloc
      | Some p \<Rightarrow> Inr (p, q\<lparr>tq_heap := (tq_heap q)(p \<mapsto> new_timer cb t interval positive (tq_numCreated q)),
                            tq_numCreated := tq_numCreated q + 1\<rparr>))"

fun timer_task_run :: "Timestamp \<Rightarrow> timer_task \<Rightarrow> timer_queue \<Rightarrow> timer_queue res" where
  "timer_task_run now (AddTimerInLoop p) q = addTimerInLoop now p q"
| "timer_task_run now (CancelInLoop tid) q = cancelInLoop tid q"

definition timer_runInLoop :: "bool \<Rightarrow> Timestamp \<Rightarrow> timer_task \<Rightarrow> loop_timers \<Rightarrow> loop_timers res" where
  "timer_runInLoop inLoop now task s =
     (if inLoop then rbind (timer_task_run now task (lt_queue s)) (\<lambda>q. Inr (s\<lparr>lt_queue := q\<rparr>))
      else Inr (s\<lparr>lt_pending := lt_pending s @ [task]\<rparr>))"

text \<open>\<open>addTimer\<close> up to the return of \<open>runInLoop\<close>, and the reading of the sequence that follows.\<close>

definition addTimer_call :: "bool \<Rightarrow> allocator \<Rightarrow> Timestamp \<Rightarrow> nat \<Rightarrow> Timestamp \<Rightarrow> int \<Rightarrow> bool \<Rightarrow> loop_timers \<Rightarrow>
    (timer_ptr \<times> loop_timers) res" where
  "addTimer_call inLoop alloc now cb t interval positive s =
     rbind (create_timer alloc cb t interval positive (lt_queue s)) (\<lambda>(p, q).
     rbind (timer_runInLoop inLoop now (AddTimerInLoop p) (s\<lparr>lt_queue := q\<rparr>)) (\<lambda>s'. Inr (p, s')))"

definition addTimer_return :: "timer_ptr \<Rightarrow> loop_timers \<Rightarrow> TimerId res" where
  "addTimer_return p s = rbind (tq_deref p (lt_queue s)) (\<lambda>tm. Inr (p, tm_sequence tm))"

definition cancelTimer :: "bool \<Rightarrow> Timestamp \<Rightarrow> TimerId \<Rightarrow> loop_timers \<Rightarrow> loop_timers res" where
  "cancelTimer inLoop now tid s = timer_runInLoop inLoop now (CancelInLoop tid) s"

text \<open>\<open>now\<close> is read by the loop's interface, \<open>now2\<close> when the timerfd is programmed.\<close>

definition runAt :: "bool \<Rightarrow> allocator \<Rightarrow> Timestamp \<Rightarrow> Timestamp \<Rightarrow> nat \<Rightarrow> loop_timers \<Rightarrow> (timer_ptr \<times> loop_timers) res" where
  "runAt inLoop alloc now2 time cb s = addTimer_call inLoop alloc now2 cb time 0 False s"

definition runAfter :: "bool \<Rightarrow> allocator \<Rightarrow> Timestamp \<Rightarrow> Timestamp \<Rightarrow> int \<Rightarrow> nat \<Rightarrow> loop_timers \<Rightarrow> (timer_ptr \<times> loop_timers) res" where
  "runAfter inLoop alloc now now2 delay cb s = runAt inLoop alloc now2 (addTime now delay) cb s"

definition runEvery :: "bool \<Rightarrow> allocator \<Rightarrow> Timestamp \<Rightarrow> Timestamp \<Rightarrow> int \<Rightarrow> bool \<Rightarrow> nat \<Rightarrow> loop_timers \<Rightarrow>
    (timer_ptr \<times> loop_timers) res" where
  "runEvery inLoop alloc now now2 interval positive cb s =
     addTimer_call inLoop alloc now2 cb (addTime now interval) interval positive s"

text \<open>The two halves of \<open>doPendingFunctors\<close>, and all of it.\<close>

definition timers_swap :: "loop_timers \<Rightarrow> loop_timers" where
  "timers_swap s = s\<lparr>lt_running := lt_pending s, lt_pending := []\<rparr>"

definition timers_task :: "Timestamp \<Rightarrow> loop_timers \<Rightarrow> loop_timers res" where
  "timers_task now s =
     (case lt_running s of
        [] \<Rightarrow> Inr s
      | task # rest \<Rightarrow> rbind (timer_task_run now task (lt_queue s)) (\<lambda>q. Inr (s\<lparr>lt_queue := q, lt_running := rest\<rparr>)))"

definition timers_drain :: "Timestamp \<Rightarrow> loop_timers \<Rightarrow> loop_timers res" where
  "timers_drain now s =
     rbind (rfold (timer_task_run now) (lt_pending s) (lt_queue s)) (\<lambda>q.
     Inr ((timers_swap s)\<lparr>lt_queue := q, lt_running := []\<rparr>))"

definition timers_fire :: "allocator \<Rightarrow> (nat \<Rightarrow> tq_call list) \<Rightarrow> Timestamp \<Rightarrow> Timestamp \<Rightarrow> loop_timers \<Rightarrow> loop_timers res" where
  "timers_fire alloc cbs now now2 s =
     rbind (tq_handleRead alloc cbs now now2 (lt_queue s)) (\<lambda>q. Inr (s\<lparr>lt_queue := q\<rparr>))"

section \<open>Invariant\<close>

text \<open>The timers still to be added: created, but not yet in the queue.\<close>

fun task_adds :: "timer_task list \<Rightarrow> timer_ptr list" where
  "task_adds [] = []"
| "task_adds (AddTimerInLoop p # ts) = p # task_adds ts"
| "task_adds (CancelInLoop tid # ts) = task_adds ts"

lemma task_adds_append [simp]: "task_adds (xs @ ys) = task_adds xs @ task_adds ys"
  by (induction xs rule: task_adds.induct) simp_all

definition tasks_of :: "loop_timers \<Rightarrow> timer_task list" where
  "tasks_of s = lt_running s @ lt_pending s"

definition tasks_good :: "timer_task list \<Rightarrow> timer_queue \<Rightarrow> bool" where
  "tasks_good ts q \<longleftrightarrow> tq_inv (set (task_adds ts)) q \<and> distinct (task_adds ts) \<and> wake_ok (\<lambda>_. True) q"

lemma tasks_good_calling:
  "tasks_good ts q \<Longrightarrow> calling_ok (set (task_adds ts)) (tq_heap q) (tq_ran q) (\<lambda>_. True) q"
  by (simp add: tasks_good_def calling_ok_def)

lemma create_good:
  assumes good: "tasks_good ts q" and alloc: "malloc_spec alloc" and pos: "positive \<longrightarrow> 0 \<le> interval"
  shows "create_timer alloc cb t interval positive q = Inl BadAlloc \<or>
    (\<exists>p q'. create_timer alloc cb t interval positive q = Inr (p, q') \<and> tasks_good (ts @ [AddTimerInLoop p]) q' \<and>
       tq_heap q p = None \<and> tq_heap q' = (tq_heap q)(p \<mapsto> new_timer cb t interval positive (tq_numCreated q)) \<and>
       tq_timers q' = tq_timers q \<and> tq_active q' = tq_active q \<and> tq_calling q' = tq_calling q)"
proof (cases "alloc (tq_heap q)")
  case None
  then show ?thesis by (simp add: create_timer_def)
next
  case (Some p)
  let ?tm = "new_timer cb t interval positive (tq_numCreated q)"
  let ?q = "q\<lparr>tq_heap := (tq_heap q)(p \<mapsto> ?tm), tq_numCreated := tq_numCreated q + 1\<rparr>"
  have inv: "tq_inv (set (task_adds ts)) q" using good by (simp add: tasks_good_def)
  have p: "tq_heap q p = None" "p < uintptr_max" using alloc Some by (auto simp: malloc_spec_def)
  then have "p \<notin> snd ` set (tq_timers q) \<union> set (task_adds ts)" unfolding tq_invD(5) [OF inv, symmetric] by (simp add: domIff)
  then have fresh: "p \<notin> snd ` set (tq_timers q)" "p \<notin> set (task_adds ts)" by simp_all
  have "tq_inv (insert p (set (task_adds ts))) (q\<lparr>tq_heap := (tq_heap q)(p \<mapsto> ?tm)\<rparr>)"
    by (rule tq_inv_write [OF inv fresh(1) p(2)]) (use pos in \<open>simp add: new_timer_def\<close>)
  then have "tq_inv (insert p (set (task_adds ts))) ?q" by (rule tq_inv_cong) simp_all
  moreover have "wake_ok (\<lambda>_. True) ?q" by (rule wake_ok_mono [of _ q]) (use good in \<open>simp_all add: tasks_good_def\<close>)
  ultimately have "tasks_good (ts @ [AddTimerInLoop p]) ?q" using good fresh(2) by (simp add: tasks_good_def)
  moreover have "create_timer alloc cb t interval positive q = Inr (p, ?q)" using Some by (simp add: create_timer_def)
  ultimately show ?thesis using p(1) by (intro disjI2 exI [of _ p] exI [of _ ?q]) simp
qed

lemma task_run_good:
  assumes good: "tasks_good (task # ts) q"
  shows "\<exists>q'. timer_task_run now task q = Inr q' \<and> tasks_good ts q'"
proof (cases task)
  case (AddTimerInLoop p)
  have inv: "tq_inv (set (task_adds (task # ts))) q" and p: "p \<in> set (task_adds (task # ts))"
    and w: "wake_ok (\<lambda>_. True) q" and d: "distinct (task_adds (task # ts))"
    using good AddTimerInLoop by (auto simp: tasks_good_def)
  obtain tm where tm: "tq_heap q p = Some tm" using tq_inv_E_live [OF inv p] by blast
  define q1 where "q1 = q\<lparr>tq_timers := insort (tm_expiration tm, p) (tq_timers q),
      tq_active := insert (p, tm_sequence tm) (tq_active q)\<rparr>"
  define q2 where "q2 = (if tq_timers q = [] \<or> tm_expiration tm < fst (hd (tq_timers q))
      then resetTimerfd now (tm_expiration tm) q1 else q1)"
  have run: "timer_task_run now task q = Inr q2"
    using addTimerInLoop_ok [OF inv p tm, of now] AddTimerInLoop by (simp add: q1_def q2_def)
  have "set (task_adds (task # ts)) - {p} = set (task_adds ts)" using d AddTimerInLoop by auto
  with tq_insert_ok(2) [OF inv p tm] have inv1: "tq_inv (set (task_adds ts)) q1" by (simp add: q1_def)
  have inv2: "tq_inv (set (task_adds ts)) q2" by (rule tq_inv_cong [OF inv1]) (simp_all add: q2_def resetTimerfd_def)
  have "wake_ok (\<lambda>_. True) q2"
    by (rule wake_ok_add [OF w _ tq_invD(1) [OF inv], where t = "tm_expiration tm" and p = p and now = now])
      (simp_all add: down_closed_def q2_def q1_def resetTimerfd_def)
  with run inv2 d AddTimerInLoop show ?thesis by (simp add: tasks_good_def)
next
  case (CancelInLoop tid)
  then have good': "tasks_good ts q" using good by (simp add: tasks_good_def)
  have inv: "tq_inv (set (task_adds ts)) q" using good' by (simp add: tasks_good_def)
  obtain q' where q': "cancelInLoop tid q = Inr q'"
    using cancelInLoop_active [OF inv, of tid] cancelInLoop_inactive [OF inv, of tid] by (cases "tid \<in> tq_active q") auto
  have "malloc_spec (\<lambda>h. None)" by (simp add: malloc_spec_def)
  from tq_do_call_ok [OF tasks_good_calling [OF good'] this, of "CallCancel tid"] q' good' CancelInLoop
  show ?thesis by (auto simp: down_closed_def tasks_good_def calling_ok_def)
qed

lemma tasks_run_good:
  "tasks_good (ts @ us) q \<Longrightarrow> \<exists>q'. rfold (timer_task_run now) ts q = Inr q' \<and> tasks_good us q'"
proof (induction ts arbitrary: q)
  case (Cons task ts)
  obtain q1 where "timer_task_run now task q = Inr q1" "tasks_good (ts @ us) q1"
    using task_run_good [of task "ts @ us" q now] Cons.prems by auto
  with Cons.IH [of q1] show ?case by simp
qed simp

lemma tasks_good_rotate:
  assumes "tasks_good (ts @ [AddTimerInLoop p]) q"
  shows "tasks_good (AddTimerInLoop p # ts) q"
  using assms by (simp add: tasks_good_def)

lemma tasks_good_cancel: "tasks_good ts q \<Longrightarrow> tasks_good (CancelInLoop tid # ts) q \<and> tasks_good (ts @ [CancelInLoop tid]) q"
  by (simp add: tasks_good_def)

lemma fire_good:
  assumes "tasks_good ts q" "tq_env_ok alloc cbs" "0 < now"
  shows "ok_or {BadAlloc} (tasks_good ts) (tq_handleRead alloc cbs now now2 q)"
proof -
  have "tq_inv (set (task_adds ts)) q" "malloc_spec alloc" "\<And>cb call. call \<in> set (cbs cb) \<Longrightarrow> tq_call_ok call"
    using assms by (auto simp: tasks_good_def tq_env_ok_def)
  from tq_handleRead_ok [OF this(1,2) assms(3) this(3)] show ?thesis
    by (rule ok_or_mono) (use assms(1) in \<open>auto simp: tasks_good_def\<close>)
qed

lemma add_task_active:
  assumes "tasks_good (AddTimerInLoop p # ts) q" "tq_heap q p = Some tm"
  shows "\<exists>q'. timer_task_run now (AddTimerInLoop p) q = Inr q' \<and> tasks_good ts q' \<and> tq_heap q' = tq_heap q \<and>
    tq_timers q' = insort (tm_expiration tm, p) (tq_timers q) \<and> tq_active q' = insert (p, tm_sequence tm) (tq_active q)"
proof -
  have inv: "tq_inv (set (task_adds (AddTimerInLoop p # ts))) q" using assms(1) by (simp add: tasks_good_def)
  from task_run_good [OF assms(1), of now] addTimerInLoop_ok [OF inv _ assms(2), of now] show ?thesis
    by (auto simp: resetTimerfd_def)
qed

section \<open>Runs\<close>

datatype lt_op =
    LtAdd bool Timestamp nat Timestamp int bool
  | LtReturn timer_ptr
  | LtCancel bool Timestamp TimerId
  | LtSwap
  | LtTask Timestamp
  | LtFire Timestamp Timestamp

fun lt_step :: "allocator \<Rightarrow> (nat \<Rightarrow> tq_call list) \<Rightarrow> lt_op \<Rightarrow> loop_timers \<Rightarrow> loop_timers res" where
  "lt_step alloc cbs (LtAdd inLoop now cb t interval positive) s =
     rbind (addTimer_call inLoop alloc now cb t interval positive s) (\<lambda>(p, s').
     if inLoop then rbind (addTimer_return p s') (\<lambda>tid. Inr s')
     else Inr (s'\<lparr>lt_returning := p # lt_returning s'\<rparr>))"
| "lt_step alloc cbs (LtReturn p) s =
     (if p \<in> set (lt_returning s)
      then rbind (addTimer_return p s) (\<lambda>tid. Inr (s\<lparr>lt_returning := remove1 p (lt_returning s)\<rparr>)) else Inr s)"
| "lt_step alloc cbs (LtCancel inLoop now tid) s = cancelTimer inLoop now tid s"
| "lt_step alloc cbs LtSwap s = Inr (timers_swap s)"
| "lt_step alloc cbs (LtTask now) s = timers_task now s"
| "lt_step alloc cbs (LtFire now now2) s = timers_fire alloc cbs now now2 s"

text \<open>
  The vector is swapped when the one before has been run; intervals are not negative; and a thread
  that adds a timer reads its sequence number before the loop deletes it. Nothing in the code makes
  the last so: \<open>timer_id_race\<close> is what happens otherwise.
\<close>

fun lt_legal :: "lt_op \<Rightarrow> loop_timers \<Rightarrow> bool" where
  "lt_legal (LtAdd inLoop now cb t interval positive) s \<longleftrightarrow> (positive \<longrightarrow> 0 \<le> interval)"
| "lt_legal (LtReturn p) s \<longleftrightarrow> tq_heap (lt_queue s) p \<noteq> None"
| "lt_legal (LtCancel inLoop now tid) s \<longleftrightarrow> True"
| "lt_legal LtSwap s \<longleftrightarrow> lt_running s = []"
| "lt_legal (LtTask now) s \<longleftrightarrow> lt_running s \<noteq> []"
| "lt_legal (LtFire now now2) s \<longleftrightarrow> 0 < now"

definition lt_good :: "loop_timers \<Rightarrow> bool" where
  "lt_good s \<longleftrightarrow> tasks_good (tasks_of s) (lt_queue s)"

lemma lt_step_ok:
  assumes env: "tq_env_ok alloc cbs" and good: "lt_good s" and legal: "lt_legal op s"
  shows "ok_or {BadAlloc} lt_good (lt_step alloc cbs op s)"
proof (cases op)
  case (LtAdd inLoop now cb t interval positive)
  have "malloc_spec alloc" "positive \<longrightarrow> 0 \<le> interval" using env legal LtAdd by (auto simp: tq_env_ok_def)
  from create_good [OF good [unfolded lt_good_def] this, of cb t] show ?thesis
  proof (elim disjE exE conjE)
    fix p q assume c: "create_timer alloc cb t interval positive (lt_queue s) = Inr (p, q)"
      "tasks_good (tasks_of s @ [AddTimerInLoop p]) q"
    assume h: "tq_heap q = (tq_heap (lt_queue s))(p \<mapsto> new_timer cb t interval positive (tq_numCreated (lt_queue s)))"
    obtain q' where "timer_task_run now (AddTimerInLoop p) q = Inr q'" "tasks_good (tasks_of s) q'" "tq_heap q' = tq_heap q"
      using add_task_active [OF tasks_good_rotate [OF c(2)]] h by fastforce
    with c h show ?thesis
      by (simp add: LtAdd addTimer_call_def timer_runInLoop_def lt_good_def tasks_of_def addTimer_return_def tq_deref_def)
  qed (simp add: LtAdd addTimer_call_def)
next
  case (LtReturn p)
  with legal obtain tm where "tq_heap (lt_queue s) p = Some tm" by auto
  then show ?thesis using good by (simp add: LtReturn addTimer_return_def tq_deref_def lt_good_def tasks_of_def)
next
  case (LtCancel inLoop now tid)
  have g: "tasks_good (CancelInLoop tid # tasks_of s) (lt_queue s)" "tasks_good (tasks_of s @ [CancelInLoop tid]) (lt_queue s)"
    using good tasks_good_cancel by (auto simp: lt_good_def)
  obtain q' where "timer_task_run now (CancelInLoop tid) (lt_queue s) = Inr q'" "tasks_good (tasks_of s) q'"
    using task_run_good [OF g(1)] by blast
  with g(2) show ?thesis by (simp add: LtCancel cancelTimer_def timer_runInLoop_def lt_good_def tasks_of_def)
next
  case LtSwap
  with good legal show ?thesis by (simp add: lt_good_def timers_swap_def tasks_of_def)
next
  case (LtTask now)
  then obtain task rest where r: "lt_running s = task # rest" using legal by (cases "lt_running s") auto
  then have "tasks_good (task # (rest @ lt_pending s)) (lt_queue s)" using good by (simp add: lt_good_def tasks_of_def)
  from task_run_good [OF this, of now] r LtTask show ?thesis
    by (auto simp: timers_task_def lt_good_def tasks_of_def)
next
  case (LtFire now now2)
  then have "0 < now" using legal by simp
  from fire_good [OF good [unfolded lt_good_def] env this, of now2] show ?thesis
    by (cases "tq_handleRead alloc cbs now now2 (lt_queue s)")
      (simp_all add: LtFire timers_fire_def lt_good_def tasks_of_def)
qed

interpretation ltq: safe_machine "lt_step alloc cbs" "\<lambda>op s. tq_env_ok alloc cbs \<and> lt_legal op s" lt_good "{BadAlloc}"
  for alloc cbs
proof
  show "ok_or {BadAlloc} lt_good (lt_step alloc cbs op s)"
    if "lt_good s" "tq_env_ok alloc cbs \<and> lt_legal op s" for op s
    using lt_step_ok that by blast
qed

lemma lt_good_new: "lt_good new_loop_timers"
  using tq_good_new by (simp add: lt_good_def tasks_good_def tasks_of_def new_loop_timers_def tq_good_def)

lemma drain_good:
  assumes "lt_good s" "lt_running s = []"
  shows "\<exists>s'. timers_drain now s = Inr s' \<and> tasks_of s' = [] \<and> tq_good (lt_queue s')"
proof -
  have "tasks_good (lt_pending s @ []) (lt_queue s)" using assms by (simp add: lt_good_def tasks_of_def)
  from tasks_run_good [OF this, of now] show ?thesis
    by (auto simp: timers_drain_def timers_swap_def tasks_of_def tasks_good_def tq_good_def)
qed

lemma tq_good_armed:
  assumes "tq_good q" "tq_heap q p = Some tm"
  shows "(tm_expiration tm, p) \<in> set (tq_timers q) \<and>
    (\<exists>a. tq_armed q = Some a \<and> timerfd_due a \<le> max (fst a + 100) (tm_expiration tm))"
proof -
  have inv: "tq_inv {} q" using assms(1) by (simp add: tq_good_def)
  have e: "(tm_expiration tm, p) \<in> set (tq_timers q)" by (rule tq_inv_live_entry [OF inv assms(2)])
  then have "armed_for (tm_expiration tm) q" using assms(1) by (auto simp: tq_good_def wake_ok_def)
  then obtain n u where "tq_armed q = Some (n, howMuchTimeFromNow n u)" "u \<le> tm_expiration tm"
    unfolding armed_for_def by blast
  with e show ?thesis by (auto simp: timerfd_due_eq)
qed

text \<open>An addition of another thread, up to the moment the loop has run its task.\<close>

lemma cross_add:
  assumes good: "lt_good s" "tasks_of s = []" and alloc: "malloc_spec alloc" and pos: "positive \<longrightarrow> 0 \<le> interval"
    and add: "addTimer_call False alloc now cb t interval positive s = Inr (p, s1)"
  defines "tm \<equiv> new_timer cb t interval positive (tq_numCreated (lt_queue s))"
  shows "tasks_good [AddTimerInLoop p] (lt_queue s1) \<and> lt_running s1 = [] \<and> lt_pending s1 = [AddTimerInLoop p] \<and>
    tq_heap (lt_queue s) p = None \<and> tq_heap (lt_queue s1) = (tq_heap (lt_queue s))(p \<mapsto> tm) \<and>
    tq_timers (lt_queue s1) = tq_timers (lt_queue s) \<and> tq_active (lt_queue s1) = tq_active (lt_queue s) \<and>
    tq_calling (lt_queue s1) = tq_calling (lt_queue s)"
proof -
  obtain q where q: "create_timer alloc cb t interval positive (lt_queue s) = Inr (p, q)"
    "s1 = s\<lparr>lt_queue := q, lt_pending := lt_pending s @ [AddTimerInLoop p]\<rparr>"
    using add by (auto simp: addTimer_call_def timer_runInLoop_def rbind_Inr_iff)
  from create_good [OF good(1) [unfolded lt_good_def] alloc pos, of cb t] q good(2) show ?thesis
    by (auto simp: lt_good_def tasks_of_def tm_def)
qed

section \<open>Properties\<close>

text \<open>
  C7: in every interleaving of additions and cancellations by the loop's thread and by others, of
  firings and of the loop running its pending functors, in which every thread that adds a timer
  reads back its sequence number before the loop deletes the timer, no assertion fails and no deleted
  timer is touched (only the allocator can fail); every live timer is in the queue or has its task pending,
  never both. Between two rounds the loop can always run the pending tasks, and then every live
  timer is in the queue under its expiration with the timerfd armed in time for it.
\<close>

theorem loop_timers_safe:
  assumes "tq_env_ok alloc cbs" "run_legal lt_legal (lt_step alloc cbs) ops new_loop_timers"
  shows "ok_or {BadAlloc} (\<lambda>s.
      dom (tq_heap (lt_queue s)) = snd ` set (tq_timers (lt_queue s)) \<union> set (task_adds (tasks_of s)) \<and>
      snd ` set (tq_timers (lt_queue s)) \<inter> set (task_adds (tasks_of s)) = {} \<and>
      (lt_running s = [] \<longrightarrow> (\<exists>s'. timers_drain now s = Inr s' \<and> tasks_of s' = [] \<and>
         (\<forall>p tm. tq_heap (lt_queue s') p = Some tm \<longrightarrow> (tm_expiration tm, p) \<in> set (tq_timers (lt_queue s')) \<and>
            (\<exists>a. tq_armed (lt_queue s') = Some a \<and> timerfd_due a \<le> max (fst a + 100) (tm_expiration tm))))))
    (rfold (lt_step alloc cbs) ops new_loop_timers)"
proof (rule ok_or_mono [OF ltq.run_safe [OF lt_good_new run_legal_conj [OF assms]]])
  fix s assume good: "lt_good s"
  then have inv: "tq_inv (set (task_adds (tasks_of s))) (lt_queue s)" by (simp add: lt_good_def tasks_good_def)
  show "dom (tq_heap (lt_queue s)) = snd ` set (tq_timers (lt_queue s)) \<union> set (task_adds (tasks_of s)) \<and>
      snd ` set (tq_timers (lt_queue s)) \<inter> set (task_adds (tasks_of s)) = {} \<and>
      (lt_running s = [] \<longrightarrow> (\<exists>s'. timers_drain now s = Inr s' \<and> tasks_of s' = [] \<and>
         (\<forall>p tm. tq_heap (lt_queue s') p = Some tm \<longrightarrow> (tm_expiration tm, p) \<in> set (tq_timers (lt_queue s')) \<and>
            (\<exists>a. tq_armed (lt_queue s') = Some a \<and> timerfd_due a \<le> max (fst a + 100) (tm_expiration tm)))))"
    using tq_invD(5,6) [OF inv] drain_good [OF good, of now] tq_good_armed by blast
qed

text \<open>
  Another thread that adds a timer and cancels it with the id it got, both before the loop runs
  its pending functors, leaves no trace: the loop adds the timer, then cancels it.
\<close>

theorem cross_thread_add_cancel:
  assumes "lt_good s" "tasks_of s = []" "malloc_spec alloc" "positive \<longrightarrow> 0 \<le> interval"
    and "addTimer_call False alloc now cb t interval positive s = Inr (p, s1)"
    and "addTimer_return p s1 = Inr tid" "cancelTimer False now tid s1 = Inr s2"
  shows "\<exists>s3. timers_drain now2 s2 = Inr s3 \<and> tq_timers (lt_queue s3) = tq_timers (lt_queue s) \<and>
    tq_active (lt_queue s3) = tq_active (lt_queue s) \<and> tq_heap (lt_queue s3) = tq_heap (lt_queue s)"
proof -
  let ?tm = "new_timer cb t interval positive (tq_numCreated (lt_queue s))"
  note add = cross_add [OF assms(1-5)]
  have inv: "tq_inv {} (lt_queue s)" using assms(1,2) by (simp add: lt_good_def tasks_good_def)
  have tid: "tid = (p, tm_sequence ?tm)" using assms(6) add by (simp add: addTimer_return_def tq_deref_def)
  have s2: "lt_pending s2 = [AddTimerInLoop p, CancelInLoop tid]" "lt_queue s2 = lt_queue s1"
    using assms(7) add by (auto simp: cancelTimer_def timer_runInLoop_def)
  have "tasks_good [AddTimerInLoop p] (lt_queue s1)" using add by simp
  from add_task_active [OF this, of ?tm now2] add obtain q where q: "addTimerInLoop now2 p (lt_queue s1) = Inr q"
    "tasks_good [] q" "tq_heap q = (tq_heap (lt_queue s))(p \<mapsto> ?tm)"
    "tq_timers q = insort (t, p) (tq_timers (lt_queue s))" "tq_active q = insert tid (tq_active (lt_queue s))"
    by (auto simp: tid new_timer_def)
  have invq: "tq_inv {} q" using q(2) by (simp add: tasks_good_def)
  have fresh: "p \<notin> snd ` set (tq_timers (lt_queue s))" using tq_invD(5) [OF inv] add by auto
  then have new: "(t, p) \<notin> set (tq_timers (lt_queue s))" "tid \<notin> tq_active (lt_queue s)"
    using tq_invD(4) [OF inv] by (force simp: tid active_of_def)+
  obtain e q' where q': "e \<in> set (tq_timers q)" "tid = active_of (tq_heap q) e" "cancelInLoop tid q = Inr q'"
    "q' = q\<lparr>tq_timers := removeAll e (tq_timers q), tq_heap := (tq_heap q)(fst tid := None), tq_active := tq_active q - {tid}\<rparr>"
    using cancelInLoop_active [OF invq, of tid] q(5) by auto
  have "e = (t, p)" using q'(1,2) q(4) fresh by (force simp: tid active_of_def set_insort_key)
  then have "tq_timers q' = tq_timers (lt_queue s)" "tq_active q' = tq_active (lt_queue s)" "tq_heap q' = tq_heap (lt_queue s)"
    using q q'(4) new add by (auto simp: removeAll_insort tid fun_upd_idem)
  then show ?thesis using s2 q(1) q'(3) by (simp add: timers_drain_def timers_swap_def)
qed

text \<open>
  C33: \<open>addTimer\<close> reads the sequence number of the timer after it handed the timer to the loop. When
  the loop runs the task and the timer, which does not repeat, expires before that, the timer has
  been deleted and the read is a use after free.
\<close>

theorem timer_id_race:
  assumes "lt_good s" "tasks_of s = []" "tq_env_ok alloc cbs" "0 < now3" "t \<le> now3"
    and "runAt False alloc now t cb s = Inr (p, s1)" "timers_drain now2 s1 = Inr s2"
    and "timers_fire alloc cbs now3 now4 s2 = Inr s3"
  shows "addTimer_return p s3 = Inl UseAfterFree"
proof -
  let ?tm = "new_timer cb t 0 False (tq_numCreated (lt_queue s))"
  have alloc: "malloc_spec alloc" and cbs: "\<And>cb call. call \<in> set (cbs cb) \<Longrightarrow> tq_call_ok call"
    using assms(3) by (auto simp: tq_env_ok_def)
  note add = cross_add [OF assms(1,2) alloc _ assms(6) [unfolded runAt_def], simplified]
  then have good1: "tasks_good [AddTimerInLoop p] (lt_queue s1)" by simp
  from add_task_active [OF good1, of ?tm now2] add assms(7) have q: "tasks_good [] (lt_queue s2)"
    "tq_heap (lt_queue s2) p = Some ?tm" "(t, p) \<in> set (tq_timers (lt_queue s2))"
    by (auto simp: timers_drain_def new_timer_def set_insort_key)
  then have inv: "tq_inv {} (lt_queue s2)" by (simp add: tasks_good_def)
  have due: "(t, p) \<in> set (expired_at now3 (lt_queue s2))" using q(3) assms(5) by (simp add: expired_at_def)
  obtain q' where q': "tq_handleRead alloc cbs now3 now4 (lt_queue s2) = Inr q'" "s3 = s2\<lparr>lt_queue := q'\<rparr>"
    using assms(8) by (auto simp: timers_fire_def rbind_Inr_iff)
  have "\<forall>e \<in> set (expired_at now3 (lt_queue s2)). tq_heap q' (snd e) =
      reset_cell now3 (tq_canceling q') (snd e) (the (tq_heap (lt_queue s2) (snd e)))"
    using tq_handleRead_ok [of "{}" "lt_queue s2" alloc now3 cbs now4, OF inv alloc assms(4) cbs] q'(1) by simp
  from bspec [OF this due] have "tq_heap q' p = reset_cell now3 (tq_canceling q') p ?tm" using q(2) by simp
  then show ?thesis using q'(2) by (simp add: addTimer_return_def tq_deref_def reset_cell_def new_timer_def)
qed

text \<open>
  A cancellation in the loop's thread overtakes an addition that another thread has queued: it
  finds nothing to cancel, and the loop then installs the cancelled timer.
\<close>

theorem cancel_overtaken:
  assumes "lt_good s" "tasks_of s = []" "malloc_spec alloc" "positive \<longrightarrow> 0 \<le> interval" "\<not> tq_calling (lt_queue s)"
    and "addTimer_call False alloc now cb t interval positive s = Inr (p, s1)"
    and "addTimer_return p s1 = Inr tid" "cancelTimer True now2 tid s1 = Inr s2"
  shows "\<exists>s3. timers_drain now3 s2 = Inr s3 \<and> tid \<in> tq_active (lt_queue s3) \<and> (t, p) \<in> set (tq_timers (lt_queue s3))"
proof -
  let ?tm = "new_timer cb t interval positive (tq_numCreated (lt_queue s))"
  note add = cross_add [OF assms(1-4,6)]
  have inv: "tq_inv {} (lt_queue s)" using assms(1,2) by (simp add: lt_good_def tasks_good_def)
  have tid: "tid = (p, tm_sequence ?tm)" using assms(7) add by (simp add: addTimer_return_def tq_deref_def)
  have good1: "tasks_good [AddTimerInLoop p] (lt_queue s1)" using add by simp
  then have inv1: "tq_inv {p} (lt_queue s1)" by (simp add: tasks_good_def)
  have "p \<notin> snd ` set (tq_timers (lt_queue s))" using tq_invD(5) [OF inv] add by auto
  then have "tid \<notin> tq_active (lt_queue s1)" using tq_invD(4) [OF inv] add by (force simp: tid active_of_def)
  then have "s2 = s1" using assms(5,8) add cancelInLoop_inactive [OF inv1]
    by (auto simp: cancelTimer_def timer_runInLoop_def)
  with add_task_active [OF good1, of ?tm now3] add show ?thesis
    by (auto simp: timers_drain_def timers_swap_def tid new_timer_def set_insort_key)
qed

section \<open>Concrete runs\<close>

lemma sample_malloc: "malloc_spec (first_fit [8, 16])"
  by (rule first_fit_spec) (simp add: uintptr_max_def)

lemma sample_timers_env: "tq_env_ok (first_fit [8, 16]) (\<lambda>_. [])"
  using sample_malloc by (simp add: tq_env_ok_def)

lemmas sample_run_simps = new_loop_timers_def new_timer_queue_def addTimer_call_def create_timer_def first_fit_def
  timer_runInLoop_def timers_swap_def timers_task_def timers_drain_def cancelTimer_def addTimerInLoop_def tq_insert_def
  sizes_agree_def tq_deref_def new_timer_def tasks_of_def runAt_def resetTimerfd_def addTimer_return_def

theorem loop_timers_safe_witness:
  "\<exists>s. rfold (lt_step (first_fit [8, 16]) (\<lambda>_. []))
        [LtAdd False 10 7 500 0 False, LtSwap, LtAdd False 20 9 400 0 False, LtReturn 16, LtTask 30, LtReturn 8] new_loop_timers = Inr s \<and>
     dom (tq_heap (lt_queue s)) = snd ` set (tq_timers (lt_queue s)) \<union> set (task_adds (tasks_of s))"
proof -
  let ?ops = "[LtAdd False 10 7 500 0 False, LtSwap, LtAdd False 20 9 400 0 False, LtReturn 16, LtTask 30, LtReturn 8]"
  have legal: "run_legal lt_legal (lt_step (first_fit [8, 16]) (\<lambda>_. [])) ?ops new_loop_timers"
    by (simp add: sample_run_simps)
  have "\<exists>s. rfold (lt_step (first_fit [8, 16]) (\<lambda>_. [])) ?ops new_loop_timers = Inr s"
    by (simp add: sample_run_simps)
  with loop_timers_safe [OF sample_timers_env legal] show ?thesis by auto
qed

definition sample_added :: loop_timers where
  "sample_added = \<lparr>lt_queue = new_timer_queue\<lparr>tq_heap := [8 \<mapsto> new_timer 7 500 0 False 0], tq_numCreated := 1\<rparr>,
     lt_pending = [AddTimerInLoop 8], lt_running = [], lt_returning = []\<rparr>"

lemma sample_add: "addTimer_call False (first_fit [8, 16]) 10 7 500 0 False new_loop_timers = Inr (8, sample_added)"
  "addTimer_return 8 sample_added = Inr (8, 1)" "tasks_of new_loop_timers = []"
  by (simp_all add: sample_run_simps sample_added_def)

theorem cross_thread_add_cancel_witness:
  "\<exists>s2 s3. cancelTimer False 20 (8, 1) sample_added = Inr s2 \<and> timers_drain 30 s2 = Inr s3 \<and>
     tq_timers (lt_queue s3) = [] \<and> tq_heap (lt_queue s3) = Map.empty"
proof -
  obtain s2 where s2: "cancelTimer False 10 (8, 1) sample_added = Inr s2" "cancelTimer False 20 (8, 1) sample_added = Inr s2"
    by (simp add: cancelTimer_def timer_runInLoop_def)
  from cross_thread_add_cancel [OF lt_good_new sample_add(3) sample_malloc _ sample_add(1,2) s2(1), of 30] s2(2)
  show ?thesis by (auto simp: new_loop_timers_def new_timer_queue_def)
qed

theorem timer_id_race_witness:
  "\<exists>s2 s3. timers_drain 20 sample_added = Inr s2 \<and> timers_fire (first_fit [8, 16]) (\<lambda>_. []) 600 601 s2 = Inr s3 \<and>
     addTimer_return 8 s3 = Inl UseAfterFree"
proof -
  have at: "runAt False (first_fit [8, 16]) 10 500 7 new_loop_timers = Inr (8, sample_added)"
    using sample_add(1) by (simp add: runAt_def)
  obtain s2 where s2: "timers_drain 20 sample_added = Inr s2" "lt_queue s2 = new_timer_queue\<lparr>tq_heap := [8 \<mapsto> new_timer 7 500 0 False 0],
      tq_timers := [(500, 8)], tq_active := {(8, 1)}, tq_armed := Some (20, howMuchTimeFromNow 20 500), tq_numCreated := 1\<rparr>"
    by (simp add: sample_added_def sample_run_simps)
  have "\<exists>s3. timers_fire (first_fit [8, 16]) (\<lambda>_. []) 600 601 s2 = Inr s3"
    using s2(2) by (simp add: timers_fire_def tq_handleRead_def getExpired_def new_timer_queue_def sizes_agree_def uintptr_max_def
        tq_deref_def new_timer_def timer_run_def tq_reset_def reset_one_def ts_valid_def ts_invalid_def Let_def)
  then obtain s3 where "timers_fire (first_fit [8, 16]) (\<lambda>_. []) 600 601 s2 = Inr s3" by blast
  with timer_id_race [OF lt_good_new sample_add(3) sample_timers_env _ _ at s2(1) this] s2(1) show ?thesis by auto
qed

theorem cancel_overtaken_witness:
  "\<exists>s2 s3. cancelTimer True 20 (8, 1) sample_added = Inr s2 \<and> timers_drain 30 s2 = Inr s3 \<and> (8, 1) \<in> tq_active (lt_queue s3)"
proof -
  obtain s2 where s2: "cancelTimer True 20 (8, 1) sample_added = Inr s2"
    by (simp add: sample_added_def cancelTimer_def timer_runInLoop_def cancelInLoop_def sizes_agree_def new_timer_queue_def)
  have "\<not> tq_calling (lt_queue new_loop_timers)" by (simp add: new_loop_timers_def new_timer_queue_def)
  from cancel_overtaken [OF lt_good_new sample_add(3) sample_malloc _ this sample_add(1,2) s2, of 30] s2 show ?thesis by auto
qed
end
