(* ===== verification/Reactor.thy ===== *)
theory Reactor
  imports Epoller TimerQueue TcpConnection StdMap
begin

text \<open>
  The loop's own life (\<open>net/EventLoop.cc\<close>, with the constructors of \<open>EPollPoller\<close> and \<open>TimerQueue\<close>
  it calls) and the part of \<open>EventLoop::loop\<close> that hands the events of one poll to the channels. The
  callbacks of a channel are scripts of calls on channels of the loop: switch, remove, destroy,
  create, decided on the state they find.
\<close>

section \<open>Construction and destruction\<close>

record 'k reactor =
  re_poller :: "'k poller"
  re_timers :: timer_queue
  re_timerfdChannel :: chan_ptr
  re_wakeupChannel :: chan_ptr
  re_loopInThisThread :: "nat option"
  re_connections :: "(nat \<times> conn) list"

text \<open>\<open>connections_\<close> keeps the established connections alive.\<close>

definition addConnection :: "nat \<Rightarrow> conn \<Rightarrow> 'k reactor \<Rightarrow> 'k reactor" where
  "addConnection p c r = r\<lparr>re_connections := map_put p c (re_connections r)\<rparr>"

definition removeConnection :: "nat \<Rightarrow> 'k reactor \<Rightarrow> 'k reactor res" where
  "removeConnection p r =
     assertm (map_find (re_connections r) p \<noteq> None) (Inr (r\<lparr>re_connections := map_erase p (re_connections r)\<rparr>))"

definition createEpoll :: "int \<Rightarrow> nat \<Rightarrow> 'k \<Rightarrow> 'k poller res" where
  "createEpoll epollfd loop k = (if epollfd < 0 then Inl FatalLog else Inr (new_poller loop k))"

definition createTimerfd :: "int \<Rightarrow> int res" where
  "createTimerfd timerfd = (if timerfd < 0 then Inl FatalLog else Inr timerfd)"

definition createEventfd :: "int \<Rightarrow> int res" where
  "createEventfd evtfd = (if evtfd < 0 then Inl Aborts else Inr evtfd)"

text \<open>A channel with a read callback, switched on for reading.\<close>

definition open_reading :: "'k epoll_ctl \<Rightarrow> chan_ptr \<Rightarrow> int \<Rightarrow> 'k poller \<Rightarrow> 'k poller res" where
  "open_reading ctl p fd w = channel_switch ctl EnableReading p (chan_put p (setReadCallback (new_channel (ep_loop w) fd)) w)"

definition close_channel :: "'k epoll_ctl \<Rightarrow> chan_ptr \<Rightarrow> 'k poller \<Rightarrow> 'k poller res" where
  "close_channel ctl p w = rbind (channel_switch ctl DisableAll p w) (channel_remove ctl p)"

definition timerQueue_construct :: "'k epoll_ctl \<Rightarrow> chan_ptr \<Rightarrow> int \<Rightarrow> 'k poller \<Rightarrow> 'k poller res" where
  "timerQueue_construct ctl p timerfd w = rbind (createTimerfd timerfd) (\<lambda>fd. open_reading ctl p fd w)"

text \<open>
  The constructor, with the answers of the kernel to \<open>epoll_create1\<close>, \<open>timerfd_create\<close> and
  \<open>eventfd\<close>, the addresses of the two channels and the loop this thread has already, if any.
\<close>

definition eventLoop_construct :: "'k epoll_ctl \<Rightarrow> nat \<Rightarrow> nat option \<Rightarrow> int \<times> int \<times> int \<Rightarrow> chan_ptr \<times> chan_ptr \<Rightarrow> 'k \<Rightarrow>
    'k reactor res" where
  "eventLoop_construct ctl loop tls fds ps k =
     (case (fds, ps) of ((epollfd, timerfd, evtfd), (pt, pw)) \<Rightarrow>
      rbind (createEpoll epollfd loop k) (\<lambda>w.
      rbind (timerQueue_construct ctl pt timerfd w) (\<lambda>w1.
      rbind (createEventfd evtfd) (\<lambda>wakeupFd.
      if tls \<noteq> None then Inl FatalLog
      else rbind (open_reading ctl pw wakeupFd w1) (\<lambda>w2.
           Inr \<lparr>re_poller = w2, re_timers = new_timer_queue, re_timerfdChannel = pt, re_wakeupChannel = pw,
                re_loopInThisThread = Some loop, re_connections = []\<rparr>)))))"

text \<open>The destructor of the queue and of its channel, then the loop's with its members, last first.\<close>

definition timerQueue_destruct :: "'k epoll_ctl \<Rightarrow> 'k reactor \<Rightarrow> 'k reactor res" where
  "timerQueue_destruct ctl r =
     rbind (close_channel ctl (re_timerfdChannel r) (re_poller r)) (\<lambda>w.
     rbind (tq_destroy (re_timers r)) (\<lambda>q.
     rbind (channel_destroy (re_timerfdChannel r) w) (\<lambda>w'.
     Inr (r\<lparr>re_poller := w', re_timers := q\<rparr>))))"

text \<open>
  A connection that only \<open>connections_\<close> still owns is destroyed with it, after the poller: its state
  and its channel are checked, and the channel would then ask the poller, which is gone.
\<close>

definition connection_left :: "conn \<Rightarrow> unit res" where
  "connection_left c = rbind (conn_destroy c) (\<lambda>_. assertm (\<not> ch_addedToLoop (c_chan c)) (Inl UseAfterFree))"

definition eventLoop_destruct :: "'k epoll_ctl \<Rightarrow> 'k reactor \<Rightarrow> 'k reactor res" where
  "eventLoop_destruct ctl r =
     rbind (close_channel ctl (re_wakeupChannel r) (re_poller r)) (\<lambda>w.
     rbind (channel_destroy (re_wakeupChannel r) w) (\<lambda>w'.
     rbind (timerQueue_destruct ctl (r\<lparr>re_poller := w', re_loopInThisThread := None\<rparr>)) (\<lambda>r'.
     rbind (rfold (\<lambda>(p, c) _. connection_left c) (re_connections r') ()) (\<lambda>_. Inr r'))))"

section \<open>Dispatch\<close>

text \<open>A callback is the calls it makes on channels, in the state it finds.\<close>

type_synonym 'k script = "chan_ptr \<Rightarrow> chan_cb \<Rightarrow> 'k poller \<Rightarrow> ep_op list"

fun callback_op :: "ep_op \<Rightarrow> bool" where
  "callback_op (EpNew p fd) = True"
| "callback_op (EpSwitch sw p) = True"
| "callback_op (EpRemove p) = True"
| "callback_op (EpDestroy p) = True"
| "callback_op _ = False"

definition chan_at :: "chan_ptr \<Rightarrow> 'k poller \<Rightarrow> channel" where
  "chan_at p w = the (ep_chans w p)"

definition chan_upd :: "chan_ptr \<Rightarrow> (channel \<Rightarrow> channel) \<Rightarrow> 'k poller \<Rightarrow> 'k poller" where
  "chan_upd p f w = chan_put p (f (chan_at p w)) w"

definition run_script :: "'k epoll_ctl \<Rightarrow> 'k script \<Rightarrow> chan_ptr \<Rightarrow> chan_cb \<Rightarrow> 'k poller \<Rightarrow> 'k poller res" where
  "run_script ctl script p cb w = rbind (chan_deref p w) (\<lambda>_. rfold (ep_step ctl) (script p cb w) w)"

text \<open>
  One channel's turn: the loop follows the pointer the poll stored; \<open>handleEvent\<close> uses the channel
  until its last statement, so it must still be there after the callbacks. Each callback follows
  the pointer as well. \<open>alive\<close> says whose tied object is still there.
\<close>

definition handle_channel :: "'k epoll_ctl \<Rightarrow> 'k script \<Rightarrow> (chan_ptr \<Rightarrow> bool) \<Rightarrow> Timestamp \<Rightarrow> chan_ptr \<Rightarrow> 'k poller \<Rightarrow> 'k poller res" where
  "handle_channel ctl script alive t p w =
     (let w0 = w\<lparr>ep_current := Some p\<rparr> in
      rbind (chan_deref p w0) (\<lambda>_.
      rbind (handleEvent (chan_at p) (chan_upd p) (run_script ctl script p) (alive p) t w0) (\<lambda>w1.
      rbind (chan_deref p w1) (\<lambda>_. Inr w1))))"

definition loop_dispatch :: "'k epoll_ctl \<Rightarrow> 'k script \<Rightarrow> (chan_ptr \<Rightarrow> bool) \<Rightarrow> int + epoll_event list \<Rightarrow> Timestamp \<Rightarrow>
    'k poller \<Rightarrow> 'k poller res" where
  "loop_dispatch ctl script alive answer t w =
     rbind (poller_poll answer (w\<lparr>ep_activeChannels := []\<rparr>)) (\<lambda>w1.
     rbind (rfold (handle_channel ctl script alive t) (ep_activeChannels w1) (w1\<lparr>ep_eventHandling := True\<rparr>)) (\<lambda>w2.
     Inr (w2\<lparr>ep_current := None, ep_eventHandling := False\<rparr>)))"

section \<open>Lemmas on dispatch\<close>

definition registered :: "'k poller \<Rightarrow> chan_ptr \<Rightarrow> bool" where
  "registered w q \<longleftrightarrow> (\<exists>c. ep_chans w q = Some c \<and> ch_index c \<noteq> kNew)"

text \<open>During the turn of \<open>p\<close>: its channel is in use, and those still to come stay registered.\<close>

definition turn_inv :: "'k interest \<Rightarrow> chan_ptr \<Rightarrow> chan_ptr list \<Rightarrow> 'k poller \<Rightarrow> bool" where
  "turn_inv interest p rest w \<longleftrightarrow> poller_inv interest w \<and> ep_eventHandling w \<and> ep_current w = Some p \<and>
     (\<exists>c. ep_chans w p = Some c \<and> ch_eventHandling c) \<and> p \<notin> set rest \<and> set rest \<subseteq> set (ep_activeChannels w) \<and>
     (\<forall>q \<in> set rest. registered w q)"

definition between_inv :: "'k interest \<Rightarrow> chan_ptr list \<Rightarrow> 'k poller \<Rightarrow> bool" where
  "between_inv interest rest w \<longleftrightarrow> poller_inv interest w \<and> ep_eventHandling w \<and> distinct rest \<and>
     set rest \<subseteq> set (ep_activeChannels w) \<and> (\<forall>q \<in> set rest. registered w q)"

lemma turn_step:
  assumes spec: "epoll_spec ctl interest" and turn: "turn_inv interest p rest w"
    and legal: "ep_legal interest op w" and cb: "callback_op op"
  shows "ok_or (refusals ctl interest) (turn_inv interest p rest) (ep_step ctl op w)"
proof (cases op)
  case (EpNew q fd)
  have "poller_inv interest (chan_put q (new_channel (ep_loop w) fd) w)"
    using chan_create_ok [of interest w q fd] turn legal EpNew by (simp add: turn_inv_def)
  then show ?thesis using turn legal EpNew by (auto simp: turn_inv_def chan_put_def registered_def)
next
  case (EpSwitch sw q)
  have inv: "poller_inv interest w" using turn by (simp add: turn_inv_def)
  obtain c where c: "ep_chans w q = Some c" "ch_index c = kNew \<Longrightarrow> ep_channels w (ch_fd c) = None"
    using legal EpSwitch by (auto simp: switch_legal_def split: option.splits)
  show ?thesis
    using channel_switch_ok [OF inv spec c, of sw] turn c(1) EpSwitch
    by (auto simp: refusals_def add_accepts_def turn_inv_def registered_def frame_defs)
next
  case (EpRemove q)
  have inv: "poller_inv interest w" using turn by (simp add: turn_inv_def)
  have rl: "remove_legal q w" using legal EpRemove by simp
  obtain w' c c' where w': "channel_remove ctl q w = Inr w'" "poller_inv interest w'" "ep_chans w q = Some c"
    "ep_chans w' = (ep_chans w)(q \<mapsto> c')" "chan_frame c c'" "ep_frame w w'"
    using channel_remove_ok [OF inv spec rl] by (elim exE conjE) rule
  have "q \<notin> set rest" using turn rl by (auto simp: turn_inv_def remove_legal_def)
  then show ?thesis using turn w' EpRemove by (auto simp: turn_inv_def registered_def frame_defs)
next
  case (EpDestroy q)
  then obtain c where c: "ep_chans w q = Some c" "ch_index c = kNew" "\<not> ch_eventHandling c"
    using legal by (auto split: option.splits)
  have "poller_inv interest w" using turn by (simp add: turn_inv_def)
  from channel_destroy_ok [OF this c] obtain w' where w': "channel_destroy q w = Inr w'" "poller_inv interest w'"
    "ep_chans w' = (ep_chans w)(q := None)" "ep_frame w w'" by (elim exE conjE) rule
  have "q \<noteq> p" "q \<notin> set rest" using turn c by (auto simp: turn_inv_def registered_def)
  then show ?thesis using turn w' EpDestroy by (auto simp: turn_inv_def registered_def ep_frame_def)
qed (use cb in simp_all)

lemma turn_run:
  assumes "epoll_spec ctl interest" "turn_inv interest p rest w" "run_legal (ep_legal interest) (ep_step ctl) ops w"
    "list_all callback_op ops"
  shows "ok_or (refusals ctl interest) (turn_inv interest p rest) (rfold (ep_step ctl) ops w)"
  using assms(2-4)
proof (induction ops arbitrary: w)
  case (Cons op ops)
  have "ok_or (refusals ctl interest) (turn_inv interest p rest) (ep_step ctl op w)"
    using turn_step [OF assms(1) Cons.prems(1), of op] Cons.prems(2,3) by simp
  then show ?case
    unfolding rfold.simps by (rule ok_or_bind) (use Cons in auto)
qed simp

text \<open>What is asked of the callbacks: each call is one the users of channels may make.\<close>

definition script_ok :: "'k epoll_ctl \<Rightarrow> 'k interest \<Rightarrow> 'k script \<Rightarrow> bool" where
  "script_ok ctl interest script \<longleftrightarrow> (\<forall>p cb w. poller_inv interest w \<longrightarrow> list_all callback_op (script p cb w) \<and>
     run_legal (ep_legal interest) (ep_step ctl) (script p cb w) w)"

lemma chan_upd_inv:
  assumes inv: "poller_inv interest w" and c: "ep_chans w p = Some c"
    and keep: "ch_fd (f c) = ch_fd c" "ch_index (f c) = ch_index c" "ch_events (f c) = ch_events c"
      "ch_addedToLoop (f c) = ch_addedToLoop c" "ch_loop (f c) = ch_loop c"
  shows "poller_inv interest (chan_upd p f w)"
proof -
  have fd: "fd_inv interest w fd" for fd using inv by (simp add: poller_inv_def)
  have "fd_inv interest (chan_upd p f w) fd" for fd
    using fd [of fd] c keep by (auto simp: fd_inv_def chan_upd_def chan_at_def chan_put_def split: option.splits)
  moreover have "chan_inv interest (chan_upd p f w) q d" if "ep_chans (chan_upd p f w) q = Some d" for q d
    using that poller_inv_chan(1) [OF inv] c keep
    by (cases "q = p") (auto simp: chan_upd_def chan_at_def chan_put_def chan_inv_def isNoneEvent_def)
  ultimately show ?thesis using inv by (auto simp: poller_inv_def chan_upd_def chan_put_def)
qed

lemma run_script_turn:
  assumes "epoll_spec ctl interest" "script_ok ctl interest script" "turn_inv interest p rest w"
  shows "ok_or (refusals ctl interest) (turn_inv interest p rest) (run_script ctl script p cb w)"
proof -
  have inv: "poller_inv interest w" and live: "\<exists>c. ep_chans w p = Some c" using assms(3) by (auto simp: turn_inv_def)
  have s: "run_legal (ep_legal interest) (ep_step ctl) (script p cb w) w" "list_all callback_op (script p cb w)"
    using assms(2) inv by (auto simp: script_ok_def)
  from turn_run [OF assms(1,3) s] live show ?thesis by (auto simp: run_script_def chan_deref_def)
qed

lemma handle_channel_ok:
  assumes spec: "epoll_spec ctl interest" and script: "script_ok ctl interest script"
    and b: "between_inv interest (p # rest) w"
  shows "ok_or (refusals ctl interest) (between_inv interest rest) (handle_channel ctl script alive t p w)"
proof -
  let ?w0 = "w\<lparr>ep_current := Some p\<rparr>"
  let ?on = "\<lambda>c. c\<lparr>ch_eventHandling := True\<rparr>" and ?off = "\<lambda>c. c\<lparr>ch_eventHandling := False\<rparr>"
  obtain c where c: "ep_chans w p = Some c" using b by (auto simp: between_inv_def registered_def)
  have inv: "poller_inv interest w" using b by (simp add: between_inv_def)
  have inv0: "poller_inv interest ?w0"
    by (rule poller_inv_cong [OF inv]) (use inv in \<open>simp_all add: poller_inv_def\<close>)
  have idle: "between_inv interest rest ?w0" using b inv0 by (auto simp: between_inv_def registered_def)
  have turn: "turn_inv interest p rest (chan_upd p ?on ?w0)"
    using b chan_upd_inv [OF inv0, of p c ?on] c
    by (auto simp: turn_inv_def between_inv_def registered_def chan_upd_def chan_at_def chan_put_def)
  have run: "ok_or (refusals ctl interest) (turn_inv interest p rest)
      (rfold (\<lambda>cb s. if asks (chan_at p s) cb then run_script ctl script p cb s else Inr s)
         [CbClose, CbError, CbRead t, CbWrite] (chan_upd p ?on ?w0))"
    using turn by (rule ok_or_rfold) (simp add: run_script_turn [OF spec script])
  have after: "\<exists>c. ep_chans (chan_upd p ?off w2) p = Some c \<and> between_inv interest rest (chan_upd p ?off w2)"
    if tw: "turn_inv interest p rest w2" for w2
  proof -
    obtain c2 where c2: "ep_chans w2 p = Some c2" using tw by (auto simp: turn_inv_def)
    have "poller_inv interest (chan_upd p ?off w2)" using chan_upd_inv [of interest w2 p c2 ?off] c2 tw by (simp add: turn_inv_def)
    then show ?thesis using tw c2 b
      by (auto simp: turn_inv_def between_inv_def registered_def chan_upd_def chan_at_def chan_put_def)
  qed
  have "ok_or (refusals ctl interest) (\<lambda>w1. between_inv interest rest w1 \<and> ep_chans w1 p \<noteq> None)
      (handleEvent (chan_at p) (chan_upd p) (run_script ctl script p) (alive p) t ?w0)"
  proof (cases "ch_tied (chan_at p ?w0) \<and> \<not> alive p")
    case True
    then show ?thesis using idle c by (simp add: handleEvent_fold)
  next
    case False
    show ?thesis
      unfolding handleEvent_fold if_not_P [OF False] by (rule ok_or_bind [OF run]) (use after in auto)
  qed
  then show ?thesis using c by (auto simp: handle_channel_def Let_def chan_deref_def intro!: ok_or_bind split: option.splits)
qed

lemma dispatch_all:
  assumes "epoll_spec ctl interest" "script_ok ctl interest script" "between_inv interest rest w"
  shows "ok_or (refusals ctl interest) (between_inv interest []) (rfold (handle_channel ctl script alive t) rest w)"
  using assms(3)
proof (induction rest arbitrary: w)
  case (Cons p rest)
  show ?case unfolding rfold.simps by (rule ok_or_bind [OF handle_channel_ok [OF assms(1,2) Cons.prems]]) (rule Cons.IH)
qed simp


lemma poll_between:
  assumes inv: "poller_inv interest w" and legal: "answer_legal interest answer w"
    and dist: "\<forall>evs. answer = Inr evs \<longrightarrow> distinct (map snd evs)"
  shows "\<exists>w1. poller_poll answer (w\<lparr>ep_activeChannels := []\<rparr>) = Inr w1 \<and>
     between_inv interest (ep_activeChannels w1) (w1\<lparr>ep_eventHandling := True\<rparr>)"
proof -
  let ?w = "w\<lparr>ep_activeChannels := []\<rparr>"
  have inv0: "poller_inv interest ?w" by (rule poller_inv_cong [OF inv]) (use inv in \<open>simp_all add: poller_inv_def\<close>)
  have handling: "poller_inv interest (v\<lparr>ep_eventHandling := True\<rparr>)" if "poller_inv interest v" for v
    by (rule poller_inv_cong [OF that]) (use that in \<open>simp_all add: poller_inv_def\<close>)
  show ?thesis
  proof (cases "answer = Inr [] \<or> (\<exists>e. answer = Inl e)")
    case True
    then show ?thesis using handling [OF inv0] by (auto simp: poller_poll_def between_inv_def)
  next
    case False
    then obtain evs where evs: "answer = Inr evs" "evs \<noteq> []" by (cases answer) auto
    have point: "\<forall>(ev, p) \<in> set evs. \<exists>fd ev'. interest (ep_kernel ?w) fd = Some (ev', p)"
      using legal evs by (auto simp: answer_legal_def)
    obtain w1 where w1: "fillActiveChannels evs ?w = Inr w1" "poller_inv interest w1"
      "ep_activeChannels w1 = ep_activeChannels ?w @ map snd evs" "ep_kernel w1 = ep_kernel ?w"
      using fillActiveChannels_ok [OF inv0 point] by (elim exE conjE) rule
    define w2 where "w2 = (if length evs = ep_events_size w1 then w1\<lparr>ep_events_size := ep_events_size w1 * 2\<rparr> else w1)"
    have inv2: "poller_inv interest w2"
      unfolding w2_def by (rule poller_inv_cong [OF w1(2)]) (use w1(2) in \<open>simp_all add: poller_inv_def\<close>)
    have reg: "registered w2 q" if q: "q \<in> set (map snd evs)" for q
    proof -
      obtain fd ev' where "interest (ep_kernel w1) fd = Some (ev', q)" using point q w1(4) by fastforce
      then obtain c where "ep_chans w1 q = Some c" "ch_index c = kAdded" using interest_live [OF w1(2)] by metis
      then show ?thesis by (simp add: registered_def w2_def)
    qed
    have "poller_poll answer ?w = Inr w2" using evs w1(1) by (simp add: poller_poll_def w2_def)
    moreover have "ep_activeChannels w2 = map snd evs" using w1(3) by (simp add: w2_def)
    ultimately show ?thesis using handling [OF inv2] reg dist evs(1)
      by (auto simp: between_inv_def registered_def)
  qed
qed

section \<open>Lemmas on the loop's life\<close>

lemma open_reading_ok:
  assumes inv: "poller_inv interest w" and spec: "epoll_spec ctl interest" and acc: "add_accepts ctl interest"
    and new: "ep_chans w p = None" "ep_channels w fd = None"
  shows "\<exists>w' c. open_reading ctl p fd w = Inr w' \<and> poller_inv interest w' \<and> ep_chans w' = (ep_chans w)(p \<mapsto> c) \<and>
     ch_fd c = fd \<and> ch_events c = kReadEvent \<and> ch_index c \<noteq> kNew \<and> \<not> ch_eventHandling c \<and> ch_readCallback c \<and> ep_frame w w'"
proof -
  let ?c = "setReadCallback (new_channel (ep_loop w) fd)"
  let ?w = "chan_put p ?c w"
  have "poller_inv interest (chan_put p (new_channel (ep_loop w) fd) w)" by (rule chan_create_ok [OF inv new(1)])
  then have "poller_inv interest (chan_upd p setReadCallback (chan_put p (new_channel (ep_loop w) fd) w))"
    by (rule chan_upd_inv) (simp_all add: chan_put_def setReadCallback_def)
  then have inv': "poller_inv interest ?w" by (simp add: chan_upd_def chan_at_def chan_put_def)
  have c: "ep_chans ?w p = Some ?c" "ep_channels ?w (ch_fd ?c) = None"
    using new(2) by (simp_all add: chan_put_def setReadCallback_def new_channel_def)
  from channel_switch_ok [OF inv' spec c(1), of EnableReading] c(2) acc show ?thesis
    by (auto simp: open_reading_def add_accepts_def chan_put_def frame_defs setReadCallback_def new_channel_def)
qed

lemma close_channel_ok:
  assumes inv: "poller_inv interest w" and spec: "epoll_spec ctl interest"
    and c: "ep_chans w p = Some c" "ch_index c = kAdded" "\<not> ch_eventHandling c" "\<not> ep_eventHandling w"
  shows "\<exists>w' w''. close_channel ctl p w = Inr w' \<and> channel_destroy p w' = Inr w'' \<and> poller_inv interest w'' \<and>
    ep_chans w'' = (ep_chans w)(p := None) \<and> ep_frame w w''"
proof -
  have "ch_index c = kNew \<Longrightarrow> ep_channels w (ch_fd c) = None" using c(2) by simp
  from channel_switch_ok [OF inv spec c(1) this, of DisableAll] c(2)
  obtain w1 c1 where w1: "channel_switch ctl DisableAll p w = Inr w1" "poller_inv interest w1"
    "ep_chans w1 = (ep_chans w)(p \<mapsto> c1)" "ch_events c1 = kNoneEvent" "ch_index c1 \<noteq> kNew" "chan_frame c c1" "ep_frame w w1"
    by auto
  have rl: "remove_legal p w1" using w1 c(4) by (simp add: remove_legal_def isNoneEvent_def ep_frame_def)
  obtain w2 c2 c2' where w2: "channel_remove ctl p w1 = Inr w2" "poller_inv interest w2" "ep_chans w1 p = Some c2"
    "ep_chans w2 = (ep_chans w1)(p \<mapsto> c2')" "ch_index c2' = kNew" "chan_frame c2 c2'" "ep_frame w1 w2"
    using channel_remove_ok [OF w1(2) spec rl] by (elim exE conjE) rule
  have "\<not> ch_eventHandling c2'" using w1(3,6) w2(3,6) c(3) by (simp add: chan_frame_def)
  moreover have "ep_chans w2 p = Some c2'" using w2(4) by simp
  ultimately obtain w3 where "channel_destroy p w2 = Inr w3" "poller_inv interest w3" "ep_chans w3 = (ep_chans w2)(p := None)" "ep_frame w2 w3"
    using channel_destroy_ok [OF w2(2) _ w2(5)] by blast
  with w1 w2 show ?thesis by (auto simp: close_channel_def ep_frame_def)
qed

text \<open>What the constructor leaves: two registered channels, the timer's and the wakeup's.\<close>

definition reactor_inv :: "'k interest \<Rightarrow> 'k reactor \<Rightarrow> bool" where
  "reactor_inv interest r \<longleftrightarrow> poller_inv interest (re_poller r) \<and> \<not> ep_eventHandling (re_poller r) \<and>
     re_timerfdChannel r \<noteq> re_wakeupChannel r \<and> dom (ep_chans (re_poller r)) = {re_timerfdChannel r, re_wakeupChannel r} \<and>
     (\<forall>p c. ep_chans (re_poller r) p = Some c \<longrightarrow> ch_index c = kAdded \<and> \<not> ch_eventHandling c)"

lemma registered_kAdded:
  "poller_inv interest w \<Longrightarrow> ep_chans w p = Some c \<Longrightarrow> ch_index c \<noteq> kNew \<Longrightarrow> \<not> isNoneEvent c \<Longrightarrow> ch_index c = kAdded"
  using poller_inv_chan(1) by (fastforce simp: chan_inv_def)

lemma new_poller_fields: "ep_chans (new_poller l k) = Map.empty" "ep_channels (new_poller l k) = Map.empty"
  "\<not> ep_eventHandling (new_poller l k)"
  by (simp_all add: new_poller_def)

lemma kReadEvent_some: "kReadEvent \<noteq> kNoneEvent"
  by (simp add: kReadEvent_def kNoneEvent_def poll_bits)

lemma construct_ok:
  assumes spec: "epoll_spec ctl interest" "add_accepts ctl interest" "\<forall>fd. interest k fd = None"
    and fds: "0 \<le> epollfd" "0 \<le> timerfd" "0 \<le> evtfd" "timerfd \<noteq> evtfd" "pt \<noteq> pw"
  shows "\<exists>r ct cw. eventLoop_construct ctl loop None (epollfd, timerfd, evtfd) (pt, pw) k = Inr r \<and> reactor_inv interest r \<and>
    re_timerfdChannel r = pt \<and> re_wakeupChannel r = pw \<and> re_loopInThisThread r = Some loop \<and> re_timers r = new_timer_queue \<and> re_connections r = [] \<and>
    ep_chans (re_poller r) = [pt \<mapsto> ct, pw \<mapsto> cw] \<and> ch_fd ct = timerfd \<and> ch_fd cw = evtfd \<and>
    ch_events ct = kReadEvent \<and> ch_events cw = kReadEvent"
proof -
  have inv0: "poller_inv interest (new_poller loop k)" using spec(3) by (rule new_poller_inv)
  obtain w1 ct where w1: "open_reading ctl pt timerfd (new_poller loop k) = Inr w1" "poller_inv interest w1"
    "ep_chans w1 = (ep_chans (new_poller loop k))(pt \<mapsto> ct)" "ch_fd ct = timerfd" "ch_events ct = kReadEvent"
    "ch_index ct \<noteq> kNew" "\<not> ch_eventHandling ct" "ep_frame (new_poller loop k) w1"
    using open_reading_ok [OF inv0 spec(1,2), of pt timerfd] by (auto simp: new_poller_fields)
  have other: "ep_channels w1 evtfd = None"
  proof (cases "ep_channels w1 evtfd")
    case (Some q)
    have "fd_inv interest w1 evtfd" using w1(2) by (simp add: poller_inv_def)
    with Some obtain c where "ep_chans w1 q = Some c" "ch_fd c = evtfd" by (auto simp: fd_inv_def)
    then show ?thesis using w1(3,4) fds(4) by (auto simp: new_poller_fields split: if_splits)
  qed
  have fresh: "ep_chans w1 pw = None" using w1(3) fds(5) by (simp add: new_poller_fields)
  obtain w2 cw where w2: "open_reading ctl pw evtfd w1 = Inr w2" "poller_inv interest w2" "ep_chans w2 = (ep_chans w1)(pw \<mapsto> cw)"
    "ch_fd cw = evtfd" "ch_events cw = kReadEvent" "ch_index cw \<noteq> kNew" "\<not> ch_eventHandling cw" "ep_frame w1 w2"
    using open_reading_ok [OF w1(2) spec(1,2) fresh other] by (elim exE conjE) rule
  have ch: "ep_chans w2 = [pt \<mapsto> ct, pw \<mapsto> cw]" using w1(3) w2(3) by (simp add: new_poller_fields)
  have idx: "ch_index ct = kAdded" "ch_index cw = kAdded"
    using registered_kAdded [OF w2(2), of pt ct] registered_kAdded [OF w2(2), of pw cw] ch fds(5) w1(5,6) w2(5,6) kReadEvent_some
    by (simp_all add: isNoneEvent_def)
  let ?r = "\<lparr>re_poller = w2, re_timers = new_timer_queue, re_timerfdChannel = pt, re_wakeupChannel = pw,
      re_loopInThisThread = Some loop, re_connections = []\<rparr>"
  have "eventLoop_construct ctl loop None (epollfd, timerfd, evtfd) (pt, pw) k = Inr ?r"
    using w1(1) w2(1) fds(1-3)
    by (simp add: eventLoop_construct_def createEpoll_def timerQueue_construct_def createTimerfd_def createEventfd_def)
  moreover have "reactor_inv interest ?r"
    using w1 w2 ch idx fds(5) by (auto simp: reactor_inv_def ep_frame_def new_poller_fields split: if_splits)
  ultimately show ?thesis using ch w1(4,5) w2(4,5) by (intro exI [of _ ?r] exI [of _ ct] exI [of _ cw]) simp
qed

lemma destruct_ok:
  assumes spec: "epoll_spec ctl interest" and inv: "reactor_inv interest r" and timers: "tq_inv {} (re_timers r)"
    and none: "re_connections r = []"
  shows "\<exists>r'. eventLoop_destruct ctl r = Inr r' \<and> poller_inv interest (re_poller r') \<and> ep_chans (re_poller r') = Map.empty \<and>
    tq_heap (re_timers r') = Map.empty \<and> re_loopInThisThread r' = None"
proof -
  let ?pt = "re_timerfdChannel r" and ?pw = "re_wakeupChannel r" and ?w = "re_poller r"
  note r = inv [unfolded reactor_inv_def]
  obtain cw ct where c: "ep_chans ?w ?pw = Some cw" "ep_chans ?w ?pt = Some ct" using r by blast
  have ok: "ch_index cw = kAdded" "\<not> ch_eventHandling cw" "ch_index ct = kAdded" "\<not> ch_eventHandling ct"
    using r c by blast+
  have nh: "\<not> ep_eventHandling ?w" and ne: "?pt \<noteq> ?pw" and inv0: "poller_inv interest ?w" using r by blast+
  obtain w1 w2 where w: "close_channel ctl ?pw ?w = Inr w1" "channel_destroy ?pw w1 = Inr w2" "poller_inv interest w2"
    "ep_chans w2 = (ep_chans ?w)(?pw := None)" "ep_frame ?w w2"
    using close_channel_ok [OF inv0 spec c(1) ok(1,2) nh] by (elim exE conjE) rule
  have c2: "ep_chans w2 ?pt = Some ct" using w(4) c(2) ne by simp
  have nh2: "\<not> ep_eventHandling w2" using w(5) nh by (simp add: ep_frame_def)
  obtain w3 w4 where v: "close_channel ctl ?pt w2 = Inr w3" "channel_destroy ?pt w3 = Inr w4" "poller_inv interest w4"
    "ep_chans w4 = (ep_chans w2)(?pt := None)"
    using close_channel_ok [OF w(3) spec c2 ok(3,4) nh2] by (elim exE conjE) rule
  obtain q where q: "tq_destroy (re_timers r) = Inr q" "tq_heap q = Map.empty"
    using tq_destroy_frees [OF timers] by blast
  have "ep_chans w4 p = None" for p using v(4) w(4) r by (cases "p = ?pt \<or> p = ?pw") auto
  then have "ep_chans w4 = Map.empty" by (rule ext)
  then show ?thesis using w(1,2) v(1-3) q none by (simp add: eventLoop_destruct_def timerQueue_destruct_def)
qed

lemma no_channels_no_interest: "poller_inv interest w \<Longrightarrow> ep_chans w = Map.empty \<Longrightarrow> interest (ep_kernel w) fd = None"
  by (cases "interest (ep_kernel w) fd") (auto elim: interest_live)

section \<open>Properties\<close>

text \<open>
  C8: one round of the loop's dispatch is safe for any legal callbacks. Whatever the kernel reports
  (each channel at most once), and whatever the callbacks of the channels do, as long as each call
  they make is legal, no assertion fails and neither the loop nor \<open>handleEvent\<close> follows a pointer to
  a destroyed channel, although callbacks remove and destroy channels while the list of active ones
  is being worked through; only a refused registration is fatal. Afterwards the bookkeeping is
  consistent and the loop's marks are cleared.
\<close>

theorem loop_dispatch_safe:
  assumes "epoll_spec ctl interest" "script_ok ctl interest script" "poller_inv interest w" "answer_legal interest answer w"
    and "\<forall>evs. answer = Inr evs \<longrightarrow> distinct (map snd evs)"
  shows "ok_or (if add_accepts ctl interest then {} else {FatalLog})
     (\<lambda>w'. poller_inv interest w' \<and> \<not> ep_eventHandling w' \<and> ep_current w' = None)
     (loop_dispatch ctl script alive answer t w)"
proof -
  obtain w1 where w1: "poller_poll answer (w\<lparr>ep_activeChannels := []\<rparr>) = Inr w1"
    "between_inv interest (ep_activeChannels w1) (w1\<lparr>ep_eventHandling := True\<rparr>)"
    using poll_between [OF assms(3,4,5)] by blast
  have post: "poller_inv interest (w2\<lparr>ep_current := None, ep_eventHandling := False\<rparr>)" if "between_inv interest [] w2" for w2
    by (rule poller_inv_cong [of interest w2]) (use that in \<open>simp_all add: between_inv_def poller_inv_def\<close>)
  show ?thesis
    unfolding loop_dispatch_def w1(1) rbind.simps refusals_def [symmetric]
    by (rule ok_or_bind [OF dispatch_all [OF assms(1,2) w1(2)]]) (simp add: post)
qed

text \<open>
  C32: a loop's life. Where the kernel gives the descriptors and accepts registrations, the
  constructor of a loop in a thread without one succeeds and watches exactly the timerfd and the
  eventfd for reading; the destructor, whatever timers are pending then, unregisters and destroys
  both channels, deletes every timer and leaves the kernel watching nothing. In a thread that has a
  loop already, the constructor is fatal.
\<close>

theorem eventLoop_life:
  assumes "epoll_spec ctl interest" "add_accepts ctl interest" "\<forall>fd. interest k fd = None"
    and "0 \<le> epollfd" "0 \<le> timerfd" "0 \<le> evtfd" "timerfd \<noteq> evtfd" "pt \<noteq> pw"
  shows "(\<exists>r. eventLoop_construct ctl loop None (epollfd, timerfd, evtfd) (pt, pw) k = Inr r \<and>
       re_loopInThisThread r = Some loop \<and>
       interest (ep_kernel (re_poller r)) = [timerfd \<mapsto> (kReadEvent, pt), evtfd \<mapsto> (kReadEvent, pw)] \<and>
       (\<forall>q. tq_inv {} q \<longrightarrow> (\<exists>r'. eventLoop_destruct ctl (r\<lparr>re_timers := q\<rparr>) = Inr r' \<and>
          re_loopInThisThread r' = None \<and> tq_heap (re_timers r') = Map.empty \<and>
          ep_chans (re_poller r') = Map.empty \<and> interest (ep_kernel (re_poller r')) = Map.empty))) \<and>
     eventLoop_construct ctl loop (Some other) (epollfd, timerfd, evtfd) (pt, pw) k = Inl FatalLog"
proof
  obtain r ct cw where r: "eventLoop_construct ctl loop None (epollfd, timerfd, evtfd) (pt, pw) k = Inr r" "reactor_inv interest r"
    "re_loopInThisThread r = Some loop" "ep_chans (re_poller r) = [pt \<mapsto> ct, pw \<mapsto> cw]" "ch_fd ct = timerfd" "ch_fd cw = evtfd"
    "ch_events ct = kReadEvent" "ch_events cw = kReadEvent" "re_connections r = []"
    using construct_ok [OF assms, of loop] by (elim exE conjE) rule
  let ?w = "re_poller r"
  have inv: "poller_inv interest ?w" using r(2) by (simp add: reactor_inv_def)
  have lk: "ep_chans ?w pt = Some ct" "ep_chans ?w pw = Some cw" using r(4) assms(8) by simp_all
  have idx: "ch_index ct = kAdded" "ch_index cw = kAdded" using r(2) lk unfolding reactor_inv_def by blast+
  then have "interest (ep_kernel ?w) timerfd = Some (kReadEvent, pt)" "interest (ep_kernel ?w) evtfd = Some (kReadEvent, pw)"
    using poller_inv_chan(1) [OF inv lk(1)] poller_inv_chan(1) [OF inv lk(2)] r(5-8) by (simp_all add: chan_inv_def)
  moreover have "interest (ep_kernel ?w) fd = None" if "fd \<noteq> timerfd" "fd \<noteq> evtfd" for fd
  proof (cases "interest (ep_kernel ?w) fd")
    case (Some e)
    obtain ev p where e: "e = (ev, p)" by fastforce
    from Some [unfolded e] obtain c where "ep_chans ?w p = Some c" "ch_fd c = fd" by (rule interest_live [OF inv])
    then show ?thesis using r(4-6) that by (auto split: if_splits)
  qed
  ultimately have i: "interest (ep_kernel ?w) = [timerfd \<mapsto> (kReadEvent, pt), evtfd \<mapsto> (kReadEvent, pw)]"
    using assms(7) by (intro ext) simp
  have "\<exists>r'. eventLoop_destruct ctl (r\<lparr>re_timers := q\<rparr>) = Inr r' \<and> re_loopInThisThread r' = None \<and>
      tq_heap (re_timers r') = Map.empty \<and> ep_chans (re_poller r') = Map.empty \<and> interest (ep_kernel (re_poller r')) = Map.empty"
    if "tq_inv {} q" for q
    using destruct_ok [OF assms(1), of "r\<lparr>re_timers := q\<rparr>"] r(2,9) that no_channels_no_interest
    by (fastforce simp: reactor_inv_def)
  with r(1,3) i show "\<exists>r. eventLoop_construct ctl loop None (epollfd, timerfd, evtfd) (pt, pw) k = Inr r \<and>
       re_loopInThisThread r = Some loop \<and>
       interest (ep_kernel (re_poller r)) = [timerfd \<mapsto> (kReadEvent, pt), evtfd \<mapsto> (kReadEvent, pw)] \<and>
       (\<forall>q. tq_inv {} q \<longrightarrow> (\<exists>r'. eventLoop_destruct ctl (r\<lparr>re_timers := q\<rparr>) = Inr r' \<and>
          re_loopInThisThread r' = None \<and> tq_heap (re_timers r') = Map.empty \<and>
          ep_chans (re_poller r') = Map.empty \<and> interest (ep_kernel (re_poller r')) = Map.empty))" by blast
  show "eventLoop_construct ctl loop (Some other) (epollfd, timerfd, evtfd) (pt, pw) k = Inl FatalLog"
    using r(1) by (auto simp: eventLoop_construct_def rbind_Inr_iff)
qed

text \<open>
  A loop that still holds connections cannot be destroyed: whatever state they are in, its
  destructor does not return.
\<close>

theorem eventLoop_open_connections:
  assumes "re_connections r \<noteq> []"
  shows "\<exists>f. eventLoop_destruct ctl r = Inl f"
proof -
  have left: "\<exists>f. connection_left c = Inl f" for c by (auto simp: connection_left_def conn_destroy_def assertm_def)
  have keep: "re_connections r2 = re_connections r1" if "timerQueue_destruct ctl r1 = Inr r2" for r1 r2
    using that by (auto simp: timerQueue_destruct_def rbind_Inr_iff)
  obtain p c cs where cs: "re_connections r = (p, c) # cs" using assms by (cases "re_connections r") auto
  show ?thesis
  proof (cases "eventLoop_destruct ctl r")
    case (Inr r')
    then show ?thesis using left [of c] cs by (auto simp: eventLoop_destruct_def rbind_Inr_iff dest!: keep)
  qed simp
qed

section \<open>Concrete runs\<close>

text \<open>A callback that takes its channel out of the loop when it may.\<close>

definition leave_script :: "'k script" where
  "leave_script p cb w =
     (case ep_chans w p of
        Some c \<Rightarrow> if ch_index c = kAdded \<and> (ep_eventHandling w \<longrightarrow> ep_current w = Some p)
                  then [EpSwitch DisableAll p, EpRemove p] else []
      | None \<Rightarrow> [])"

lemma leave_script_ok: "epoll_spec ctl interest \<Longrightarrow> script_ok ctl interest leave_script"
  unfolding script_ok_def
proof (intro allI impI)
  fix p cb w assume spec: "epoll_spec ctl interest" and inv: "poller_inv interest w"
  show "list_all callback_op (leave_script p cb w) \<and> run_legal (ep_legal interest) (ep_step ctl) (leave_script p cb w) w"
  proof (cases "leave_script p cb w = []")
    case False
    then obtain c where c: "ep_chans w p = Some c" "ch_index c = kAdded" "ep_eventHandling w \<longrightarrow> ep_current w = Some p"
      "leave_script p cb w = [EpSwitch DisableAll p, EpRemove p]"
      by (auto simp: leave_script_def split: option.splits if_splits)
    have "ch_index c = kNew \<Longrightarrow> ep_channels w (ch_fd c) = None" using c(2) by simp
    from channel_switch_ok [OF inv spec c(1) this, of DisableAll] c show ?thesis
      by (auto simp: switch_legal_def remove_legal_def isNoneEvent_def ep_frame_def split: sum.splits)
  qed simp
qed

lemma list_ctl_accepts: "add_accepts list_ctl (\<lambda>k. k)"
  by (simp add: add_accepts_def)

theorem loop_dispatch_safe_witness:
  "\<exists>w w'. open_reading list_ctl 1 7 (new_poller 0 Map.empty) = Inr w \<and>
     loop_dispatch list_ctl leave_script (\<lambda>_. True) (Inr [(POLLIN, 1)]) 5 w = Inr w' \<and> \<not> ep_eventHandling w'"
proof -
  have inv0: "poller_inv (\<lambda>k. k) (new_poller 0 Map.empty)" by (rule new_poller_inv) simp
  obtain w c where w: "open_reading list_ctl 1 7 (new_poller 0 Map.empty) = Inr w" "poller_inv (\<lambda>k. k) w"
    "ep_chans w = (ep_chans (new_poller 0 Map.empty))(1 \<mapsto> c)" "ch_fd c = 7" "ch_events c = kReadEvent" "ch_index c \<noteq> kNew"
    using open_reading_ok [OF inv0 list_ctl_spec list_ctl_accepts, of 1 7] by (auto simp: new_poller_fields)
  have ch: "ep_chans w 1 = Some c" using w(3) by simp
  have "ch_index c = kAdded" using registered_kAdded [OF w(2) ch w(6)] w(5) kReadEvent_some by (simp add: isNoneEvent_def)
  then have "ep_kernel w 7 = Some (kReadEvent, 1)" using poller_inv_chan(1) [OF w(2) ch] w(4,5) by (simp add: chan_inv_def)
  then have legal: "answer_legal (\<lambda>k. k) (Inr [(POLLIN, 1)]) w"
    using poller_inv_chan(3) [OF w(2) ch] by (auto simp: answer_legal_def)
  have "\<forall>evs. Inr [(POLLIN, 1::nat)] = (Inr evs :: int + epoll_event list) \<longrightarrow> distinct (map snd evs)" by auto
  from loop_dispatch_safe [OF list_ctl_spec leave_script_ok [OF list_ctl_spec] w(2) legal this, of "\<lambda>_. True" 5] w(1)
  show ?thesis by (simp only: list_ctl_accepts if_True ok_or_total) blast
qed

theorem eventLoop_life_witness:
  "\<exists>r r'. eventLoop_construct list_ctl 0 None (3, 4, 5) (1, 2) Map.empty = Inr r \<and>
     ep_kernel (re_poller r) = [4 \<mapsto> (kReadEvent, 1), 5 \<mapsto> (kReadEvent, 2)] \<and>
     eventLoop_destruct list_ctl (r\<lparr>re_timers := new_timer_queue\<rparr>) = Inr r' \<and> ep_kernel (re_poller r') = Map.empty"
  using eventLoop_life [OF list_ctl_spec list_ctl_accepts, of Map.empty 3 4 5 1 2 0 1] tq_good_new
  by (auto simp: tq_good_def)
end
