(* ===== verification/Sync.thy ===== *)
theory Sync
  imports Prelude
begin

text \<open>
  The primitives the threads share: \<open>AtomicIntegerT\<close> of \<open>base/Atomic.h\<close>, and the deadline of a timed
  wait of \<open>base/Condition.cc\<close>. Values are words, so that addition wraps around. Mutexes and conditions
  themselves (\<open>base/Mutex.h\<close>, \<open>base/Condition.h\<close>) only pass their calls on to \<open>pthread\<close>; the models of
  the other components rely on its contract, a critical section is one step there, and a thread that
  waits may be woken for no reason.
\<close>

section \<open>Atomic integers\<close>

text \<open>Each operation gives its result and the new value; it is one step of its thread.\<close>

definition new_atomic :: "'a::len word" where
  "new_atomic = 0"

definition atomic_get :: "'a::len word \<Rightarrow> 'a word \<times> 'a word" where
  "atomic_get v = (v, if v = 0 then 0 else v)"

definition getAndAdd :: "'a::len word \<Rightarrow> 'a word \<Rightarrow> 'a word \<times> 'a word" where
  "getAndAdd x v = (v, v + x)"

definition addAndGet :: "'a::len word \<Rightarrow> 'a word \<Rightarrow> 'a word \<times> 'a word" where
  "addAndGet x v = (let (old, v') = getAndAdd x v in (old + x, v'))"

definition incrementAndGet :: "'a::len word \<Rightarrow> 'a word \<times> 'a word" where
  "incrementAndGet v = addAndGet 1 v"

definition decrementAndGet :: "'a::len word \<Rightarrow> 'a word \<times> 'a word" where
  "decrementAndGet v = addAndGet (- 1) v"

definition atomic_add :: "'a::len word \<Rightarrow> 'a word \<Rightarrow> 'a word" where
  "atomic_add x v = snd (getAndAdd x v)"

definition atomic_increment :: "'a::len word \<Rightarrow> 'a word" where
  "atomic_increment v = snd (incrementAndGet v)"

definition atomic_decrement :: "'a::len word \<Rightarrow> 'a word" where
  "atomic_decrement v = snd (decrementAndGet v)"

definition getAndSet :: "'a::len word \<Rightarrow> 'a word \<Rightarrow> 'a word \<times> 'a word" where
  "getAndSet newValue v = (v, newValue)"

lemmas atomic_defs = new_atomic_def atomic_get_def getAndAdd_def addAndGet_def incrementAndGet_def decrementAndGet_def
  atomic_add_def atomic_increment_def atomic_decrement_def getAndSet_def

text \<open>Any threads' operations on one integer, in the order in which they take effect.\<close>

datatype 'a atomic_op =
    AGet
  | AGetAndAdd 'a
  | AAddAndGet 'a
  | AIncrement
  | ADecrement
  | AGetAndSet 'a

fun atomic_do :: "'a::len word atomic_op \<Rightarrow> 'a word \<Rightarrow> 'a word \<times> 'a word" where
  "atomic_do AGet v = atomic_get v"
| "atomic_do (AGetAndAdd x) v = getAndAdd x v"
| "atomic_do (AAddAndGet x) v = addAndGet x v"
| "atomic_do AIncrement v = incrementAndGet v"
| "atomic_do ADecrement v = decrementAndGet v"
| "atomic_do (AGetAndSet x) v = getAndSet x v"

fun atomic_run :: "'a::len word atomic_op list \<Rightarrow> 'a word \<Rightarrow> ('a word atomic_op \<times> 'a word) list" where
  "atomic_run [] v = []"
| "atomic_run (op # ops) v = (op, fst (atomic_do op v)) # atomic_run ops (snd (atomic_do op v))"

definition results_of :: "'a::len word atomic_op \<Rightarrow> 'a word atomic_op list \<Rightarrow> 'a word \<Rightarrow> 'a word list" where
  "results_of op ops v = map snd (filter (\<lambda>e. fst e = op) (atomic_run ops v))"

lemma increments_from:
  fixes ops :: "'a::len word atomic_op list"
  assumes "set ops \<subseteq> {AGet, AIncrement}"
  shows "results_of AIncrement ops (of_nat n) = map of_nat [Suc n ..< Suc (n + count_list ops AIncrement)]"
  using assms
proof (induction ops arbitrary: n)
  case (Cons op ops)
  have suc: "(of_nat n :: 'a word) + 1 = of_nat (Suc n)" by simp
  show ?case
  proof (cases "op = AGet")
    case True
    then show ?thesis using Cons.IH [of n] Cons.prems by (simp add: results_of_def atomic_get_def)
  next
    case False
    with Cons.prems have op: "op = AIncrement" by simp
    have "results_of AIncrement (op # ops) (of_nat n) = (of_nat (Suc n) :: 'a word) # results_of AIncrement ops (of_nat (Suc n))"
      unfolding suc [symmetric] by (simp add: results_of_def op incrementAndGet_def addAndGet_def getAndAdd_def)
    also have "\<dots> = map of_nat [Suc n ..< Suc (n + count_list (op # ops) AIncrement)]"
      using Cons.IH [of "Suc n"] Cons.prems op by (simp add: upt_conv_Cons del: upt_Suc of_nat_Suc)
    finally show ?thesis .
  qed
qed (simp add: results_of_def)

lemma of_nat_tickets_distinct:
  "k < 2 ^ LENGTH('a) \<Longrightarrow> distinct (map of_nat [1..<Suc k] :: 'a::len word list) \<and> 0 \<notin> set (map of_nat [1..<Suc k] :: 'a::len word list)"
proof -
  assume k: "k < 2 ^ LENGTH('a)"
  have small: "unat (of_nat i :: 'a word) = i" if "i \<in> set [1..<Suc k]" for i
  proof -
    have "i < 2 ^ LENGTH('a)" using that k by (auto simp del: upt_Suc)
    then show ?thesis by (simp add: unat_of_nat)
  qed
  then have "inj_on (of_nat :: nat \<Rightarrow> 'a word) (set [1..<Suc k])" by (metis inj_onI)
  moreover have "(of_nat i :: 'a word) \<noteq> 0" if "i \<in> set [1..<Suc k]" for i
    using small [OF that] that by (metis unat_0 atLeastLessThan_iff not_one_le_zero set_upt)
  ultimately show ?thesis by (auto simp: distinct_map)
qed

lemma sets_from:
  assumes "set ops \<subseteq> {AGetAndSet x}"
  shows "map snd (atomic_run ops v) = (if ops = [] then [] else v # replicate (length ops - 1) x)"
  using assms
proof (induction ops arbitrary: v)
  case (Cons op ops)
  then show ?case
    using Cons.IH [of x] by (cases ops) (simp_all add: getAndSet_def)
qed simp

section \<open>Timed wait\<close>

definition kNanoSecondsPerSecond :: int where
  "kNanoSecondsPerSecond = 1000000000"

text \<open>The deadline \<open>waitForSeconds\<close> computes from the clock and the interval in nanoseconds.\<close>

definition wait_deadline :: "int \<times> int \<Rightarrow> int \<Rightarrow> int \<times> int" where
  "wait_deadline now nanoseconds =
     (fst now + c_div (snd now + nanoseconds) kNanoSecondsPerSecond, c_mod (snd now + nanoseconds) kNanoSecondsPerSecond)"

section \<open>Properties\<close>

text \<open>
  Numbers drawn with \<open>incrementAndGet\<close>, whatever else reads the integer in between, are 1, 2, 3
  and so on in the order of drawing; up to the width of the integer they are distinct and not 0, so
  that the sequence numbers of timers identify them. \<open>getAndSet(1)\<close> gives 0 to exactly the first
  caller, so that what it guards runs once.
\<close>

theorem atomic_tickets:
  fixes ops sets :: "'a::len word atomic_op list"
  assumes "set ops \<subseteq> {AGet, AIncrement}" "set sets \<subseteq> {AGetAndSet 1}"
  shows "results_of AIncrement ops new_atomic = map of_nat [1..<Suc (count_list ops AIncrement)] \<and>
    (count_list ops AIncrement < 2 ^ LENGTH('a) \<longrightarrow>
       distinct (results_of AIncrement ops new_atomic) \<and> 0 \<notin> set (results_of AIncrement ops new_atomic)) \<and>
    map snd (atomic_run sets new_atomic) = (if sets = [] then [] else 0 # replicate (length sets - 1) 1)"
proof -
  have "results_of AIncrement ops new_atomic = map of_nat [1..<Suc (count_list ops AIncrement)]"
    using increments_from [OF assms(1), of 0] by (simp add: new_atomic_def)
  then show ?thesis
    using of_nat_tickets_distinct [of "count_list ops AIncrement", where 'a = 'a] sets_from [OF assms(2), of new_atomic]
    by (simp only: new_atomic_def) blast
qed

text \<open>
  For an interval that is not negative the deadline of \<open>waitForSeconds\<close> is a legal time, exactly
  that interval after now; one that reaches behind the start of the current second by a fraction
  gives nanoseconds below zero, which \<open>pthread_cond_timedwait\<close> rejects.
\<close>

theorem wait_deadline_legal:
  assumes "0 \<le> snd now" "snd now < 1000000000"
  shows "(0 \<le> ns \<longrightarrow> 0 \<le> snd (wait_deadline now ns) \<and> snd (wait_deadline now ns) < 1000000000 \<and>
       fst (wait_deadline now ns) * 1000000000 + snd (wait_deadline now ns) = fst now * 1000000000 + snd now + ns) \<and>
    (snd now + ns < 0 \<and> (snd now + ns) mod 1000000000 \<noteq> 0 \<longrightarrow> snd (wait_deadline now ns) < 0)"
proof -
  let ?B = "1000000000 :: int" and ?x = "snd now + ns"
  have pos: "0 \<le> snd (wait_deadline now ns) \<and> snd (wait_deadline now ns) < ?B \<and>
      fst (wait_deadline now ns) * ?B + snd (wait_deadline now ns) = fst now * ?B + snd now + ns" if "0 \<le> ns"
  proof -
    have "0 \<le> ?x" using that assms(1) by simp
    then have d: "wait_deadline now ns = (fst now + ?x div ?B, ?x mod ?B)"
      by (simp add: wait_deadline_def kNanoSecondsPerSecond_def c_div_nonneg c_mod_nonneg)
    have "(fst now + ?x div ?B) * ?B + ?x mod ?B = fst now * ?B + ?x"
      using div_mult_mod_eq [of ?x ?B] by (simp add: algebra_simps)
    then show ?thesis by (simp add: d)
  qed
  have neg: "snd (wait_deadline now ns) < 0" if "?x < 0" "?x mod ?B \<noteq> 0"
  proof -
    have "c_mod y ?B = - ((- y) mod ?B)" if "y < 0" for y
      using c_mod_neg [of "- y" ?B] c_mod_nonneg [of "- y" ?B] that by simp
    from this [OF that(1)] have "c_mod ?x ?B = - ((- ?x) mod ?B)" .
    moreover have "0 < (- y) mod ?B" if "y mod ?B \<noteq> 0" for y using that by (simp add: zmod_zminus1_eq_if)
    from this [OF that(2)] have "0 < (- ?x) mod ?B" .
    ultimately show ?thesis by (simp add: wait_deadline_def kNanoSecondsPerSecond_def)
  qed
  from pos neg show ?thesis by blast
qed

section \<open>Concrete runs\<close>

theorem atomic_tickets_witness:
  "results_of AIncrement [AIncrement, AGet, AIncrement] (new_atomic :: 32 word) = [1, 2] \<and>
   map snd (atomic_run [AGetAndSet 1, AGetAndSet 1] (new_atomic :: 32 word)) = [0, 1]"
  using atomic_tickets [of "[AIncrement, AGet, AIncrement]" "[AGetAndSet (1 :: 32 word), AGetAndSet 1]"] by (simp add: upt_rec)

theorem wait_deadline_legal_witness:
  "fst (wait_deadline (10, 999999999) 3000000001) * 1000000000 + snd (wait_deadline (10, 999999999) 3000000001) = 14000000000 \<and>
   snd (wait_deadline (10, 5) (- 6)) < 0"
  using wait_deadline_legal [of "(10, 999999999)" 3000000001] wait_deadline_legal [of "(10, 5)" "- 6"] by simp
end
