(* ===== verification/Sockets.thy ===== *)
theory Sockets
  imports InetAddress
begin

text \<open>
  \<open>class Socket\<close> of \<open>net/Socket.h\<close>, \<open>net/Socket.cc\<close> and the calls of \<open>net/SocketOps.cc\<close> it makes: which
  system calls they issue, in which order, and what they do with the answers. The kernel is a
  parameter that answers a call, given the calls before it and their answers. Then the listening
  sockets of a server, one per I/O thread, on one address.
\<close>

section \<open>System calls\<close>

datatype sock_option = SO_REUSEADDR | SO_REUSEPORT | SO_KEEPALIVE | TCP_NODELAY

datatype syscall =
    SysSocket nat
  | SysOpenDevNull
  | SysSetsockopt int sock_option int
  | SysBind int sockaddr_in nat
  | SysListen int
  | SysAccept4 int nat
  | SysConnect int sockaddr_in nat
  | SysShutdownWrite int
  | SysClose int
  | SysGetsockopt int
  | SysGetsockname int nat
  | SysGetpeername int nat

type_synonym sys_log = "(syscall \<times> int) list"
type_synonym kernel = "sys_log \<Rightarrow> syscall \<Rightarrow> int"

text \<open>A piece of code: the calls it adds to the log, also when it does not return.\<close>

type_synonym 'a sys = "sys_log \<Rightarrow> sys_log \<times> 'a res"

definition sys_call :: "kernel \<Rightarrow> syscall \<Rightarrow> int sys" where
  "sys_call K c log = (log @ [(c, K log c)], Inr (K log c))"

definition sys_return :: "'a \<Rightarrow> 'a sys" where
  "sys_return x log = (log, Inr x)"

definition sys_fail :: "fault \<Rightarrow> 'a sys" where
  "sys_fail e log = (log, Inl e)"

definition sys_bind :: "'a sys \<Rightarrow> ('a \<Rightarrow> 'b sys) \<Rightarrow> 'b sys" where
  "sys_bind m f log = (case m log of (log', Inl e) \<Rightarrow> (log', Inl e) | (log', Inr x) \<Rightarrow> f x log')"

lemmas sys_defs = sys_call_def sys_return_def sys_fail_def sys_bind_def

definition sizeof_sockaddr_in :: nat where "sizeof_sockaddr_in = 16"
definition sizeof_sockaddr_in6 :: nat where "sizeof_sockaddr_in6 = 28"

section \<open>socketOps\<close>

definition createNonblockingOrDie :: "kernel \<Rightarrow> nat \<Rightarrow> int sys" where
  "createNonblockingOrDie K family =
     sys_bind (sys_call K (SysSocket family)) (\<lambda>sockfd. if sockfd < 0 then sys_fail FatalLog else sys_return sockfd)"

definition bindOrDie :: "kernel \<Rightarrow> int \<Rightarrow> sockaddr_in \<Rightarrow> unit sys" where
  "bindOrDie K sockfd addr =
     sys_bind (sys_call K (SysBind sockfd addr sizeof_sockaddr_in)) (\<lambda>ret. if ret < 0 then sys_fail FatalLog else sys_return ())"

definition listenOrDie :: "kernel \<Rightarrow> int \<Rightarrow> unit sys" where
  "listenOrDie K sockfd =
     sys_bind (sys_call K (SysListen sockfd)) (\<lambda>ret. if ret < 0 then sys_fail FatalLog else sys_return ())"

definition sock_accept4 :: "kernel \<Rightarrow> int \<Rightarrow> int sys" where
  "sock_accept4 K sockfd = sys_call K (SysAccept4 sockfd sizeof_sockaddr_in)"

definition sock_connect :: "kernel \<Rightarrow> int \<Rightarrow> sockaddr_in \<Rightarrow> int sys" where
  "sock_connect K sockfd addr = sys_call K (SysConnect sockfd addr sizeof_sockaddr_in6)"

text \<open>A failure of \<open>close\<close> or \<open>shutdown\<close> is logged and otherwise ignored.\<close>

definition sock_close :: "kernel \<Rightarrow> int \<Rightarrow> unit sys" where
  "sock_close K sockfd = sys_bind (sys_call K (SysClose sockfd)) (\<lambda>_. sys_return ())"

definition sock_shutdownWrite :: "kernel \<Rightarrow> int \<Rightarrow> unit sys" where
  "sock_shutdownWrite K sockfd = sys_bind (sys_call K (SysShutdownWrite sockfd)) (\<lambda>_. sys_return ())"

text \<open>\<open>optval\<close> is what the kernel stores, \<open>errno\<close> what it reports when the call fails.\<close>

definition getSocketError :: "kernel \<Rightarrow> int \<Rightarrow> int \<Rightarrow> int \<Rightarrow> int sys" where
  "getSocketError K optval errno sockfd =
     sys_bind (sys_call K (SysGetsockopt sockfd)) (\<lambda>ret. sys_return (if ret < 0 then errno else optval))"

text \<open>An address is zeroed before the kernel may fill it in with \<open>stored\<close>.\<close>

definition getLocalAddr :: "kernel \<Rightarrow> sockaddr_in \<Rightarrow> int \<Rightarrow> sockaddr_in sys" where
  "getLocalAddr K stored sockfd =
     sys_bind (sys_call K (SysGetsockname sockfd sizeof_sockaddr_in)) (\<lambda>ret. sys_return (if ret < 0 then zero_addr else stored))"

definition getPeerAddr :: "kernel \<Rightarrow> sockaddr_in \<Rightarrow> int \<Rightarrow> sockaddr_in sys" where
  "getPeerAddr K stored sockfd =
     sys_bind (sys_call K (SysGetpeername sockfd sizeof_sockaddr_in)) (\<lambda>ret. sys_return (if ret < 0 then zero_addr else stored))"

section \<open>Socket\<close>

definition socket_destruct :: "kernel \<Rightarrow> int \<Rightarrow> unit sys" where
  "socket_destruct K sockfd = sock_close K sockfd"

definition bindAddress :: "kernel \<Rightarrow> int \<Rightarrow> sockaddr_in \<Rightarrow> unit sys" where
  "bindAddress K sockfd addr = bindOrDie K sockfd addr"

definition socket_listen :: "kernel \<Rightarrow> int \<Rightarrow> unit sys" where
  "socket_listen K sockfd = listenOrDie K sockfd"

text \<open>The peer's address is stored only when there is a connection.\<close>

definition socket_accept :: "kernel \<Rightarrow> sockaddr_in \<Rightarrow> int \<Rightarrow> sockaddr_in \<Rightarrow> (int \<times> sockaddr_in) sys" where
  "socket_accept K stored sockfd peeraddr =
     sys_bind (sock_accept4 K sockfd) (\<lambda>connfd. sys_return (connfd, if 0 \<le> connfd then stored else peeraddr))"

definition set_option :: "kernel \<Rightarrow> int \<Rightarrow> sock_option \<Rightarrow> bool \<Rightarrow> unit sys" where
  "set_option K sockfd opt on =
     sys_bind (sys_call K (SysSetsockopt sockfd opt (if on then 1 else 0))) (\<lambda>_. sys_return ())"

definition setReuseAddr :: "kernel \<Rightarrow> int \<Rightarrow> bool \<Rightarrow> unit sys" where
  "setReuseAddr K sockfd on = set_option K sockfd SO_REUSEADDR on"

definition setReusePort :: "kernel \<Rightarrow> int \<Rightarrow> bool \<Rightarrow> unit sys" where
  "setReusePort K sockfd on = set_option K sockfd SO_REUSEPORT on"

definition socket_shutdownWrite :: "kernel \<Rightarrow> int \<Rightarrow> unit sys" where
  "socket_shutdownWrite K sockfd = sock_shutdownWrite K sockfd"

definition setTcpNoDelay :: "kernel \<Rightarrow> int \<Rightarrow> bool \<Rightarrow> unit sys" where
  "setTcpNoDelay K sockfd on = set_option K sockfd TCP_NODELAY on"

definition setKeepAlive :: "kernel \<Rightarrow> int \<Rightarrow> bool \<Rightarrow> unit sys" where
  "setKeepAlive K sockfd on = set_option K sockfd SO_KEEPALIVE on"

lemmas socket_defs = createNonblockingOrDie_def bindOrDie_def listenOrDie_def sock_close_def bindAddress_def socket_listen_def
  set_option_def setReuseAddr_def setReusePort_def socket_destruct_def

section \<open>Listening sockets\<close>

text \<open>The calls of the constructor of an acceptor, and those of its \<open>listen\<close>.\<close>

definition acceptor_socket :: "kernel \<Rightarrow> sockaddr_in \<Rightarrow> bool \<Rightarrow> int sys" where
  "acceptor_socket K addr reuseport =
     sys_bind (createNonblockingOrDie K (sin_family addr)) (\<lambda>sockfd.
     sys_bind (sys_call K SysOpenDevNull) (\<lambda>idleFd.
     if idleFd < 0 then sys_fail AssertFailed
     else sys_bind (setReuseAddr K sockfd True) (\<lambda>_.
          sys_bind (setReusePort K sockfd reuseport) (\<lambda>_.
          sys_bind (bindAddress K sockfd addr) (\<lambda>_. sys_return sockfd)))))"

text \<open>\<open>TcpServer::start\<close> makes one for every loop; \<open>listen\<close> is left to the loops.\<close>

fun server_sockets :: "kernel \<Rightarrow> sockaddr_in \<Rightarrow> bool \<Rightarrow> nat \<Rightarrow> int list sys" where
  "server_sockets K addr reuseport 0 = sys_return []"
| "server_sockets K addr reuseport (Suc n) =
     sys_bind (acceptor_socket K addr reuseport) (\<lambda>fd.
     sys_bind (server_sockets K addr reuseport n) (\<lambda>fds. sys_return (fd # fds)))"

section \<open>The kernel's side\<close>

text \<open>There was a call of one kind and none of another kind after it.\<close>

definition since :: "(syscall \<times> int \<Rightarrow> bool) \<Rightarrow> (syscall \<times> int \<Rightarrow> bool) \<Rightarrow> sys_log \<Rightarrow> bool" where
  "since P Q log \<longleftrightarrow> (\<exists>pre e post. log = pre @ e # post \<and> P e \<and> (\<forall>x \<in> set post. \<not> Q x))"

definition fd_open :: "sys_log \<Rightarrow> int \<Rightarrow> bool" where
  "fd_open log fd = since (\<lambda>(c, r). r = fd \<and> (c = SysOpenDevNull \<or> (\<exists>f. c = SysSocket f))) (\<lambda>(c, r). c = SysClose fd) log"

definition fd_bound :: "sys_log \<Rightarrow> int \<Rightarrow> sockaddr_in \<Rightarrow> bool" where
  "fd_bound log fd addr = since (\<lambda>(c, r). 0 \<le> r \<and> (\<exists>len. c = SysBind fd addr len)) (\<lambda>(c, r). c = SysClose fd) log"

definition fd_listening :: "sys_log \<Rightarrow> int \<Rightarrow> bool" where
  "fd_listening log fd = since (\<lambda>(c, r). 0 \<le> r \<and> c = SysListen fd) (\<lambda>(c, r). c = SysClose fd) log"

definition fd_reuseport :: "sys_log \<Rightarrow> int \<Rightarrow> bool" where
  "fd_reuseport log fd = since (\<lambda>(c, r). 0 \<le> r \<and> c = SysSetsockopt fd SO_REUSEPORT 1)
     (\<lambda>(c, r). c = SysClose fd \<or> 0 \<le> r \<and> (\<exists>v. c = SysSetsockopt fd SO_REUSEPORT v)) log"

text \<open>
  What is used of \<open>socket(7)\<close>, \<open>socket(2)\<close> and \<open>bind(2)\<close>, for a server whose address is one of the host's
  and not in use by another process, and which does not run out of descriptors. \<open>SO_REUSEPORT\<close> \<open>permits
  multiple sockets to be bound to an identical socket address\<close> when it is set on each of them, the
  first one included. With \<open>SO_REUSEADDR\<close> alone \<open>a socket may bind, except when there is an active
  listening socket bound to the address\<close>: what is used is the exception; about sockets that are
  bound and do not listen nothing is assumed. Port 0 stands for a free port and is left out. A new descriptor is one that is not open.
\<close>

definition kernel_spec :: "kernel \<Rightarrow> sockaddr_in \<Rightarrow> bool" where
  "kernel_spec K addr \<longleftrightarrow>
     sin_port addr \<noteq> 0 \<and>
     (\<forall>log fd. fd_reuseport log fd \<longrightarrow>
        (\<forall>fd' addr'. fd_bound log fd' addr' \<and> sin_port addr' = sin_port addr \<longrightarrow> fd_reuseport log fd') \<longrightarrow>
        0 \<le> K log (SysBind fd addr sizeof_sockaddr_in)) \<and>
     (\<forall>log fd fd'. fd_bound log fd' addr \<and> fd_listening log fd' \<and> \<not> fd_reuseport log fd \<longrightarrow>
        K log (SysBind fd addr sizeof_sockaddr_in) < 0) \<and>
     (\<forall>log family. 0 \<le> K log (SysSocket family) \<and> \<not> fd_open log (K log (SysSocket family))) \<and>
     (\<forall>log. 0 \<le> K log SysOpenDevNull \<and> \<not> fd_open log (K log SysOpenDevNull)) \<and>
     (\<forall>log fd opt v. fd_open log fd \<longrightarrow> 0 \<le> K log (SysSetsockopt fd opt v))"

section \<open>Lemmas\<close>

lemma since_empty [simp]: "\<not> since P Q []"
  by (simp add: since_def)

lemma since_snoc: "since P Q (log @ [e]) \<longleftrightarrow> P e \<or> since P Q log \<and> \<not> Q e"
proof
  assume "since P Q (log @ [e])"
  then obtain pre x post where d: "log @ [e] = pre @ x # post" "P x" "\<forall>y \<in> set post. \<not> Q y" unfolding since_def by blast
  show "P e \<or> since P Q log \<and> \<not> Q e"
  proof (cases post rule: rev_cases)
    case (snoc post' y)
    then have "log = pre @ x # post'" "y = e" using d(1) by auto
    moreover have "\<not> Q e" "\<forall>y \<in> set post'. \<not> Q y" using d(3) snoc \<open>y = e\<close> by auto
    ultimately show ?thesis unfolding since_def using d(2) by blast
  qed (use d in auto)
next
  assume "P e \<or> since P Q log \<and> \<not> Q e"
  then show "since P Q (log @ [e])"
  proof
    assume "P e"
    then show ?thesis unfolding since_def by (intro exI [of _ log] exI [of _ e] exI [of _ "[]"]) simp
  next
    assume "since P Q log \<and> \<not> Q e"
    then obtain pre x post where "log = pre @ x # post" "P x" "\<forall>y \<in> set post. \<not> Q y" "\<not> Q e" unfolding since_def by blast
    then show ?thesis unfolding since_def by (intro exI [of _ pre] exI [of _ x] exI [of _ "post @ [e]"]) auto
  qed
qed

text \<open>The log after each call, one call at a time.\<close>

lemma fd_snoc:
  "fd_open (log @ [(c, r)]) fd \<longleftrightarrow> r = fd \<and> (c = SysOpenDevNull \<or> (\<exists>f. c = SysSocket f)) \<or> fd_open log fd \<and> c \<noteq> SysClose fd"
  "fd_bound (log @ [(c, r)]) fd addr \<longleftrightarrow> 0 \<le> r \<and> (\<exists>len. c = SysBind fd addr len) \<or> fd_bound log fd addr \<and> c \<noteq> SysClose fd"
  "fd_listening (log @ [(c, r)]) fd \<longleftrightarrow> 0 \<le> r \<and> c = SysListen fd \<or> fd_listening log fd \<and> c \<noteq> SysClose fd"
  "fd_reuseport (log @ [(c, r)]) fd \<longleftrightarrow> 0 \<le> r \<and> c = SysSetsockopt fd SO_REUSEPORT 1 \<or>
     fd_reuseport log fd \<and> c \<noteq> SysClose fd \<and> \<not> (0 \<le> r \<and> (\<exists>v. c = SysSetsockopt fd SO_REUSEPORT v))"
  by (auto simp: fd_open_def fd_bound_def fd_listening_def fd_reuseport_def since_snoc)

lemma fd_none: "\<not> fd_open [] fd" "\<not> fd_bound [] fd addr" "\<not> fd_listening [] fd" "\<not> fd_reuseport [] fd"
  by (simp_all add: fd_open_def fd_bound_def fd_listening_def fd_reuseport_def)

definition acceptor_log :: "kernel \<Rightarrow> sockaddr_in \<Rightarrow> bool \<Rightarrow> sys_log \<Rightarrow> sys_log" where
  "acceptor_log K addr reuseport log =
     (let fd = K log (SysSocket (sin_family addr));
          l1 = log @ [(SysSocket (sin_family addr), fd)];
          l2 = l1 @ [(SysOpenDevNull, K l1 SysOpenDevNull)];
          l3 = l2 @ [(SysSetsockopt fd SO_REUSEADDR 1, K l2 (SysSetsockopt fd SO_REUSEADDR 1))]
      in l3 @ [(SysSetsockopt fd SO_REUSEPORT (if reuseport then 1 else 0), K l3 (SysSetsockopt fd SO_REUSEPORT (if reuseport then 1 else 0)))])"

text \<open>With the descriptors there, everything depends on \<open>bind\<close>.\<close>

lemma acceptor_socket_eq:
  assumes "kernel_spec K addr"
  defines "bind \<equiv> \<lambda>log. SysBind (K log (SysSocket (sin_family addr))) addr sizeof_sockaddr_in"
  shows "acceptor_socket K addr reuseport log =
    (let l = acceptor_log K addr reuseport log; r = K l (bind log)
     in (l @ [(bind log, r)], if r < 0 then Inl FatalLog else Inr (K log (SysSocket (sin_family addr)))))"
proof -
  have "\<not> K l (SysSocket f) < 0" "\<not> K l SysOpenDevNull < 0" for l f using assms(1) by (simp_all add: kernel_spec_def not_less)
  then show ?thesis
    by (simp add: acceptor_socket_def socket_defs sys_defs acceptor_log_def bind_def Let_def)
qed

lemma acceptor_log_facts:
  assumes K: "kernel_spec K addr"
  defines "fd \<equiv> \<lambda>log. K log (SysSocket (sin_family addr))"
  shows "fd_bound (acceptor_log K addr reuseport log) = fd_bound log"
    and "fd_listening (acceptor_log K addr reuseport log) = fd_listening log"
    and "fd_open log fd' \<Longrightarrow> fd_open (acceptor_log K addr reuseport log) fd'"
    and "fd_open (acceptor_log K addr reuseport log) (fd log)"
    and "fd' \<noteq> fd log \<Longrightarrow> fd_reuseport (acceptor_log K addr reuseport log) fd' = fd_reuseport log fd'"
    and "fd_reuseport (acceptor_log K addr True log) (fd log)"
    and "\<not> fd_reuseport (acceptor_log K addr False log) (fd log)"
    and "\<not> fd_open log (fd log)"
proof -
  have ok: "fd_open l f \<Longrightarrow> 0 \<le> K l (SysSetsockopt f opt v)" for l f opt v using K unfolding kernel_spec_def by blast
  show "\<not> fd_open log (fd log)" using K by (simp add: kernel_spec_def fd_def)
  show "fd_bound (acceptor_log K addr reuseport log) = fd_bound log"
    "fd_listening (acceptor_log K addr reuseport log) = fd_listening log"
    by (auto simp: fun_eq_iff acceptor_log_def Let_def fd_snoc simp del: append_assoc)
  show "fd_open (acceptor_log K addr reuseport log) fd'" if "fd_open log fd'" 
    using that by (simp add: acceptor_log_def Let_def fd_snoc del: append_assoc)
  show "fd_open (acceptor_log K addr reuseport log) (fd log)" by (simp add: acceptor_log_def Let_def fd_snoc fd_def del: append_assoc)
  show "fd_reuseport (acceptor_log K addr reuseport log) fd' = fd_reuseport log fd'" if "fd' \<noteq> fd log"
    using that by (auto simp: acceptor_log_def Let_def fd_snoc fd_def simp del: append_assoc)
  show "fd_reuseport (acceptor_log K addr True log) (fd log)" "\<not> fd_reuseport (acceptor_log K addr False log) (fd log)"
    by (auto simp: acceptor_log_def Let_def fd_snoc fd_def ok simp del: append_assoc)
qed

text \<open>All sockets bound to the server's port are open and have \<open>SO_REUSEPORT\<close>.\<close>

definition port_shared :: "sockaddr_in \<Rightarrow> sys_log \<Rightarrow> bool" where
  "port_shared addr log \<longleftrightarrow>
     (\<forall>fd addr'. fd_bound log fd addr' \<longrightarrow> sin_port addr' = sin_port addr \<longrightarrow> fd_open log fd \<and> fd_reuseport log fd)"

lemma acceptor_shares:
  assumes K: "kernel_spec K addr" and all: "port_shared addr log"
  shows "\<exists>log' fd. acceptor_socket K addr True log = (log', Inr fd) \<and> \<not> fd_bound log fd addr \<and> fd_bound log' fd addr \<and>
    (\<forall>fd. fd_bound log fd addr \<longrightarrow> fd_bound log' fd addr) \<and> port_shared addr log'"
proof -
  let ?fd = "K log (SysSocket (sin_family addr))" and ?l = "acceptor_log K addr True log"
  let ?b = "SysBind ?fd addr sizeof_sockaddr_in"
  note f = acceptor_log_facts [OF K, where log = log]
  have new: "\<not> fd_bound log ?fd a" if "sin_port a = sin_port addr" for a using f(8) all that unfolding port_shared_def by blast
  have on: "fd_reuseport ?l fd' \<and> fd_open ?l fd'" if "fd_bound log fd' a" "sin_port a = sin_port addr" for fd' a
    using f(3,5) new that all unfolding port_shared_def by metis
  then have r: "0 \<le> K ?l ?b" using K f(1,6) unfolding kernel_spec_def by metis
  have "port_shared addr (?l @ [(?b, K ?l ?b)])"
    using on f(1,4,6) by (auto simp: port_shared_def fd_snoc)
  with r new [OF refl] f(1) show ?thesis
    by (simp add: acceptor_socket_eq [OF K] Let_def not_less) (auto simp: fd_snoc)
qed

lemma server_sockets_share:
  assumes K: "kernel_spec K addr"
  shows "port_shared addr log \<Longrightarrow>
    \<exists>log' fds. server_sockets K addr True n log = (log', Inr fds) \<and> length fds = n \<and> distinct fds \<and>
      (\<forall>fd \<in> set fds. \<not> fd_bound log fd addr \<and> fd_bound log' fd addr) \<and> (\<forall>fd. fd_bound log fd addr \<longrightarrow> fd_bound log' fd addr)"
proof (induction n arbitrary: log)
  case 0
  then show ?case by (simp add: sys_return_def)
next
  case (Suc n)
  obtain log1 fd where s: "acceptor_socket K addr True log = (log1, Inr fd)" "\<not> fd_bound log fd addr" "fd_bound log1 fd addr"
    "\<forall>fd. fd_bound log fd addr \<longrightarrow> fd_bound log1 fd addr" "port_shared addr log1"
    using acceptor_shares [OF K Suc.prems] by (elim exE conjE) rule
  obtain log2 fds where t: "server_sockets K addr True n log1 = (log2, Inr fds)" "length fds = n" "distinct fds"
    "\<forall>fd \<in> set fds. \<not> fd_bound log1 fd addr \<and> fd_bound log2 fd addr" "\<forall>fd. fd_bound log1 fd addr \<longrightarrow> fd_bound log2 fd addr"
    using Suc.IH [OF s(5)] by (elim exE conjE) rule
  then show ?case using s by (auto simp: sys_bind_def sys_return_def)
qed

lemma acceptor_refused:
  assumes K: "kernel_spec K addr" and l: "fd_bound log fd addr" "fd_listening log fd"
  shows "\<exists>log'. acceptor_socket K addr False log = (log', Inl FatalLog)"
proof -
  let ?l = "acceptor_log K addr False log"
  have "fd_bound ?l fd addr \<and> fd_listening ?l fd \<and> \<not> fd_reuseport ?l (K log (SysSocket (sin_family addr)))"
    using acceptor_log_facts(1,2,7) [OF K, where log = log] l by metis
  then have "K ?l (SysBind (K log (SysSocket (sin_family addr))) addr sizeof_sockaddr_in) < 0" using K unfolding kernel_spec_def by blast
  then show ?thesis by (simp add: acceptor_socket_eq [OF K] Let_def)
qed

section \<open>Properties\<close>


text \<open>
  The calls of an acceptor's constructor, for any kernel: the socket, the reserve descriptor, the
  two options, then \<open>bind\<close>; a failure of one of the first two or of \<open>bind\<close> is the last call made, the
  answers to the options are ignored, and a descriptor is returned only after a successful \<open>bind\<close>.
\<close>

theorem acceptor_socket_calls:
  fixes K :: kernel and addr :: sockaddr_in
  defines "calls \<equiv> \<lambda>fd reuse. [SysSocket (sin_family addr), SysOpenDevNull, SysSetsockopt fd SO_REUSEADDR 1,
     SysSetsockopt fd SO_REUSEPORT (if reuse then 1 else 0), SysBind fd addr sizeof_sockaddr_in]"
  shows "\<exists>fd k. map fst (fst (acceptor_socket K addr reuse [])) = take k (calls fd reuse) \<and>
    (case snd (acceptor_socket K addr reuse []) of
       Inr fd' \<Rightarrow> k = 5 \<and> fd' = fd \<and> 0 \<le> fd \<and> 0 \<le> snd (last (fst (acceptor_socket K addr reuse [])))
     | Inl e \<Rightarrow> (k = 1 \<and> e = FatalLog \<or> k = 2 \<and> e = AssertFailed \<or> k = 5 \<and> e = FatalLog) \<and>
         snd (last (fst (acceptor_socket K addr reuse []))) < 0)"
proof -
  let ?fd = "K [] (SysSocket (sin_family addr))"
  let ?l1 = "[(SysSocket (sin_family addr), ?fd)]"
  let ?k = "if ?fd < 0 then 1 else if K ?l1 SysOpenDevNull < 0 then 2 else (5::nat)"
  show ?thesis
    by (rule exI [of _ ?fd], rule exI [of _ ?k])
      (simp add: acceptor_socket_def socket_defs sys_defs calls_def)
qed

section \<open>Concrete runs\<close>

text \<open>A kernel with the documented behaviour.\<close>

definition sample_kernel :: kernel where
  "sample_kernel log c =
     (case c of
        SysSocket f \<Rightarrow> 1 + (\<Sum>e \<leftarrow> log. \<bar>snd e\<bar>)
      | SysOpenDevNull \<Rightarrow> 1 + (\<Sum>e \<leftarrow> log. \<bar>snd e\<bar>)
      | SysBind fd addr len \<Rightarrow>
          if (\<forall>fd' addr'. fd_bound log fd' addr' \<and> sin_port addr' = sin_port addr \<longrightarrow> fd_reuseport log fd \<and> fd_reuseport log fd') then 0 else - 1
      | _ \<Rightarrow> 0)"

lemma fd_open_bounded: "fd_open log fd \<Longrightarrow> \<bar>fd\<bar> \<le> (\<Sum>e \<leftarrow> log. \<bar>snd e\<bar>)"
proof (induction log rule: rev_induct)
  case (snoc e log)
  have "0 \<le> (\<Sum>e \<leftarrow> log. \<bar>snd e\<bar>)" by (intro sum_list_nonneg) auto
  then show ?case using snoc by (cases e) (auto simp: fd_snoc)
qed (simp add: fd_none)

lemma sample_kernel_spec:
  assumes "sin_port addr \<noteq> 0"
  shows "kernel_spec sample_kernel addr"
proof -
  have pos: "0 \<le> (\<Sum>e \<leftarrow> log. \<bar>snd e\<bar>)" for log :: sys_log by (intro sum_list_nonneg) auto
  have "\<not> fd_open log (1 + (\<Sum>e \<leftarrow> log. \<bar>snd e\<bar>))" for log
    using fd_open_bounded [of log "1 + (\<Sum>e \<leftarrow> log. \<bar>snd e\<bar>)"] pos [of log] by auto
  with pos assms show ?thesis by (auto simp: kernel_spec_def sample_kernel_def add_nonneg_nonneg)
qed


end
