(* ===== verification/LogPipeline.thy ===== *)
theory LogPipeline
  imports Logging AsyncLogging
begin

text \<open>
  Logging as a whole program uses it: log statements of several threads, each with its own
  thread-local data, the global level and output function of \<open>base/Logging.cc\<close>, and behind them
  either the standard output or the asynchronous log. A statement takes several steps: it reads the
  global level and builds its line from the thread's own data; at its end it reads the global output
  function and hands the line over in one critical section; a fatal one then flushes and aborts.
  Steps of other threads and of the logging thread come in between in any order. The specification
  is a text to which every enabled statement adds one line when it ends.
\<close>

section \<open>State and operations\<close>

datatype log_output = DefaultOutput | AsyncOutput

text \<open>
  \<open>lw_out\<close> is what the standard output was given, \<open>lw_outFlushed\<close> how much of it was flushed, and
  \<open>lw_open\<close> are the statements begun and not yet over: one whose line is built, with whether it is a
  fatal one; a fatal one whose line was handed over; and one that has flushed the output as well.
\<close>

datatype log_stage = LineBuilt string bool | LineGiven | Flushed

record log_world =
  g_logLevel :: LogLevel
  g_output :: log_output
  lw_tls :: "nat \<Rightarrow> log_tls"
  lw_async :: async_log
  lw_out :: string
  lw_outFlushed :: nat
  lw_open :: "log_stage list"
  lw_ended :: bool

definition new_log_world :: "async_log \<Rightarrow> log_world" where
  "new_log_world a = \<lparr>g_logLevel = INFO, g_output = DefaultOutput, lw_tls = (\<lambda>_. new_tls), lw_async = a, lw_out = [],
     lw_outFlushed = 0, lw_open = [], lw_ended = False\<rparr>"

definition setLogLevel :: "LogLevel \<Rightarrow> log_world \<Rightarrow> log_world" where
  "setLogLevel level w = w\<lparr>g_logLevel := level\<rparr>"

definition setOutput :: "log_output \<Rightarrow> log_world \<Rightarrow> log_world" where
  "setOutput out w = w\<lparr>g_output := out\<rparr>"

text \<open>\<open>P n\<close> is what \<open>fwrite\<close> takes of \<open>n\<close> bytes; what it does not take is dropped.\<close>

definition defaultOutput :: "(nat \<Rightarrow> nat) \<Rightarrow> string \<Rightarrow> log_world \<Rightarrow> log_world" where
  "defaultOutput P msg w = w\<lparr>lw_out := lw_out w @ take (P (length msg)) msg\<rparr>"

definition defaultFlush :: "log_world \<Rightarrow> log_world" where
  "defaultFlush w = w\<lparr>lw_outFlushed := length (lw_out w)\<rparr>"

definition log_out :: "(nat \<Rightarrow> nat) \<Rightarrow> string \<Rightarrow> string \<Rightarrow> log_world \<Rightarrow> log_world res" where
  "log_out P junk msg w =
     (case g_output w of
        DefaultOutput \<Rightarrow> Inr (defaultOutput P msg w)
      | AsyncOutput \<Rightarrow> rbind (async_append junk msg (lw_async w)) (\<lambda>a. Inr (w\<lparr>lw_async := a\<rparr>)))"

text \<open>
  The macro and the statement up to the destructor of the temporary \<open>Logger\<close>, on a buffer on the
  stack; then the destructor, from the call of the output function on.
\<close>

datatype statement = Statement (st_thread: nat) (st_kind: log_kind) (st_path: string) (st_line: int) (st_time: Timestamp) (st_body: "stream_op list")

definition log_begin :: "(nat \<Rightarrow> logger_env) \<Rightarrow> string \<Rightarrow> statement \<Rightarrow> log_world \<Rightarrow> log_world res" where
  "log_begin G stack st w =
     (let t = st_thread st in
      if log_enabled (g_logLevel w) (st_kind st)
      then rbind (log_statement (G t) (st_kind st) (st_path st) (st_line st) (st_time st) (st_body st) (lw_tls w t)
                    (new_fixed_buffer stack)) (\<lambda>(out, fatal, tls').
           Inr (w\<lparr>lw_tls := (lw_tls w)(t := tls'), lw_open := lw_open w @ [LineBuilt out fatal]\<rparr>))
      else Inr w)"

definition log_next :: "(nat \<Rightarrow> nat) \<Rightarrow> string \<Rightarrow> nat \<Rightarrow> log_world \<Rightarrow> log_world res" where
  "log_next P junk i w =
     (case lw_open w ! i of
        LineBuilt line fatal \<Rightarrow>
          rbind (log_out P junk line w) (\<lambda>w1.
          Inr (w1\<lparr>lw_open := if fatal then (lw_open w1)[i := LineGiven] else remove_nth i (lw_open w1)\<rparr>))
      | LineGiven \<Rightarrow> Inr ((defaultFlush w)\<lparr>lw_open := (lw_open w)[i := Flushed]\<rparr>)
      | Flushed \<Rightarrow> Inr (w\<lparr>lw_ended := True\<rparr>))"

datatype log_op =
    LogBegin statement
  | LogNext nat
  | SetLevel LogLevel
  | SetOutput log_output
  | Background async_op

fun log_step :: "(nat \<Rightarrow> logger_env) \<Rightarrow> log_env \<Rightarrow> (nat \<Rightarrow> nat) \<Rightarrow> string \<Rightarrow> string \<Rightarrow> log_op \<Rightarrow> log_world \<Rightarrow> log_world res" where
  "log_step G E P stack junk (LogBegin st) w = (if lw_ended w then Inr w else log_begin G stack st w)"
| "log_step G E P stack junk (LogNext i) w = (if lw_ended w then Inr w else log_next P junk i w)"
| "log_step G E P stack junk (SetLevel level) w = (if lw_ended w then Inr w else Inr (setLogLevel level w))"
| "log_step G E P stack junk (SetOutput out) w = (if lw_ended w then Inr w else Inr (setOutput out w))"
| "log_step G E P stack junk (Background op) w =
     (if lw_ended w then Inr w
      else rbind (async_step E junk op (lw_async w)) (\<lambda>a. Inr (w\<lparr>lw_async := a\<rparr>)))"

section \<open>Specification\<close>

record log_spec_state =
  ls_level :: LogLevel
  ls_output :: log_output
  ls_async :: string
  ls_stdout :: string
  ls_flushed :: nat
  ls_open :: "log_stage list"
  ls_ended :: bool

definition log_view :: "log_world \<Rightarrow> log_spec_state" where
  "log_view w = \<lparr>ls_level = g_logLevel w, ls_output = g_output w, ls_async = logged (lw_async w), ls_stdout = lw_out w,
     ls_flushed = lw_outFlushed w, ls_open = lw_open w, ls_ended = lw_ended w\<rparr>"

text \<open>The line of a statement, whatever the thread logged before.\<close>

definition statement_line :: "(nat \<Rightarrow> logger_env) \<Rightarrow> statement \<Rightarrow> string" where
  "statement_line G st =
     log_header (G (st_thread st)) (st_kind st) (st_time st) @ concat (map stream_text (st_body st)) @
     log_footer (sourceFile (st_path st)) (st_line st)"

definition add_line :: "string \<Rightarrow> log_spec_state \<Rightarrow> log_spec_state" where
  "add_line line s =
     (case ls_output s of
        DefaultOutput \<Rightarrow> s\<lparr>ls_stdout := ls_stdout s @ line\<rparr>
      | AsyncOutput \<Rightarrow> s\<lparr>ls_async := ls_async s @ line\<rparr>)"

fun log_spec :: "(nat \<Rightarrow> logger_env) \<Rightarrow> log_op \<Rightarrow> log_spec_state \<Rightarrow> log_spec_state" where
  "log_spec G (LogBegin st) s =
     (if ls_ended s \<or> \<not> log_enabled (ls_level s) (st_kind st) then s
      else s\<lparr>ls_open := ls_open s @ [LineBuilt (statement_line G st) (kind_level (st_kind st) = FATAL)]\<rparr>)"
| "log_spec G (LogNext i) s =
     (if ls_ended s then s
      else case ls_open s ! i of
        LineBuilt line fatal \<Rightarrow>
          (add_line line s)\<lparr>ls_open := if fatal then (ls_open s)[i := LineGiven] else remove_nth i (ls_open s)\<rparr>
      | LineGiven \<Rightarrow> s\<lparr>ls_flushed := length (ls_stdout s), ls_open := (ls_open s)[i := Flushed]\<rparr>
      | Flushed \<Rightarrow> s\<lparr>ls_ended := True\<rparr>)"
| "log_spec G (SetLevel level) s = (if ls_ended s then s else s\<lparr>ls_level := level\<rparr>)"
| "log_spec G (SetOutput out) s = (if ls_ended s then s else s\<lparr>ls_output := out\<rparr>)"
| "log_spec G (Background op) s = s"

text \<open>
  Statements have room for their line in a \<open>LogStream\<close> and a time after the first second of the
  epoch; the asynchronous log is started once, stopped once, and keeps up.
\<close>

definition statement_ok :: "(nat \<Rightarrow> logger_env) \<Rightarrow> statement \<Rightarrow> bool" where
  "statement_ok G st \<longleftrightarrow>
     1000000 \<le> st_time st \<and> kind_ok (G (st_thread st)) (st_kind st) \<and> 0 \<le> st_line st \<and> st_line st < 2 ^ 31 \<and>
     list_all stream_op_ok (st_body st) \<and>
     length (log_header (G (st_thread st)) (st_kind st) (st_time st)) + sum_list (map stream_room (st_body st)) +
       length (sourceFile (st_path st)) + 50 \<le> kSmallBuffer"

fun log_legal :: "(nat \<Rightarrow> logger_env) \<Rightarrow> log_op \<Rightarrow> log_world \<Rightarrow> bool" where
  "log_legal G (LogBegin st) w = statement_ok G st"
| "log_legal G (LogNext i) w = (i < length (lw_open w))"
| "log_legal G (Background op) w =
     ((case op of LogAppend _ \<Rightarrow> False | _ \<Rightarrow> True) \<and> async_legal op (lw_async w) \<and> keeps_up op (lw_async w))"
| "log_legal G _ w = True"

text \<open>The surroundings: thread ids, dates, files and the standard output work.\<close>

definition log_setting :: "(nat \<Rightarrow> logger_env) \<Rightarrow> log_env \<Rightarrow> (nat \<Rightarrow> nat) \<Rightarrow> string \<Rightarrow> string \<Rightarrow> bool" where
  "log_setting G E P stack junk \<longleftrightarrow>
     (\<forall>t. logger_env_ok (G t)) \<and> env_writes E \<and> (\<forall>n. n \<le> P n) \<and> length stack = kSmallBuffer \<and> kSmallBuffer \<le> length junk"

fun stage_ok :: "log_stage \<Rightarrow> bool" where
  "stage_ok (LineBuilt line fatal) = (length line < kSmallBuffer)"
| "stage_ok _ = True"

definition log_world_ok :: "(nat \<Rightarrow> logger_env) \<Rightarrow> nat \<Rightarrow> log_world \<Rightarrow> bool" where
  "log_world_ok G cap w \<longleftrightarrow> (\<forall>t. tls_ok (G t) (lw_tls w t)) \<and> async_ok cap (lw_async w) \<and> list_all stage_ok (lw_open w)"

definition new_log_view :: log_spec_state where
  "new_log_view = \<lparr>ls_level = INFO, ls_output = DefaultOutput, ls_async = [], ls_stdout = [], ls_flushed = 0, ls_open = [], ls_ended = False\<rparr>"

section \<open>Lemmas\<close>

lemma statement_result:
  assumes "log_setting G E P stack junk" "statement_ok G st" "tls_ok (G (st_thread st)) tls"
  shows "\<exists>tls'. log_statement (G (st_thread st)) (st_kind st) (st_path st) (st_line st) (st_time st) (st_body st) tls
      (new_fixed_buffer stack) = Inr (statement_line G st, kind_level (st_kind st) = FATAL, tls') \<and>
    tls_ok (G (st_thread st)) tls' \<and> length (statement_line G st) < kSmallBuffer"
proof -
  have "holds [] (new_fixed_buffer stack)"
    using assms(1) by (simp add: log_setting_def holds_def fb_ok_def new_fixed_buffer_def fb_toString_def fb_length_def kSmallBuffer_def)
  then show ?thesis
    unfolding statement_line_def using assms
    by (intro log_statement_ok) (auto simp: log_setting_def statement_ok_def list_all_iff)
qed

lemma log_out_ok:
  assumes "log_setting G E P stack junk" "log_world_ok G (length junk) w" "length line < kSmallBuffer"
  shows "\<exists>w'. log_out P junk line w = Inr w' \<and> log_world_ok G (length junk) w' \<and> log_view w' = add_line line (log_view w) \<and>
    lw_open w' = lw_open w"
proof (cases "g_output w")
  case DefaultOutput
  then show ?thesis
    using assms by (simp add: log_out_def defaultOutput_def log_view_def add_line_def log_world_ok_def log_setting_def)
next
  case AsyncOutput
  have cap: "0 < length junk" using assms(1) by (auto simp: log_setting_def kSmallBuffer_def)
  have small: "length line < length junk" using assms(1,3) by (simp add: log_setting_def)
  obtain a where "async_append junk line (lw_async w) = Inr a" "async_ok (length junk) a" "logged a = logged (lw_async w) @ line"
    using async_step_ok [OF _ refl cap, of E "lw_async w" "LogAppend line"] assms(1,2) small
    by (auto simp: log_setting_def log_world_ok_def)
  then show ?thesis
    using assms(2) AsyncOutput by (simp add: log_out_def log_view_def add_line_def log_world_ok_def)
qed

lemma log_begin_ok:
  assumes S: "log_setting G E P stack junk" and ok: "log_world_ok G (length junk) w" and st: "statement_ok G st" and run: "\<not> lw_ended w"
  shows "\<exists>w'. log_begin G stack st w = Inr w' \<and> log_world_ok G (length junk) w' \<and> log_view w' = log_spec G (LogBegin st) (log_view w)"
proof (cases "log_enabled (g_logLevel w) (st_kind st)")
  case True
  let ?t = "st_thread st"
  obtain tls' where tls': "log_statement (G ?t) (st_kind st) (st_path st) (st_line st) (st_time st) (st_body st) (lw_tls w ?t)
      (new_fixed_buffer stack) = Inr (statement_line G st, kind_level (st_kind st) = FATAL, tls')" "tls_ok (G ?t) tls'"
      "length (statement_line G st) < kSmallBuffer"
    using statement_result [OF S st, of "lw_tls w ?t"] ok by (auto simp: log_world_ok_def)
  then show ?thesis using ok True run by (simp add: log_begin_def Let_def log_world_ok_def log_view_def)
qed (use ok in \<open>simp add: log_begin_def Let_def log_view_def\<close>)

lemma log_next_ok:
  assumes S: "log_setting G E P stack junk" and ok: "log_world_ok G (length junk) w" and i: "i < length (lw_open w)" and run: "\<not> lw_ended w"
  shows "\<exists>w'. log_next P junk i w = Inr w' \<and> log_world_ok G (length junk) w' \<and> log_view w' = log_spec G (LogNext i) (log_view w)"
proof (cases "lw_open w ! i")
  case (LineBuilt line fatal)
  have "list_all stage_ok (lw_open w)" using ok by (simp add: log_world_ok_def)
  then have stages: "length line < kSmallBuffer" "list_all stage_ok (remove_nth i (lw_open w))" "list_all stage_ok ((lw_open w)[i := LineGiven])"
    using i LineBuilt by (auto simp: list_all_remove_nth) (auto simp: list_all_length nth_list_update)
  obtain w1 where w1: "log_out P junk line w = Inr w1" "log_world_ok G (length junk) w1"
      "log_view w1 = add_line line (log_view w)" "lw_open w1 = lw_open w"
    using log_out_ok [OF S ok stages(1)] by blast
  define w' where "w' = w1\<lparr>lw_open := if fatal then (lw_open w1)[i := LineGiven] else remove_nth i (lw_open w1)\<rparr>"
  have "log_world_ok G (length junk) w'" using w1(2,4) stages by (simp add: w'_def log_world_ok_def)
  moreover have "log_view w' = log_spec G (LogNext i) (log_view w)"
  proof -
    have "log_view w' = (log_view w1)\<lparr>ls_open := if fatal then (lw_open w)[i := LineGiven] else remove_nth i (lw_open w)\<rparr>"
      by (simp add: w'_def log_view_def w1(4))
    then show ?thesis unfolding w1(3) using run LineBuilt by (simp add: log_view_def)
  qed
  ultimately show ?thesis using w1(1) LineBuilt by (simp add: log_next_def w'_def)
next
  case LineGiven
  have "list_all stage_ok ((lw_open w)[i := Flushed])"
    using ok i by (auto simp: log_world_ok_def list_all_length nth_list_update)
  then show ?thesis using ok run LineGiven by (simp add: log_next_def defaultFlush_def log_world_ok_def log_view_def)
next
  case Flushed
  then show ?thesis using ok run by (simp add: log_next_def log_world_ok_def log_view_def)
qed

lemma log_step_ok:
  assumes "log_setting G E P stack junk" "log_world_ok G (length junk) w" "log_legal G op w"
  shows "\<exists>w'. log_step G E P stack junk op w = Inr w' \<and> log_world_ok G (length junk) w' \<and> log_view w' = log_spec G op (log_view w)"
proof (cases op)
  case (LogBegin st)
  then show ?thesis using log_begin_ok [OF assms(1,2), of st] assms(2,3) by (cases "lw_ended w") (auto simp: log_view_def)
next
  case (LogNext i)
  then show ?thesis using log_next_ok [OF assms(1,2), of i] assms(2,3) by (cases "lw_ended w") (auto simp: log_view_def)
next
  case (Background aop)
  have cap: "0 < length junk" using assms(1) by (auto simp: log_setting_def kSmallBuffer_def)
  have "op_line (length junk) aop = []" using assms(3) Background by (cases aop) auto
  then obtain a where "async_step E junk aop (lw_async w) = Inr a" "async_ok (length junk) a" "logged a = logged (lw_async w)"
    using async_step_ok [OF _ refl cap, of E "lw_async w" aop] assms Background by (auto simp: log_setting_def log_world_ok_def)
  then show ?thesis using assms(2) by (simp add: Background log_world_ok_def log_view_def)
qed (use assms(2) in \<open>simp_all add: setLogLevel_def setOutput_def log_world_ok_def log_view_def\<close>)

interpretation lpm: refining_machine "log_step G E P stack junk" "\<lambda>op w. log_setting G E P stack junk \<and> log_legal G op w"
  "log_world_ok G (length junk)" "{}" log_view "log_spec G"
  for G E P stack junk
proof unfold_locales
  fix op w assume "log_world_ok G (length junk) w" "log_setting G E P stack junk \<and> log_legal G op w"
  then obtain w' where w': "log_step G E P stack junk op w = Inr w'" "log_world_ok G (length junk) w'" "log_view w' = log_spec G op (log_view w)"
    using log_step_ok [of G E P stack junk w op] by blast
  then show "ok_or {} (log_world_ok G (length junk)) (log_step G E P stack junk op w)" by simp
  show "log_view w'' = log_spec G op (log_view w)" if "log_step G E P stack junk op w = Inr w''" for w'' using that w' by simp
qed

lemma new_log_world_ok:
  assumes "log_setting G E P stack junk"
  shows "log_world_ok G (length junk) (new_log_world (new_async junk basename rollSize fi))"
    and "log_view (new_log_world (new_async junk basename rollSize fi)) =
      new_log_view"
proof -
  have cap: "0 < length junk" using assms by (auto simp: log_setting_def kSmallBuffer_def)
  note n = new_async_ok [OF refl cap, of basename rollSize fi]
  show "log_world_ok G (length junk) (new_log_world (new_async junk basename rollSize fi))"
    using n(1) new_tls_ok by (simp add: log_world_ok_def new_log_world_def)
  show "log_view (new_log_world (new_async junk basename rollSize fi)) =
      new_log_view"
    using n(2) by (simp add: log_view_def new_log_view_def new_log_world_def)
qed

lemma log_run_legal:
  "log_setting G E P stack junk \<Longrightarrow> run_legal (log_legal G) (log_step G E P stack junk) ops w \<Longrightarrow>
     run_legal (\<lambda>op w. log_setting G E P stack junk \<and> log_legal G op w) (log_step G E P stack junk) ops w"
  by (rule run_legal_conj)

lemma async_append_output: "async_append junk line a = Inr a' \<Longrightarrow> al_output a' = al_output a"
  by (auto simp: async_append_def Let_def rbind_Inr_iff split: if_splits option.splits)

lemma log_begin_async: "log_begin G stack st w = Inr w' \<Longrightarrow> lw_async w' = lw_async w"
  by (auto simp: log_begin_def Let_def rbind_Inr_iff split: if_splits)

lemma log_next_kept: "log_next P junk i w = Inr w' \<Longrightarrow> kept_text (lw_async w') = kept_text (lw_async w)"
  by (auto simp: log_next_def log_out_def defaultOutput_def defaultFlush_def rbind_Inr_iff kept_text_def
      dest!: async_append_output split: log_stage.splits log_output.splits)

section \<open>Properties\<close>

text \<open>
  C13: the log of a program is the text of its statements. However the steps of the statements of
  several threads, changes of level and output, and the steps of the logging thread interleave, as
  long as the logging thread keeps up (no more than 25 buffers wait for it when it swaps them) and
  lines fit their buffer, nothing fails. A statement logs when the level in force when it began
  enables it; its line, with the time, thread, level, message and place of the statement, goes to
  the output in force when it ended: in the order in which the statements ended the lines are
  appended to standard output, or are in the files followed by what the buffers still hold. The
  process ends when a fatal statement has handed its line over and flushed the standard output.
\<close>

theorem log_pipeline_refines:
  assumes "log_setting G E P stack junk"
    and "run_legal (log_legal G) (log_step G E P stack junk) ops (new_log_world (new_async junk basename rollSize fi))"
  shows "\<exists>w. rfold (log_step G E P stack junk) ops (new_log_world (new_async junk basename rollSize fi)) = Inr w \<and>
    log_view w = fold (log_spec G) ops
      new_log_view \<and>
    (al_pc (lw_async w) \<noteq> AtWrite \<longrightarrow> kept_text (lw_async w) = file_text (lw_async w))"
proof -
  note n = new_log_world_ok [OF assms(1), of basename rollSize fi]
  from lpm.run_refines_total [OF refl n(1) log_run_legal [OF assms]]
  show ?thesis using n(2) async_ok_kept by (auto simp: log_world_ok_def)
qed

text \<open>
  A fatal statement ends the process with its line flushed when the output is the default one.
  With the asynchronous log as output the line is lost: it is only in the buffers when the process
  aborts, and so is everything else that was not yet written.
\<close>

theorem fatal_line_lost:
  assumes S: "log_setting G E P stack junk"
    and legal: "run_legal (log_legal G) (log_step G E P stack junk) ops (new_log_world (new_async junk basename rollSize fi))"
    and w: "rfold (log_step G E P stack junk) ops (new_log_world (new_async junk basename rollSize fi)) = Inr w" "\<not> lw_ended w"
    and st: "statement_ok G st" "kind_level (st_kind st) = FATAL" and n: "n = length (lw_open w)"
  shows "\<exists>w'. rfold (log_step G E P stack junk) [LogBegin st, LogNext n, LogNext n, LogNext n] w = Inr w' \<and> lw_ended w' \<and>
    (case g_output w of
       DefaultOutput \<Rightarrow> take (lw_outFlushed w') (lw_out w') = lw_out w @ statement_line G st
     | AsyncOutput \<Rightarrow> logged (lw_async w') = logged (lw_async w) @ statement_line G st \<and>
         kept_text (lw_async w') = kept_text (lw_async w))"
proof -
  let ?line = "statement_line G st"
  have ok: "log_world_ok G (length junk) w"
    using lpm.run_reaches_inv [OF new_log_world_ok(1) [OF S] log_run_legal [OF S legal] w(1)] .
  have en: "log_enabled (g_logLevel w) (st_kind st)" using st(2) by (simp add: log_enabled_def)
  obtain w1 where w1: "log_begin G stack st w = Inr w1" "log_world_ok G (length junk) w1" "log_view w1 = log_spec G (LogBegin st) (log_view w)"
    using log_begin_ok [OF S ok st(1) w(2)] by blast
  have v1: "log_view w1 = (log_view w)\<lparr>ls_open := lw_open w @ [LineBuilt ?line True]\<rparr>"
    using w1(3) en w(2) st(2) by (simp add: log_view_def)
  then have o1: "lw_open w1 = lw_open w @ [LineBuilt ?line True]" "\<not> lw_ended w1" using w(2) by (simp_all add: log_view_def)
  obtain w2 where w2: "log_next P junk n w1 = Inr w2" "log_world_ok G (length junk) w2" "log_view w2 = log_spec G (LogNext n) (log_view w1)"
    using log_next_ok [OF S w1(2), of n] o1 n by auto
  have v2: "log_view w2 = (add_line ?line (log_view w1))\<lparr>ls_open := lw_open w @ [LineGiven]\<rparr>"
    using w2(3) o1 n by (simp add: log_view_def list_update_append)
  then have o2: "lw_open w2 = lw_open w @ [LineGiven]" "\<not> lw_ended w2"
    using o1(2) by (auto simp: log_view_def add_line_def split: log_output.splits)
  define w' where "w' = (defaultFlush w2)\<lparr>lw_open := lw_open w @ [Flushed], lw_ended := True\<rparr>"
  have "rfold (log_step G E P stack junk) [LogBegin st, LogNext n, LogNext n, LogNext n] w = Inr w'"
    using w(2) w1(1) w2(1) o1 o2 n by (simp add: w'_def log_next_def defaultFlush_def list_update_append)
  moreover have "kept_text (lw_async w2) = kept_text (lw_async w)"
    using log_next_kept [OF w2(1)] log_begin_async [OF w1(1)] by simp
  ultimately show ?thesis
    using v2 v1 by (auto simp: w'_def defaultFlush_def log_view_def add_line_def split: log_output.splits)
qed

section \<open>Concrete runs\<close>

text \<open>Two threads, 42 and 43; a statement below the level, one of each thread, and a fatal one.\<close>

definition sample_threads :: "nat \<Rightarrow> logger_env" where
  "sample_threads t = sample_logger_env\<lparr>lg_gettid := if t = 0 then 42 else 43\<rparr>"

definition sample_stack :: string where
  "sample_stack = replicate kSmallBuffer (CHR 0x00)"

definition sample_debug :: statement where
  "sample_debug = Statement 0 (LogFunc DEBUG ''main'') ''net/a.cc'' 6 5000001 [StreamCstr (Some ''no'')]"

definition sample_warn :: statement where
  "sample_warn = Statement 1 (LogPlain WARN) ''net/a.cc'' 7 5000003 [StreamCstr (Some ''hi''), StreamInteger 12]"

definition sample_fatal :: statement where
  "sample_fatal = Statement 0 (LogPlain FATAL) ''b.cc'' 8 5000009 []"

definition sample_log_run :: "log_op list" where
  "sample_log_run = [Background LogStart, SetOutput AsyncOutput, LogBegin sample_debug, LogBegin sample_warn, SetLevel FATAL, LogNext 0]"

lemma sample_setting: "log_setting sample_threads slow_env (\<lambda>n. n) sample_stack sample_stack"
  unfolding log_setting_def using slow_env_writes
  by (simp add: logger_env_ok_def sample_threads_def sample_logger_env_def tm_ok_def sample_stack_def)

lemma sample_headers:
  "log_header (sample_threads 0) (LogFunc DEBUG ''main'') 5000001 = ''20210607 08:09:10.000001Z    42 DEBUG main ''"
  "log_header (sample_threads 1) (LogPlain WARN) 5000003 = ''20210607 08:09:10.000003Z    43 WARN  ''"
  "log_header (sample_threads 0) (LogPlain FATAL) 5000009 = ''20210607 08:09:10.000009Z    42 FATAL ''"
  by code_simp+

lemma sample_paths: "sourceFile ''net/a.cc'' = ''a.cc''" "sourceFile ''b.cc'' = ''b.cc''"
  by code_simp+

lemma sample_statements: "statement_ok sample_threads sample_debug" "statement_ok sample_threads sample_warn" "statement_ok sample_threads sample_fatal"
  by (simp_all only: statement_ok_def sample_debug_def sample_warn_def sample_fatal_def statement.sel sample_headers sample_paths)
    (simp_all add: kind_ok_def sample_threads_def sample_logger_env_def kSmallBuffer_def)

lemma sample_warn_line:
  "statement_line sample_threads sample_warn = ''20210607 08:09:10.000003Z    43 WARN  hi12 - a.cc:7'' @ [CHR 0x0A]"
  by code_simp

abbreviation sample_log_step :: "log_op \<Rightarrow> log_world \<Rightarrow> log_world res" where
  "sample_log_step \<equiv> log_step sample_threads slow_env (\<lambda>n. n) sample_stack sample_stack"

abbreviation sample_log_world :: log_world where
  "sample_log_world \<equiv> new_log_world (new_async sample_stack ''log'' 100 3)"

lemma sample_log_begun:
  "run_legal (log_legal sample_threads) sample_log_step (butlast sample_log_run) sample_log_world"
  using sample_statements by (simp add: sample_log_run_def new_log_world_def new_async_def split: sum.split)

lemma sample_log_legal: "run_legal (log_legal sample_threads) sample_log_step sample_log_run sample_log_world"
proof -
  note n = new_log_world_ok [OF sample_setting, of "''log''" 100 3]
  from lpm.run_refines_total [OF refl n(1) log_run_legal [OF sample_setting sample_log_begun]] obtain w where
    w: "rfold sample_log_step (butlast sample_log_run) sample_log_world = Inr w"
    "log_view w = fold (log_spec sample_threads) (butlast sample_log_run) new_log_view"
    using n(2) by auto
  have "ls_open (log_view w) = [LineBuilt (statement_line sample_threads sample_warn) False]"
    unfolding w(2) by (simp add: sample_log_run_def sample_debug_def sample_warn_def log_enabled_def new_log_view_def)
  then have "log_legal sample_threads (LogNext 0) w" by (simp add: log_view_def)
  moreover have "sample_log_run = butlast sample_log_run @ [LogNext 0]" by (simp add: sample_log_run_def)
  ultimately show ?thesis
    using sample_log_begun w(1) run_legal_append [of "log_legal sample_threads" sample_log_step "butlast sample_log_run" "[LogNext 0]" sample_log_world]
    by (simp del: log_step.simps split: sum.split)
qed

theorem log_pipeline_refines_witness:
  "\<exists>w. rfold sample_log_step sample_log_run
      sample_log_world = Inr w \<and>
    logged (lw_async w) = ''20210607 08:09:10.000003Z    43 WARN  hi12 - a.cc:7'' @ [CHR 0x0A]"
proof -
  from log_pipeline_refines [OF sample_setting sample_log_legal] obtain w where
    w: "rfold sample_log_step sample_log_run
      sample_log_world = Inr w"
    "log_view w = fold (log_spec sample_threads) sample_log_run
      new_log_view"
    by blast
  have "ls_async (fold (log_spec sample_threads) sample_log_run
      new_log_view) =
      statement_line sample_threads sample_warn"
    by (simp add: sample_log_run_def sample_debug_def sample_warn_def log_enabled_def add_line_def new_log_view_def)
  then have "logged (lw_async w) = statement_line sample_threads sample_warn"
    unfolding w(2) [symmetric] by (simp add: log_view_def)
  with w(1) sample_warn_line show ?thesis by simp
qed

theorem fatal_line_lost_witness:
  "\<exists>w w'. rfold sample_log_step sample_log_run
      sample_log_world = Inr w \<and>
    rfold sample_log_step [LogBegin sample_fatal, LogNext 0, LogNext 0, LogNext 0] w = Inr w' \<and> lw_ended w' \<and>
    kept_text (lw_async w') = kept_text (lw_async w) \<and> logged (lw_async w') \<noteq> logged (lw_async w)"
proof -
  note n = new_log_world_ok [OF sample_setting, of "''log''" 100 3]
  from lpm.run_refines_total [OF refl n(1) log_run_legal [OF sample_setting sample_log_legal]] obtain w where
    w: "rfold sample_log_step sample_log_run
      sample_log_world = Inr w"
    "log_view w = fold (log_spec sample_threads) sample_log_run
      new_log_view"
    using n(2) by auto
  have "\<not> ls_ended (log_view w) \<and> ls_output (log_view w) = AsyncOutput \<and> ls_open (log_view w) = []"
    unfolding w(2) by (simp add: sample_log_run_def sample_debug_def sample_warn_def log_enabled_def add_line_def new_log_view_def remove_nth_def)
  then have v: "\<not> lw_ended w" "g_output w = AsyncOutput" "0 = length (lw_open w)" by (simp_all add: log_view_def)
  have "kind_level (st_kind sample_fatal) = FATAL" by (simp add: sample_fatal_def)
  from fatal_line_lost [OF sample_setting sample_log_legal w(1) v(1) sample_statements(3) this v(3)]
  have "\<exists>w'. rfold sample_log_step [LogBegin sample_fatal, LogNext 0, LogNext 0, LogNext 0] w = Inr w' \<and> lw_ended w' \<and>
     logged (lw_async w') = logged (lw_async w) @ statement_line sample_threads sample_fatal \<and> kept_text (lw_async w') = kept_text (lw_async w)"
    by (simp add: v(2))
  moreover have "statement_line sample_threads sample_fatal \<noteq> []" by (simp add: statement_line_def log_footer_def)
  ultimately show ?thesis using w(1) by auto
qed

end
