(* ===== verification/ConnLife.thy ===== *)
theory ConnLife
  imports TcpConnection
begin

text \<open>
  The life of a connection across threads. The server's close callback goes from the I/O loop to the
  main loop (\<open>TcpServer::removeConnection\<close>), from there back to the I/O loop
  (\<open>removeConnectionInLoop\<close>), which runs \<open>connectDestroyed\<close>. On the way the connection is owned by
  shared pointers: the loop's map, functors that were bound to one, the batches of functors being run
  (a batch is freed as a whole at its end), and user code. Functors that other threads queue for
  \<open>send\<close>, \<open>shutdown\<close>, \<open>startRead\<close> and \<open>stopRead\<close> are bound to the bare \<open>this\<close> and own nothing. The
  object is destroyed when the last owner goes.
\<close>

section \<open>State\<close>

text \<open>
  \<open>c_tasks\<close> are the functors of this connection pending in the I/O loop, \<open>cl_batch\<close> the rest of the
  batch it runs and \<open>cl_held\<close> the owners in that batch; \<open>cl_main\<close>, \<open>cl_mainLeft\<close> and \<open>cl_mainHeld\<close> are
  the same for the functors \<open>removeConnectionInLoop\<close> of the main loop; \<open>cl_users\<close> counts the pointers
  of user code and \<open>cl_calls\<close> are its calls of \<open>send\<close> and \<open>shutdown\<close> on other threads that have found the
  connection connected: what such a call does next is queue the data, set the state, or queue the
  shutdown.
\<close>

datatype user_call = SendPost string | ShutdownSet | ShutdownPost

record conn_life = conn +
  cl_batch :: "conn_task list"
  cl_held :: nat
  cl_main :: nat
  cl_mainLeft :: nat
  cl_mainHeld :: nat
  cl_users :: nat
  cl_calls :: "user_call list"
  cl_freed :: bool

fun strong_task :: "conn_task \<Rightarrow> bool" where
  "strong_task TaskWriteComplete = True"
| "strong_task (TaskHighWaterMark n) = True"
| "strong_task TaskConnectDestroyed = True"
| "strong_task _ = False"

definition strong :: "conn_task list \<Rightarrow> nat" where
  "strong ts = length (filter strong_task ts)"

definition owners :: "conn_life \<Rightarrow> nat" where
  "owners s = (if c_inLoop s then 1 else 0) + strong (c_tasks s) + cl_held s + cl_main s + cl_mainHeld s + cl_users s"

section \<open>Operations\<close>

text \<open>
  The destructor of the connection and then of its channel. The poller has the channel in its map from
  the first \<open>Channel::update\<close> to \<open>Channel::remove\<close>, the two calls that set and clear
  \<open>addedToLoop_\<close> (the theory \<open>Epoller\<close> keeps the map itself); the test of the map is made only on the
  thread of the I/O loop.
\<close>

definition life_hasChannel :: "conn_life \<Rightarrow> bool" where
  "life_hasChannel s = ch_addedToLoop (c_chan s)"

definition life_destruct :: "bool \<Rightarrow> conn_life \<Rightarrow> conn_life res" where
  "life_destruct inLoop s =
     rbind (conn_destroy s) (\<lambda>_.
     assertm (\<not> ch_eventHandling (c_chan s))
     (assertm (\<not> ch_addedToLoop (c_chan s))
     (if inLoop then assertm (\<not> life_hasChannel s) (Inr (s\<lparr>cl_freed := True\<rparr>)) else Inr (s\<lparr>cl_freed := True\<rparr>))))"

text \<open>A pointer that goes away may be the last.\<close>

definition life_release :: "bool \<Rightarrow> conn_life \<Rightarrow> conn_life res" where
  "life_release inLoop s = (if owners s = 0 \<and> \<not> cl_freed s then life_destruct inLoop s else Inr s)"

definition life_use :: "(conn_life \<Rightarrow> conn_life res) \<Rightarrow> conn_life \<Rightarrow> conn_life res" where
  "life_use f s = (if cl_freed s then Inl UseAfterFree else f s)"

text \<open>
  The close callback runs on the thread of the I/O loop. \<open>runInLoop\<close> of the main loop calls the functor
  at once when the two loops are one (\<open>oneLoop\<close>) and queues it otherwise.
\<close>

definition server_removeConnection :: "bool \<Rightarrow> conn_life \<Rightarrow> conn_life res" where
  "server_removeConnection oneLoop s = (if oneLoop then removeConnectionInLoop s else Inr (s\<lparr>cl_main := cl_main s + 1\<rparr>))"

definition life_cbs :: "bool \<Rightarrow> (Timestamp \<Rightarrow> conn_life \<Rightarrow> conn_life res) \<Rightarrow> (conn_life \<Rightarrow> conn_life res) \<Rightarrow> conn_life conn_cbs" where
  "life_cbs oneLoop msg con = \<lparr>on_message = msg, on_close = server_removeConnection oneLoop, on_connection = con\<rparr>"

text \<open>\<open>newConnection\<close>: its local pointer is the only one until \<open>connectEstablished\<close> enters the map.\<close>

definition life_start :: "nat \<Rightarrow> conn_life conn_cbs \<Rightarrow> bool \<Rightarrow> int \<Rightarrow> conn_life res" where
  "life_start loop cbs writeComplete sockfd =
     rbind (new_connection loop sockfd writeComplete) (\<lambda>c.
     rbind (connectEstablished cbs (conn.extend c (conn_life.fields [] 0 0 0 0 0 [] False))) (life_release True))"

datatype life_op =
    LEvent event_mask readv_fun "nat \<Rightarrow> io_result" Timestamp
  | LSwap
  | LTask io_result
  | LEnd
  | MSwap
  | MTask
  | MEnd
  | UTake
  | UDrop
  | UStartRead
  | UStopRead
  | USend string
  | UShutdown
  | UCall nat

text \<open>
  User code on other threads. \<open>send\<close> and \<open>shutdown\<close> first test the state, which another thread may change
  before they go on; \<open>startRead\<close> and \<open>stopRead\<close> queue their functor at once.
\<close>

definition shutdown_tail :: "'a conn_scheme \<Rightarrow> 'a conn_scheme" where
  "shutdown_tail s = queue_task TaskShutdown (setState kDisconnecting s)"

definition user_test :: "user_call \<Rightarrow> conn_life \<Rightarrow> conn_life" where
  "user_test call s = (if c_state s = kConnected then s\<lparr>cl_calls := cl_calls s @ [call]\<rparr> else s)"

definition user_next :: "nat \<Rightarrow> conn_life \<Rightarrow> conn_life" where
  "user_next i s =
     (case cl_calls s ! i of
        SendPost data \<Rightarrow> queue_task (TaskSend data) (s\<lparr>cl_calls := remove_nth i (cl_calls s)\<rparr>)
      | ShutdownSet \<Rightarrow> setState kDisconnecting (s\<lparr>cl_calls := (cl_calls s)[i := ShutdownPost]\<rparr>)
      | ShutdownPost \<Rightarrow> queue_task TaskShutdown (s\<lparr>cl_calls := remove_nth i (cl_calls s)\<rparr>))"

text \<open>
  Events and functors of the I/O loop, functors of the main loop, and user code on other threads,
  which copies and drops pointers and makes its calls.
\<close>

fun life_step :: "conn_life conn_cbs \<Rightarrow> life_op \<Rightarrow> conn_life \<Rightarrow> conn_life res" where
  "life_step cbs (LEvent revt readv wr t) s =
     life_use (\<lambda>s. rbind (conn_handleEvent cbs readv wr True t (s\<lparr>c_chan := set_revents revt (c_chan s)\<rparr>)) (life_release True)) s"
| "life_step cbs LSwap s = Inr (s\<lparr>cl_batch := c_tasks s, cl_held := strong (c_tasks s), c_tasks := []\<rparr>)"
| "life_step cbs (LTask wr) s =
     (case cl_batch s of [] \<Rightarrow> Inr s | t # ts \<Rightarrow> life_use (run_task cbs wr t) (s\<lparr>cl_batch := ts\<rparr>))"
| "life_step cbs LEnd s = life_release True (s\<lparr>cl_held := 0\<rparr>)"
| "life_step cbs MSwap s = Inr (s\<lparr>cl_mainLeft := cl_main s, cl_mainHeld := cl_main s, cl_main := 0\<rparr>)"
| "life_step cbs MTask s =
     (if cl_mainLeft s = 0 then Inr s else life_use removeConnectionInLoop (s\<lparr>cl_mainLeft := cl_mainLeft s - 1\<rparr>))"
| "life_step cbs MEnd s = life_release False (s\<lparr>cl_mainHeld := 0\<rparr>)"
| "life_step cbs UTake s = life_use (\<lambda>s. Inr (s\<lparr>cl_users := cl_users s + 1\<rparr>)) s"
| "life_step cbs UDrop s = life_release False (s\<lparr>cl_users := cl_users s - 1\<rparr>)"
| "life_step cbs UStartRead s = life_use (\<lambda>s. Inr (startRead False s)) s"
| "life_step cbs UStopRead s = life_use (\<lambda>s. Inr (stopRead False s)) s"
| "life_step cbs (USend data) s = life_use (\<lambda>s. Inr (user_test (SendPost data) s)) s"
| "life_step cbs UShutdown s = life_use (\<lambda>s. Inr (user_test ShutdownSet s)) s"
| "life_step cbs (UCall i) s = life_use (\<lambda>s. Inr (user_next i s)) s"

text \<open>
  What is asked of the surroundings: the kernel keeps its contracts, each loop takes its functors in
  batches, user code has a pointer when it makes a call, until the call is over, and does not drop its last one while
  a functor with the bare \<open>this\<close> is on its way; reading is not switched on or off from other threads;
  and the connection is not closed between the test and the assignment of the state in \<open>shutdown\<close> on
  another thread. The last three are not enforced by the code: what happens without them is shown below.
\<close>

fun life_legal :: "life_op \<Rightarrow> conn_life \<Rightarrow> bool" where
  "life_legal (LEvent revt readv wr t) s \<longleftrightarrow>
     open_state s \<and> readv_spec readv \<and> (\<forall>n. write_spec n (wr n)) \<and> \<not> hup_and_read revt"
| "life_legal LSwap s \<longleftrightarrow> cl_batch s = [] \<and> cl_held s = 0"
| "life_legal (LTask wr) s \<longleftrightarrow> (case cl_batch s of TaskSend data # ts \<Rightarrow> write_spec (length data) wr | _ \<Rightarrow> True)"
| "life_legal LEnd s \<longleftrightarrow> cl_batch s = []"
| "life_legal MSwap s \<longleftrightarrow> cl_mainLeft s = 0 \<and> cl_mainHeld s = 0"
| "life_legal MTask s \<longleftrightarrow> True"
| "life_legal MEnd s \<longleftrightarrow> cl_mainLeft s = 0"
| "life_legal UTake s \<longleftrightarrow> open_state s \<or> 0 < cl_users s"
| "life_legal UDrop s \<longleftrightarrow>
     1 < cl_users s \<or> cl_users s = 1 \<and> cl_calls s = [] \<and> list_all strong_task (c_tasks s @ cl_batch s)"
| "life_legal UStartRead s \<longleftrightarrow> False"
| "life_legal UStopRead s \<longleftrightarrow> False"
| "life_legal (USend data) s \<longleftrightarrow> 0 < cl_users s \<and> length data \<le> vec_max"
| "life_legal UShutdown s \<longleftrightarrow> 0 < cl_users s"
| "life_legal (UCall i) s \<longleftrightarrow> i < length (cl_calls s) \<and> (cl_calls s ! i = ShutdownSet \<longrightarrow> open_state s)"

section \<open>Invariant\<close>

text \<open>The functors on their way, and the hops of the destruction still to come.\<close>

definition coming :: "conn_life \<Rightarrow> conn_task list" where
  "coming s = c_tasks s @ cl_batch s"

definition destroys :: "conn_life \<Rightarrow> nat" where
  "destroys s = count_list (coming s) TaskConnectDestroyed + cl_main s + cl_mainLeft s"

fun task_fits :: "StateE \<Rightarrow> conn_task \<Rightarrow> bool" where
  "task_fits st (TaskSend data) = (length data \<le> vec_max)"
| "task_fits st TaskShutdown = (st = kDisconnecting \<or> st = kDisconnected)"
| "task_fits st TaskStartRead = False"
| "task_fits st TaskStopRead = False"
| "task_fits st _ = True"

fun call_fits :: "StateE \<Rightarrow> user_call \<Rightarrow> bool" where
  "call_fits st (SendPost data) = (length data \<le> vec_max)"
| "call_fits st ShutdownSet = True"
| "call_fits st ShutdownPost = (st = kDisconnecting \<or> st = kDisconnected)"

definition life_ok :: "conn_life \<Rightarrow> bool" where
  "life_ok s \<longleftrightarrow> conn_inv s \<and> c_state s \<noteq> kConnecting \<and> (open_state s \<longrightarrow> c_inLoop s) \<and>
     (\<not> c_inLoop s \<longrightarrow> \<not> ch_addedToLoop (c_chan s)) \<and>
     destroys s = (if c_state s = kDisconnected \<and> c_inLoop s then 1 else 0) \<and>
     list_all (task_fits (c_state s)) (coming s) \<and> list_all (call_fits (c_state s)) (cl_calls s) \<and>
     strong (cl_batch s) \<le> cl_held s \<and> cl_mainLeft s \<le> cl_mainHeld s \<and>
     (0 < cl_users s \<or> list_all strong_task (coming s) \<and> cl_calls s = [])"

text \<open>User callbacks run on the I/O loop: they keep the connection consistent and do not close it.\<close>

definition life_cb_ok :: "(conn_life \<Rightarrow> conn_life res) \<Rightarrow> bool" where
  "life_cb_ok f \<longleftrightarrow> (\<forall>s. life_ok s \<longrightarrow> open_state s \<longrightarrow> \<not> cl_freed s \<longrightarrow>
     ok_or {LengthError} (\<lambda>s'. life_ok s' \<and> conn_frame s s' \<and> open_state s' \<and> \<not> cl_freed s' \<and>
        ch_eventHandling (c_chan s') = ch_eventHandling (c_chan s)) (f s))"

definition life_inv :: "conn_life \<Rightarrow> bool" where
  "life_inv s \<longleftrightarrow> life_ok s \<and> \<not> ch_eventHandling (c_chan s) \<and> (cl_freed s \<longleftrightarrow> owners s = 0)"


section \<open>Lemmas\<close>

lemma strong_append [simp]: "strong [] = 0" "strong (xs @ ys) = strong xs + strong ys"
  by (simp_all add: strong_def)

lemma count_list_append: "count_list (xs @ ys) x = count_list xs x + count_list ys x"
  by (induction xs) auto

text \<open>What a handler of the connection leaves alone: everything that is not the connection's own.\<close>

definition life_same :: "conn_life \<Rightarrow> conn_life \<Rightarrow> bool" where
  "life_same s s' \<longleftrightarrow> conn.more s' = conn.more s \<and> ch_eventHandling (c_chan s') = ch_eventHandling (c_chan s)"

lemma life_same_fields:
  assumes "life_same s s'"
  shows "cl_batch s' = cl_batch s" "cl_held s' = cl_held s" "cl_main s' = cl_main s" "cl_mainLeft s' = cl_mainLeft s"
    "cl_mainHeld s' = cl_mainHeld s" "cl_users s' = cl_users s" "cl_freed s' = cl_freed s" "cl_calls s' = cl_calls s"
    "ch_eventHandling (c_chan s') = ch_eventHandling (c_chan s)"
  using assms by (cases s; cases s'; simp add: life_same_def)+

lemma conn_switch_life: "conn.more (conn_switch sw s) = conn.more s" "ch_eventHandling (c_chan (conn_switch sw s)) = ch_eventHandling (c_chan s)"
  "conn.more (queue_task t s) = conn.more s"
  by (simp_all add: conn_switch_def queue_task_def)

lemma sendInLoop_life: "sendInLoop wr data s = Inr s' \<Longrightarrow> life_same s s'"
  by (drule sendInLoop_outcome) (simp add: life_same_def)

lemma wrote_all_life: "conn.more (wrote_all s) = conn.more s" "ch_eventHandling (c_chan (wrote_all s)) = ch_eventHandling (c_chan s)"
  by (simp_all add: wrote_all_def Let_def shutdownInLoop_def conn_switch_life)

lemma handleWrite_life: "handleWrite wr s = Inr s' \<Longrightarrow> life_same s s'"
  by (drule handleWrite_outcome) (auto simp: life_same_def wrote_all_life)

text \<open>A handler that does not close: it may add functors that own the connection.\<close>

lemma life_ok_same:
  assumes ok: "life_ok s" and inv: "conn_inv s'" and same: "life_same s s'" and fr: "conn_frame s s'" and st: "c_state s' = c_state s"
    and ts: "c_tasks s' = c_tasks s @ ts" "\<forall>t \<in> set ts. t = TaskWriteComplete \<or> (\<exists>n. t = TaskHighWaterMark n)"
    and opn: "c_state s \<noteq> kDisconnected \<or> c_chan s' = c_chan s"
  shows "life_ok s'"
proof -
  have new: "count_list ts TaskConnectDestroyed = 0" "list_all strong_task ts" "list_all (task_fits (c_state s)) ts"
    using ts(2) by (auto intro!: count_list_none simp: list_all_iff)
  note f = life_same_fields [OF same]
  have "open_state s \<or> c_state s = kDisconnected" using ok by (cases "c_state s") (auto simp: life_ok_def open_state_def)
  then have "\<not> c_inLoop s' \<longrightarrow> \<not> ch_addedToLoop (c_chan s')"
    using opn ok fr by (auto simp: life_ok_def open_state_def conn_frame_def)
  moreover have "destroys s' = destroys s" by (simp add: destroys_def coming_def ts(1) count_list_append new f)
  ultimately show ?thesis
    using ok inv fr new by (auto simp: life_ok_def conn_frame_def open_state_def st f coming_def ts(1))
qed

lemma sendInLoop_life_ok:
  assumes ok: "life_ok s" and wr: "write_spec (length data) wr" and len: "length data \<le> vec_max"
  shows "ok_or {LengthError} (\<lambda>s'. life_ok s' \<and> life_same s s' \<and> conn_same s s') (sendInLoop wr data s)"
proof -
  have inv: "conn_inv s" using ok by (simp add: life_ok_def)
  show ?thesis
  proof (cases "sendInLoop wr data s")
    case (Inl e)
    then show ?thesis using sendInLoop_ok [OF inv wr len] by auto
  next
    case (Inr s')
    have s': "conn_inv s'" "conn_same s s'" using sendInLoop_ok [OF inv wr len] Inr by auto
    obtain ts where ts: "c_tasks s' = c_tasks s @ ts" "\<forall>t \<in> set ts. t = TaskWriteComplete \<or> (\<exists>n. t = TaskHighWaterMark n)"
      using sendInLoop_tasks [OF Inr] by blast
    have "c_state s \<noteq> kDisconnected \<or> c_chan s' = c_chan s" using Inr by (auto simp: sendInLoop_def)
    then have "life_ok s'"
      using life_ok_same [OF ok s'(1) sendInLoop_life [OF Inr] _ _ ts] s'(2) by (auto simp: conn_same_def)
    then show ?thesis using s' sendInLoop_life [OF Inr] Inr by simp
  qed
qed

lemma handleWrite_life_ok:
  assumes ok: "life_ok s" and wr: "write_spec (length (readable (c_out s))) wr"
  shows "\<exists>s'. handleWrite wr s = Inr s' \<and> life_ok s' \<and> life_same s s' \<and> conn_frame s s'"
proof -
  have inv: "conn_inv s" using ok by (simp add: life_ok_def)
  obtain s' where s': "handleWrite wr s = Inr s'" "conn_inv s'" "conn_frame s s'" "c_state s' = c_state s"
    using handleWrite_ok [OF inv wr] by blast
  obtain ts where ts: "c_tasks s' = c_tasks s @ ts" "\<forall>t \<in> set ts. t = TaskWriteComplete \<or> (\<exists>n. t = TaskHighWaterMark n)"
    using handleWrite_tasks [OF s'(1)] by blast
  have "c_state s \<noteq> kDisconnected \<or> c_chan s' = c_chan s"
    using s'(1) inv kNoneEvent_not_writing [of "c_chan s"] by (auto simp: conn_inv_def handleWrite_def)
  then show ?thesis using life_ok_same [OF ok s'(2) handleWrite_life [OF s'(1)] s'(3,4) ts] s' handleWrite_life [OF s'(1)] by blast
qed

lemma queue_task_life:
  "cl_batch (queue_task t s) = cl_batch s" "cl_held (queue_task t s) = cl_held s" "cl_main (queue_task t s) = cl_main s"
  "cl_mainLeft (queue_task t s) = cl_mainLeft s" "cl_mainHeld (queue_task t s) = cl_mainHeld s"
  "cl_users (queue_task t s) = cl_users s" "cl_freed (queue_task t s) = cl_freed s"
  "cl_calls (queue_task t s) = cl_calls s"
  by (simp_all add: queue_task_def)

lemma task_fits_mono:
  assumes "list_all (task_fits st) ts" "st' = kDisconnecting \<or> st' = kDisconnected"
  shows "list_all (task_fits st') ts"
proof -
  have "task_fits st t \<Longrightarrow> task_fits st' t" for t using assms(2) by (cases t) auto
  then show ?thesis using assms(1) by (auto simp: list_all_iff)
qed

lemma call_fits_mono:
  assumes "list_all (call_fits st) cs" "st' = kDisconnecting \<or> st' = kDisconnected"
  shows "list_all (call_fits st') cs"
proof -
  have "call_fits st c \<Longrightarrow> call_fits st' c" for c using assms(2) by (cases c) auto
  then show ?thesis using assms(1) by (auto simp: list_all_iff)
qed

text \<open>The close of the connection starts the one and only chain that leads to its destruction.\<close>

lemma handleClose_life_ok:
  assumes ok: "life_ok s" and opn: "open_state s" and cbs: "on_close cbs = server_removeConnection oneLoop"
  shows "\<exists>s'. handleClose cbs s = Inr s' \<and> life_ok s' \<and> c_state s' = kDisconnected \<and> same_dispatch (c_chan s) (c_chan s') \<and>
    cl_freed s' = cl_freed s"
proof -
  define s1 where "s1 = (conn_switch DisableAll (setState kDisconnected s))\<lparr>c_closes := c_closes s + 1\<rparr>"
  have c1: "c_state s1 = kDisconnected" "c_inLoop s1 = c_inLoop s" "c_tasks s1 = c_tasks s"
      "same_dispatch (c_chan s) (c_chan s1)"
    by (simp_all add: s1_def setState_def tasks_simps)
  have same: "life_same s s1" by (simp add: life_same_def s1_def setState_def conn_switch_life)
  note f = life_same_fields [OF same]
  have inv: "conn_inv s1" using handleClose_pre ok opn by (auto simp: s1_def life_ok_def open_state_def)
  define s' where "s' = (if oneLoop then queue_task TaskConnectDestroyed s1 else s1\<lparr>cl_main := cl_main s1 + 1\<rparr>)"
  have "conn_inv s'" using inv by (auto simp: s'_def conn_inv_def)
  then have "life_ok s'"
    using ok opn task_fits_mono [of "c_state s" _ kDisconnected] call_fits_mono [of "c_state s" _ kDisconnected]
    by (cases oneLoop) (auto simp: life_ok_def s'_def c1 f open_state_def destroys_def coming_def tasks_simps count_list_append queue_task_life)
  moreover have "handleClose cbs s = Inr s'"
    using opn cbs by (simp add: handleClose_def open_state_def server_removeConnection_def removeConnectionInLoop_def s1_def s'_def)
  ultimately show ?thesis using c1 f by (auto simp: s'_def queue_task_life)
qed


definition life_cbs_ok :: "conn_life conn_cbs \<Rightarrow> bool" where
  "life_cbs_ok cbs \<longleftrightarrow> (\<forall>t. life_cb_ok (on_message cbs t)) \<and> life_cb_ok (on_connection cbs) \<and>
     (\<exists>oneLoop. on_close cbs = server_removeConnection oneLoop)"

definition alive :: "conn_life \<Rightarrow> bool" where
  "alive s \<longleftrightarrow> life_ok s \<and> \<not> cl_freed s"

lemma life_cbs_life_cbs_ok: "(\<forall>t. life_cb_ok (msg t)) \<Longrightarrow> life_cb_ok con \<Longrightarrow> life_cbs_ok (life_cbs oneLoop msg con)"
  by (auto simp: life_cbs_ok_def life_cbs_def)

lemma handleClose_alive:
  assumes "alive s" "open_state s" "life_cbs_ok cbs"
  shows "ok_or {LengthError} (handled alive s) (handleClose cbs s)"
proof -
  obtain oneLoop where cbs: "on_close cbs = server_removeConnection oneLoop" using assms(3) by (auto simp: life_cbs_ok_def)
  from handleClose_life_ok [OF _ assms(2) cbs] assms(1) show ?thesis by (auto simp: alive_def handled_def)
qed

lemma conn_handleRead_alive:
  assumes s: "alive s" and opn: "open_state s" and rd: "readv_spec readv" and cbs: "life_cbs_ok cbs"
  shows "ok_or {LengthError} (handled alive s) (conn_handleRead cbs readv t s)"
proof -
  have wf: "buffer_wf (c_in s)" using s by (simp add: alive_def life_ok_def conn_inv_def)
  show ?thesis unfolding conn_handleRead_def
  proof (rule ok_or_bind [OF readFd_wf [OF wf rd]])
    fix r :: "int \<times> int option \<times> buffer" assume r: "case r of (n, err, b) \<Rightarrow> buffer_wf b"
    obtain n err b where nb: "r = (n, err, b)" by (cases r)
    define s1 where "s1 = s\<lparr>c_in := b\<rparr>"
    have s1: "alive s1" "open_state s1" "handled alive s x = handled alive s1 x" "c_chan s1 = c_chan s" for x
      using r nb s opn
      by (auto simp: s1_def alive_def life_ok_def conn_inv_def open_state_def destroys_def coming_def handled_def)
    have "life_cb_ok (on_message cbs t)" using cbs by (simp add: life_cbs_ok_def)
    then have msg: "ok_or {LengthError} (handled alive s) (on_message cbs t s1)"
      using s1(1,2) by (auto simp: life_cb_ok_def handled_def alive_def s1(4) conn_frame_def elim!: allE [of _ s1] ok_or_mono)
    have close: "ok_or {LengthError} (handled alive s) (handleClose cbs s1)"
      using handleClose_alive [OF s1(1,2) cbs] by (rule ok_or_mono) (simp add: s1(3))
    have "handled alive s s1" using s1(1) by (simp add: s1(3)) (simp add: handled_def)
    with msg close show "ok_or {LengthError} (handled alive s) (case r of (n, savedErrno, b) \<Rightarrow> let s1 = s\<lparr>c_in := b\<rparr> in
       if n > 0 then on_message cbs t s1 else if n = 0 then handleClose cbs s1 else Inr (handleError s1))"
      by (simp add: nb handleError_def Let_def s1_def [symmetric])
  qed
qed

lemma life_ok_chan:
  assumes "life_ok s" "ch_events c = ch_events (c_chan s)" "ch_addedToLoop c = ch_addedToLoop (c_chan s)"
  shows "life_ok (s\<lparr>c_chan := c\<rparr>)"
  using assms by (auto simp: life_ok_def conn_inv_def isWriting_def open_state_def destroys_def coming_def)

lemma conn_handleEvent_alive:
  assumes s: "alive s" "open_state s" "\<not> hup_and_read (ch_revents (c_chan s))" and rd: "readv_spec readv"
    and wr: "\<And>n. write_spec n (wr n)" and cbs: "life_cbs_ok cbs"
  shows "ok_or {LengthError} alive (conn_handleEvent cbs readv wr tied t s)"
proof (rule conn_handleEvent_keeps)
  show "alive (x\<lparr>c_chan := (c_chan x)\<lparr>ch_eventHandling := e\<rparr>\<rparr>)" if "alive x" for x e
    using that life_ok_chan [of x "(c_chan x)\<lparr>ch_eventHandling := e\<rparr>"] by (simp add: alive_def)
  show "ok_or {LengthError} (handled alive x) (handleWrite (wr (readableBytes (c_out x))) x)" if "alive x" for x
  proof -
    have ok: "life_ok x" "\<not> cl_freed x" using that by (simp_all add: alive_def)
    then have "write_spec (length (readable (c_out x))) (wr (readableBytes (c_out x)))"
      using wr [of "readableBytes (c_out x)"] by (simp add: life_ok_def conn_inv_def readableBytes_length)
    from handleWrite_life_ok [OF ok(1) this] show ?thesis
      using ok(2) life_same_fields(7) [of x] by (auto simp: handled_def alive_def conn_frame_def)
  qed
qed (use assms in \<open>auto intro: handleClose_alive conn_handleRead_alive\<close>)

lemma conn_handleEvent_done:
  "conn_handleEvent cbs readv wr True t s = Inr s' \<Longrightarrow> \<not> ch_eventHandling (c_chan s')"
  by (auto simp: conn_handleEvent_def handleEvent_fold rbind_Inr_iff)

section \<open>Steps\<close>

text \<open>When the last owner goes, the connection is closed and its channel removed: the destructor's tests hold.\<close>

lemma life_release_inv:
  assumes ok: "life_ok s" and ev: "\<not> ch_eventHandling (c_chan s)" and fr: "cl_freed s \<Longrightarrow> owners s = 0"
  shows "ok_or F life_inv (life_release inLoop s)"
proof (cases "owners s = 0 \<and> \<not> cl_freed s")
  case True
  then have "c_state s = kDisconnected" "\<not> ch_addedToLoop (c_chan s)"
    using ok by (cases "c_state s"; auto simp: owners_def life_ok_def open_state_def split: if_splits)+
  then have "life_release inLoop s = Inr (s\<lparr>cl_freed := True\<rparr>)"
    using True ev by (simp add: life_release_def life_destruct_def life_hasChannel_def conn_destroy_def)
  moreover have "life_ok (s\<lparr>cl_freed := True\<rparr>)"
    using ok by (simp add: life_ok_def conn_inv_def open_state_def destroys_def coming_def)
  ultimately show ?thesis using True ev by (simp add: life_inv_def owners_def)
next
  case False
  then show ?thesis using ok ev fr by (auto simp: life_release_def life_inv_def)
qed

text \<open>A functor that is about to run has an owner: itself in the batch, or the user who posted it.\<close>

lemma batch_owner:
  assumes "life_ok s" "cl_batch s = t # ts"
  shows "0 < cl_held s + cl_users s"
  using assms by (cases "strong_task t") (auto simp: life_ok_def strong_def coming_def)

lemma run_task_life:
  assumes ok: "life_ok s" and b: "cl_batch s = t # ts" and legal: "life_legal (LTask wr) s"
  shows "ok_or {LengthError} (\<lambda>s'. life_ok s' \<and> life_same (s\<lparr>cl_batch := ts\<rparr>) s') (run_task cbs wr t (s\<lparr>cl_batch := ts\<rparr>))"
proof -
  define s0 where "s0 = s\<lparr>cl_batch := ts\<rparr>"
  have inv: "conn_inv s0" using ok by (simp add: s0_def life_ok_def conn_inv_def)
  have rest: "life_ok s0" if "t \<noteq> TaskConnectDestroyed"
    using ok b inv that by (auto simp: life_ok_def s0_def coming_def destroys_def open_state_def count_list_append strong_def split: if_splits)
  have fits: "task_fits (c_state s) t" using ok b by (simp add: life_ok_def coming_def)
  show ?thesis unfolding s0_def [symmetric]
  proof (cases t)
    case (TaskSend data)
    then have "ok_or {LengthError} (\<lambda>s'. life_ok s' \<and> life_same s0 s' \<and> conn_same s0 s') (sendInLoop wr data s0)"
      using rest fits legal b by (intro sendInLoop_life_ok) auto
    then show "ok_or {LengthError} (\<lambda>s'. life_ok s' \<and> life_same s0 s') (run_task cbs wr t s0)"
      unfolding run_task_def TaskSend by (auto elim: ok_or_mono)
  next
    case TaskShutdown
    have "c_state s0 = kDisconnecting \<or> c_state s0 = kDisconnected" using fits by (simp add: TaskShutdown s0_def)
    then show "ok_or {LengthError} (\<lambda>s'. life_ok s' \<and> life_same s0 s') (run_task cbs wr t s0)"
      using rest unfolding run_task_def TaskShutdown
      by (auto simp: life_ok_def conn_inv_def shutdownInLoop_def open_state_def destroys_def coming_def life_same_def)
  next
    case TaskConnectDestroyed
    then have st: "c_state s0 = kDisconnected" "c_inLoop s0" "destroys s0 = 0"
      using ok b by (auto simp: s0_def life_ok_def destroys_def coming_def count_list_append split: if_splits)
    have "life_ok (s0\<lparr>c_inLoop := False, c_chan := (c_chan s0)\<lparr>ch_addedToLoop := False\<rparr>\<rparr>)"
      using ok inv st b TaskConnectDestroyed
      by (auto simp: life_ok_def conn_inv_def open_state_def destroys_def coming_def s0_def strong_def)
    then show "ok_or {LengthError} (\<lambda>s'. life_ok s' \<and> life_same s0 s') (run_task cbs wr t s0)"
      using connectDestroyed_ok [OF inv st(1,2), of cbs] by (simp add: run_task_def TaskConnectDestroyed life_same_def)
  qed (use rest fits in \<open>auto simp: run_task_def life_same_def\<close>)
qed


lemma life_invD: "life_inv s \<Longrightarrow> life_ok s" "life_inv s \<Longrightarrow> \<not> ch_eventHandling (c_chan s)" "life_inv s \<Longrightarrow> cl_freed s \<longleftrightarrow> owners s = 0"
  by (simp_all add: life_inv_def)

lemma event_step:
  assumes inv: "life_inv s" and cbs: "life_cbs_ok cbs" and legal: "life_legal (LEvent revt readv wr t) s"
  shows "ok_or {LengthError} life_inv (life_step cbs (LEvent revt readv wr t) s)"
proof -
  let ?s = "s\<lparr>c_chan := set_revents revt (c_chan s)\<rparr>"
  have opn: "open_state s" using legal by simp
  then have "c_inLoop s" using inv by (simp add: life_inv_def life_ok_def)
  then have fr: "\<not> cl_freed s" using life_invD(3) [OF inv] by (auto simp: owners_def)
  have "life_ok ?s" by (rule life_ok_chan [OF life_invD(1) [OF inv]]) (simp_all add: set_revents_def)
  then have "ok_or {LengthError} alive (conn_handleEvent cbs readv wr True t ?s)"
    using opn fr legal by (intro conn_handleEvent_alive cbs) (auto simp: alive_def open_state_def set_revents_def)
  then have "ok_or {LengthError} life_inv (rbind (conn_handleEvent cbs readv wr True t ?s) (life_release True))"
    by (rule ok_or_bind) (auto intro!: life_release_inv simp: alive_def dest: conn_handleEvent_done)
  then show ?thesis using fr by (simp add: life_use_def)
qed

lemma task_step:
  assumes inv: "life_inv s" and legal: "life_legal (LTask wr) s"
  shows "ok_or {LengthError} life_inv (life_step cbs (LTask wr) s)"
proof (cases "cl_batch s")
  case Nil
  then show ?thesis using inv by simp
next
  case (Cons t ts)
  let ?s = "s\<lparr>cl_batch := ts\<rparr>"
  have own: "0 < cl_held s + cl_users s" using batch_owner [OF life_invD(1) [OF inv] Cons] .
  then have fr: "\<not> cl_freed s" using life_invD(3) [OF inv] by (auto simp: owners_def)
  have "ok_or {LengthError} (\<lambda>s'. life_ok s' \<and> life_same ?s s') (run_task cbs wr t ?s)"
    by (rule run_task_life [OF life_invD(1) [OF inv] Cons legal])
  then have "ok_or {LengthError} life_inv (run_task cbs wr t ?s)"
  proof (rule ok_or_mono)
    fix s' assume s': "life_ok s' \<and> life_same ?s s'"
    note f = life_same_fields [of ?s s']
    show "life_inv s'" using s' f own fr life_invD(2) [OF inv] by (auto simp: life_inv_def owners_def)
  qed
  then show ?thesis using Cons fr by (simp add: life_use_def)
qed

lemma life_swap_ok: "life_ok s \<Longrightarrow> cl_batch s = [] \<Longrightarrow> cl_held s = 0 \<Longrightarrow>
   life_ok (s\<lparr>cl_batch := c_tasks s, cl_held := strong (c_tasks s), c_tasks := []\<rparr>)"
  by (auto simp: life_ok_def conn_inv_def open_state_def destroys_def coming_def)

lemma main_task_step:
  assumes inv: "life_inv s"
  shows "ok_or F life_inv (life_step cbs MTask s)"
proof (cases "cl_mainLeft s = 0")
  case True
  then show ?thesis using inv by simp
next
  case False
  then have own: "0 < cl_mainHeld s" using life_invD(1) [OF inv] by (simp add: life_ok_def)
  then have fr: "\<not> cl_freed s" using life_invD(3) [OF inv] by (auto simp: owners_def)
  let ?s = "queue_task TaskConnectDestroyed (s\<lparr>cl_mainLeft := cl_mainLeft s - 1\<rparr>)"
  have ds: "destroys ?s = destroys s"
    using False by (simp add: destroys_def coming_def tasks_simps queue_task_life count_list_append)
  have "conn_inv ?s = conn_inv s" "open_state ?s = open_state s" by (simp_all add: conn_inv_def open_state_def)
  with ds have "life_ok ?s"
    using life_invD(1) [OF inv] by (auto simp: life_ok_def coming_def tasks_simps queue_task_life)
  then have "life_inv ?s"
    using life_invD(2,3) [OF inv] own fr by (simp add: life_inv_def owners_def queue_task_life)
  then show ?thesis using False fr by (simp add: life_use_def removeConnectionInLoop_def)
qed

lemma user_test_ok:
  assumes "life_ok s" "0 < cl_users s" "call_fits kConnected call"
  shows "life_ok (user_test call s)"
  using assms by (auto simp: user_test_def life_ok_def conn_inv_def open_state_def destroys_def coming_def)

lemma user_next_ok:
  assumes ok: "life_ok s" and legal: "life_legal (UCall i) s"
  shows "life_ok (user_next i s)"
proof -
  have i: "i < length (cl_calls s)" and users: "0 < cl_users s" using ok legal by (auto simp: life_ok_def)
  have fits: "call_fits (c_state s) (cl_calls s ! i)" using ok i by (simp add: life_ok_def list_all_length)
  have rest: "list_all (call_fits (c_state s)) (remove_nth i (cl_calls s))" using ok by (simp add: life_ok_def list_all_remove_nth)
  let ?q = "\<lambda>t. queue_task t (s\<lparr>cl_calls := remove_nth i (cl_calls s)\<rparr>)"
  have post: "life_ok (?q t)" if "task_fits (c_state s) t" "t \<noteq> TaskConnectDestroyed" for t
    using ok rest users that
    by (auto simp: life_ok_def conn_inv_def open_state_def destroys_def coming_def tasks_simps queue_task_life count_list_append)
  show ?thesis
  proof (cases "cl_calls s ! i")
    case ShutdownSet
    let ?s = "setState kDisconnecting (s\<lparr>cl_calls := (cl_calls s)[i := ShutdownPost]\<rparr>)"
    have opn: "open_state s" using legal ShutdownSet by simp
    then have "conn_inv ?s" using ok by (auto simp: life_ok_def conn_inv_def setState_def open_state_def)
    moreover have "list_all (call_fits kDisconnecting) ((cl_calls s)[i := ShutdownPost])"
      using call_fits_mono [of "c_state s" "cl_calls s" kDisconnecting] ok i by (auto simp: life_ok_def list_all_length nth_list_update)
    ultimately have "life_ok ?s"
      using ok opn users task_fits_mono [of "c_state s" "coming s" kDisconnecting]
      by (auto simp: life_ok_def setState_def open_state_def destroys_def coming_def)
    then show ?thesis by (simp add: user_next_def ShutdownSet)
  qed (use fits post in \<open>auto simp: user_next_def\<close>)
qed

text \<open>Steps of users that leave the owners alone.\<close>

lemma user_keeps:
  "owners (user_test call s) = owners s" "cl_freed (user_test call s) = cl_freed s" "c_chan (user_test call s) = c_chan s"
  "owners (user_next i s) = owners s" "cl_freed (user_next i s) = cl_freed s" "c_chan (user_next i s) = c_chan s"
  by (auto simp: user_test_def user_next_def owners_def setState_def queue_task_def strong_def split: user_call.split)

lemma user_steps:
  assumes inv: "life_inv s"
  shows "life_legal UTake s \<Longrightarrow> ok_or F life_inv (life_step cbs UTake s)"
    "life_legal (USend data) s \<Longrightarrow> ok_or F life_inv (life_step cbs (USend data) s)"
    "life_legal UShutdown s \<Longrightarrow> ok_or F life_inv (life_step cbs UShutdown s)"
    "life_legal (UCall i) s \<Longrightarrow> ok_or F life_inv (life_step cbs (UCall i) s)"
proof -
  note ok = life_invD(1) [OF inv] and ev = life_invD(2) [OF inv] and fr = life_invD(3) [OF inv]
  show "ok_or F life_inv (life_step cbs UTake s)" if "life_legal UTake s"
  proof -
    have "\<not> cl_freed s" using that ok fr by (auto simp: owners_def life_ok_def)
    moreover have "life_ok (s\<lparr>cl_users := cl_users s + 1\<rparr>)"
      using ok by (auto simp: life_ok_def conn_inv_def open_state_def destroys_def coming_def)
    ultimately show ?thesis using ev by (simp add: life_use_def life_inv_def owners_def)
  qed
  have alive: "\<not> cl_freed s" if "0 < cl_users s" using that fr by (auto simp: owners_def)
  show "ok_or F life_inv (life_step cbs (USend data) s)" if "life_legal (USend data) s"
    using that alive user_test_ok [OF ok, of "SendPost data"] ev fr by (simp add: life_use_def life_inv_def user_keeps)
  show "ok_or F life_inv (life_step cbs UShutdown s)" if "life_legal UShutdown s"
    using that alive user_test_ok [OF ok, of ShutdownSet] ev fr by (simp add: life_use_def life_inv_def user_keeps)
  show "ok_or F life_inv (life_step cbs (UCall i) s)" if "life_legal (UCall i) s"
  proof -
    have "0 < cl_users s" using that ok by (auto simp: life_ok_def)
    then show ?thesis using alive user_next_ok [OF ok that] ev fr by (simp add: life_use_def life_inv_def user_keeps)
  qed
qed

lemma batch_ends:
  assumes inv: "life_inv s"
  shows "life_legal LEnd s \<Longrightarrow> ok_or F life_inv (life_step cbs LEnd s)"
    "life_legal MEnd s \<Longrightarrow> ok_or F life_inv (life_step cbs MEnd s)"
proof -
  note ok = life_invD(1) [OF inv] and ev = life_invD(2) [OF inv] and fr = life_invD(3) [OF inv]
  show "ok_or F life_inv (life_step cbs LEnd s)" if "life_legal LEnd s"
    unfolding life_step.simps using ok that ev fr
    by (intro life_release_inv) (auto simp: life_ok_def conn_inv_def open_state_def destroys_def coming_def owners_def)
  show "ok_or F life_inv (life_step cbs MEnd s)" if "life_legal MEnd s"
    unfolding life_step.simps using ok that ev fr
    by (intro life_release_inv) (auto simp: life_ok_def conn_inv_def open_state_def destroys_def coming_def owners_def)
qed

lemma life_step_inv:
  assumes inv: "life_inv s" and cbs: "life_cbs_ok cbs" and legal: "life_legal op s"
  shows "ok_or {LengthError} life_inv (life_step cbs op s)"
proof -
  note ok = life_invD(1) [OF inv] and ev = life_invD(2) [OF inv] and fr = life_invD(3) [OF inv]
  show ?thesis
  proof (cases op)
    case LSwap
    then show ?thesis using life_swap_ok [OF ok] legal ev fr by (auto simp: life_inv_def owners_def)
  next
    case MSwap
    have "life_ok (s\<lparr>cl_mainLeft := cl_main s, cl_mainHeld := cl_main s, cl_main := 0\<rparr>)"
      using ok legal MSwap by (auto simp: life_ok_def conn_inv_def open_state_def destroys_def coming_def)
    then show ?thesis using ev fr legal by (auto simp: MSwap life_inv_def owners_def)
  next
    case UDrop
    have "ok_or {LengthError} life_inv (life_release False (s\<lparr>cl_users := cl_users s - 1\<rparr>))"
      using ok legal ev fr UDrop
      by (intro life_release_inv) (auto simp: life_ok_def conn_inv_def open_state_def destroys_def coming_def owners_def)
    then show ?thesis by (simp add: UDrop)
  qed (use event_step [OF inv cbs] task_step [OF inv] main_task_step [OF inv] user_steps [OF inv] batch_ends [OF inv] legal
        in \<open>simp_all del: life_step.simps life_legal.simps add: life_legal.simps(10,11)\<close>)
qed

interpretation lifem: safe_machine "life_step cbs" "\<lambda>op s. life_cbs_ok cbs \<and> life_legal op s" life_inv "{LengthError}" for cbs
  by unfold_locales (use life_step_inv in blast)


lemma life_start_inv:
  assumes cbs: "life_cbs_ok cbs"
  shows "ok_or {LengthError} life_inv (life_start loop cbs writeComplete sockfd)"
proof -
  obtain c where c: "new_connection loop sockfd writeComplete = Inr c" "conn_inv c" "c_state c = kConnecting"
    "c_tasks c = []" "\<not> ch_eventHandling (c_chan c)"
    using new_connection_ok [of loop sockfd writeComplete]
    by (auto simp: conn_ok_def new_connection_def rbind_Inr_iff setErrorCallback_def setCloseCallback_def
        setWriteCallback_def setReadCallback_def new_channel_def)
  define s where "s = conn.extend c (conn_life.fields [] 0 0 0 0 0 [] False)"
  define s1 where "s1 = (setState kConnected s)\<lparr>c_inLoop := True\<rparr>"
  define s2 where "s2 = conn_switch EnableReading (s1\<lparr>c_chan := chan_tie (c_chan s1)\<rparr>)"
  have s2: "c_tasks s2 = []" "c_state s2 = kConnected" "c_inLoop s2" "cl_batch s2 = []" "cl_held s2 = 0" "cl_main s2 = 0"
      "cl_mainLeft s2 = 0" "cl_mainHeld s2 = 0" "\<not> cl_freed s2" "cl_calls s2 = []" "\<not> ch_eventHandling (c_chan s2)"
    using c by (simp_all add: s2_def s1_def s_def setState_def conn_switch_def chan_tie_def conn.defs conn_life.defs)
  have "isWriting (chan_tie ch) = isWriting ch" for ch by (simp add: isWriting_def chan_tie_def)
  then have "conn_inv s2"
    using c by (auto simp: s2_def s1_def s_def setState_def conn_inv_def conn.defs)
  then have ok: "life_ok s2" using s2 by (simp add: life_ok_def open_state_def destroys_def coming_def)
  have cb: "life_cb_ok (on_connection cbs)" and opn: "open_state s2" using cbs s2 by (simp_all add: life_cbs_ok_def open_state_def)
  have "ok_or {LengthError} (\<lambda>s'. life_ok s' \<and> conn_frame s2 s' \<and> open_state s' \<and> \<not> cl_freed s' \<and>
        ch_eventHandling (c_chan s') = ch_eventHandling (c_chan s2)) (on_connection cbs s2)"
    using cb ok opn s2(9) unfolding life_cb_ok_def by blast
  then have "ok_or {LengthError} life_inv (rbind (on_connection cbs s2) (life_release True))"
    by (rule ok_or_bind) (use s2 in \<open>auto intro: life_release_inv\<close>)
  moreover have "life_start loop cbs writeComplete sockfd = rbind (on_connection cbs s2) (life_release True)"
  proof -
    have "c_state s = kConnecting" using c by (simp add: s_def conn.defs)
    then have "connectEstablished cbs s = on_connection cbs s2"
      by (simp add: connectEstablished_def Let_def assertm_def s1_def s2_def)
    then show ?thesis using c by (simp add: life_start_def s_def)
  qed
  ultimately show ?thesis by simp
qed

lemma life_run_inv:
  assumes "life_cbs_ok cbs" "life_start loop cbs writeComplete sockfd = Inr s0" "run_legal life_legal (life_step cbs) ops s0"
  shows "ok_or {LengthError} life_inv (rfold (life_step cbs) ops s0)"
proof (rule lifem.run_safe)
  show "life_inv s0" using life_start_inv [OF assms(1), of loop writeComplete sockfd] assms(2) by simp
  show "run_legal (\<lambda>op s. life_cbs_ok cbs \<and> life_legal op s) (life_step cbs) ops s0"
    using assms(1,3) by (rule run_legal_conj)
qed

lemma life_inv_freed:
  assumes "life_inv s" "cl_freed s"
  shows "cl_calls s = []" and "c_state s = kDisconnected" "\<not> ch_addedToLoop (c_chan s)" "coming s = []" "cl_main s = 0" "cl_mainLeft s = 0" "cl_users s = 0"
proof -
  have own: "owners s = 0" and ok: "life_ok s" using assms by (simp_all add: life_inv_def)
  from own ok show "c_state s = kDisconnected" "\<not> ch_addedToLoop (c_chan s)"
    by (cases "c_state s"; auto simp: owners_def life_ok_def open_state_def split: if_splits)+
  show "cl_main s = 0" "cl_users s = 0" "cl_mainLeft s = 0" "cl_calls s = []" using own ok by (simp_all add: owners_def life_ok_def)
  have "list_all strong_task (coming s)" "strong (coming s) = 0" using own ok by (auto simp: owners_def life_ok_def coming_def)
  then show "coming s = []" by (cases "coming s") (auto simp: strong_def)
qed

section \<open>Reclaiming\<close>

text \<open>The rest of a batch of the I/O loop and of the main loop, with its end.\<close>

definition io_batch :: "conn_life conn_cbs \<Rightarrow> io_result \<Rightarrow> conn_life \<Rightarrow> conn_life res" where
  "io_batch cbs wr s = rbind (rfold (life_step cbs) (replicate (length (cl_batch s)) (LTask wr)) s) (life_step cbs LEnd)"

definition main_batch :: "conn_life conn_cbs \<Rightarrow> conn_life \<Rightarrow> conn_life res" where
  "main_batch cbs s = rbind (rfold (life_step cbs) (replicate (cl_mainLeft s) MTask) s) (life_step cbs MEnd)"

text \<open>A closed connection that only the server still knows.\<close>

definition closing :: "conn_life \<Rightarrow> bool" where
  "closing s \<longleftrightarrow> life_inv s \<and> c_state s = kDisconnected \<and> cl_users s = 0"

lemma release_fields:
  "life_release inLoop s = Inr s' \<Longrightarrow> s' = s \<or> s' = s\<lparr>cl_freed := True\<rparr>"
  by (auto simp: life_release_def life_destruct_def rbind_Inr_iff assertm_def split: if_splits)

lemma closing_task:
  assumes "closing s" "cl_batch s = t # ts"
  shows "\<exists>s'. life_step cbs (LTask wr) s = Inr s' \<and> closing s' \<and> cl_batch s' = ts \<and> c_tasks s' = c_tasks s \<and>
    cl_main s' = cl_main s \<and> cl_mainLeft s' = cl_mainLeft s \<and> cl_mainHeld s' = cl_mainHeld s"
proof -
  have inv: "life_inv s" and st: "c_state s = kDisconnected" "cl_users s = 0" using assms(1) by (simp_all add: closing_def)
  have ok: "life_ok s" using inv by (rule life_invD)
  have t: "strong_task t" using ok assms(2) st by (simp add: life_ok_def coming_def)
  then have "life_legal (LTask wr) s" using assms(2) by (cases t) auto
  from task_step [OF inv this] have safe: "ok_or {LengthError} life_inv (life_step cbs (LTask wr) s)" .
  let ?s = "s\<lparr>cl_batch := ts\<rparr>"
  have fr: "\<not> cl_freed s" using batch_owner [OF ok assms(2)] life_invD(3) [OF inv] by (auto simp: owners_def)
  have "c_inLoop s" if "t = TaskConnectDestroyed"
    using ok assms(2) that by (auto simp: life_ok_def destroys_def coming_def count_list_append split: if_splits)
  moreover have "conn_inv ?s" using ok by (simp add: life_ok_def conn_inv_def)
  ultimately have "life_step cbs (LTask wr) s =
      Inr (if t = TaskConnectDestroyed then ?s\<lparr>c_inLoop := False, c_chan := (c_chan s)\<lparr>ch_addedToLoop := False\<rparr>\<rparr> else ?s)"
    using assms(2) fr t connectDestroyed_ok [of ?s cbs] st by (cases t) (auto simp: life_use_def run_task_def)
  with safe st show ?thesis by (auto simp: closing_def)
qed

lemma closing_io_batch:
  assumes "closing s"
  shows "\<exists>s'. io_batch cbs wr s = Inr s' \<and> closing s' \<and> cl_batch s' = [] \<and> cl_held s' = 0 \<and> c_tasks s' = c_tasks s \<and>
    cl_main s' = cl_main s \<and> cl_mainLeft s' = cl_mainLeft s \<and> cl_mainHeld s' = cl_mainHeld s"
proof -
  have "\<exists>s'. rfold (life_step cbs) (replicate n (LTask wr)) s = Inr s' \<and> closing s' \<and> cl_batch s' = [] \<and> c_tasks s' = c_tasks s \<and>
    cl_main s' = cl_main s \<and> cl_mainLeft s' = cl_mainLeft s \<and> cl_mainHeld s' = cl_mainHeld s"
    if "closing s" "n = length (cl_batch s)" for s n
    using that
  proof (induction n arbitrary: s)
    case (Suc n)
    then obtain t ts where b: "cl_batch s = t # ts" by (cases "cl_batch s") auto
    obtain s1 where s1: "life_step cbs (LTask wr) s = Inr s1" "closing s1" "cl_batch s1 = ts" "c_tasks s1 = c_tasks s"
      "cl_main s1 = cl_main s" "cl_mainLeft s1 = cl_mainLeft s" "cl_mainHeld s1 = cl_mainHeld s"
      using closing_task [OF Suc.prems(1) b] by blast
    have "n = length (cl_batch s1)" using Suc.prems(2) b s1(3) by simp
    from Suc.IH [OF s1(2) this] s1 show ?case by (simp del: life_step.simps)
  qed simp
  from this [OF assms refl] obtain s1 where s1: "rfold (life_step cbs) (replicate (length (cl_batch s)) (LTask wr)) s = Inr s1"
    "closing s1" "cl_batch s1 = []" "c_tasks s1 = c_tasks s" "cl_main s1 = cl_main s" "cl_mainLeft s1 = cl_mainLeft s" "cl_mainHeld s1 = cl_mainHeld s"
    by blast
  have inv: "life_inv s1" using s1(2) by (simp add: closing_def)
  then have "ok_or {} life_inv (life_step cbs LEnd s1)" using s1(3) by (intro batch_ends) simp_all
  then obtain s2 where s2: "life_step cbs LEnd s1 = Inr s2" "life_inv s2" by (auto simp: ok_or_total)
  then have "s2 = s1\<lparr>cl_held := 0\<rparr> \<or> s2 = s1\<lparr>cl_held := 0, cl_freed := True\<rparr>" by (auto dest: release_fields)
  with s1 s2 show ?thesis by (auto simp: io_batch_def closing_def simp del: life_step.simps)
qed

lemma closing_main_batch:
  assumes "closing s"
  shows "\<exists>s'. main_batch cbs s = Inr s' \<and> closing s' \<and> cl_mainLeft s' = 0 \<and> cl_mainHeld s' = 0 \<and>
    cl_main s' = cl_main s \<and> cl_batch s' = cl_batch s \<and> cl_held s' = cl_held s"
proof -
  have "\<exists>s'. rfold (life_step cbs) (replicate n MTask) s = Inr s' \<and> closing s' \<and> cl_mainLeft s' = 0 \<and>
    cl_main s' = cl_main s \<and> cl_batch s' = cl_batch s \<and> cl_held s' = cl_held s"
    if "closing s" "n = cl_mainLeft s" for s n
    using that
  proof (induction n arbitrary: s)
    case (Suc n)
    have inv: "life_inv s" using Suc.prems(1) by (simp add: closing_def)
    have "ok_or {} life_inv (life_step cbs MTask s)" by (rule main_task_step [OF inv])
    then obtain s1 where s1: "life_step cbs MTask s = Inr s1" "life_inv s1" by (auto simp: ok_or_total)
    then have "s1 = queue_task TaskConnectDestroyed (s\<lparr>cl_mainLeft := cl_mainLeft s - 1\<rparr>)"
      using Suc.prems(2) by (auto simp: life_use_def removeConnectionInLoop_def split: if_splits)
    then have f: "closing s1" "cl_mainLeft s1 = n" "cl_main s1 = cl_main s" "cl_batch s1 = cl_batch s" "cl_held s1 = cl_held s"
      using Suc.prems s1(2) by (auto simp: closing_def queue_task_life)
    from Suc.IH [OF f(1)] f s1(1) show ?case by (simp del: life_step.simps)
  qed simp
  from this [OF assms refl] obtain s1 where s1: "rfold (life_step cbs) (replicate (cl_mainLeft s) MTask) s = Inr s1" "closing s1"
    "cl_mainLeft s1 = 0" "cl_main s1 = cl_main s" "cl_batch s1 = cl_batch s" "cl_held s1 = cl_held s" by blast
  have inv: "life_inv s1" using s1(2) by (simp add: closing_def)
  then have "ok_or {} life_inv (life_step cbs MEnd s1)" using s1(3) by (intro batch_ends) simp_all
  then obtain s2 where s2: "life_step cbs MEnd s1 = Inr s2" "life_inv s2" by (auto simp: ok_or_total)
  then have "s2 = s1\<lparr>cl_mainHeld := 0\<rparr> \<or> s2 = s1\<lparr>cl_mainHeld := 0, cl_freed := True\<rparr>" by (auto dest: release_fields)
  with s1 s2 show ?thesis by (auto simp: main_batch_def closing_def simp del: life_step.simps)
qed

text \<open>
  Both loops finish the batch they are in, then the main loop runs its next batch and after it the
  I/O loop its next one.
\<close>

definition next_batches :: "conn_life conn_cbs \<Rightarrow> io_result \<Rightarrow> conn_life \<Rightarrow> conn_life res" where
  "next_batches cbs wr s =
     rbind (io_batch cbs wr s) (\<lambda>s1.
     rbind (main_batch cbs s1) (\<lambda>s2.
     rbind (life_step cbs MSwap s2) (\<lambda>s3.
     rbind (main_batch cbs s3) (\<lambda>s4.
     rbind (life_step cbs LSwap s4) (io_batch cbs wr)))))"

lemma closing_reclaimed:
  assumes s: "closing s"
  shows "\<exists>s'. next_batches cbs wr s = Inr s' \<and> cl_freed s'"
proof -
  obtain s1 where s1: "io_batch cbs wr s = Inr s1" "closing s1" "cl_batch s1 = []" "cl_held s1 = 0"
    using closing_io_batch [OF s] by blast
  obtain s2 where s2: "main_batch cbs s1 = Inr s2" "closing s2" "cl_mainLeft s2 = 0" "cl_mainHeld s2 = 0" "cl_batch s2 = []" "cl_held s2 = 0"
    using closing_main_batch [OF s1(2)] s1(3,4) by metis
  define s3 where "s3 = s2\<lparr>cl_mainLeft := cl_main s2, cl_mainHeld := cl_main s2, cl_main := 0\<rparr>"
  have "closing s3"
    using s2 by (auto simp: closing_def s3_def life_inv_def life_ok_def conn_inv_def open_state_def destroys_def coming_def owners_def)
  then obtain s4 where s4: "main_batch cbs s3 = Inr s4" "closing s4" "cl_mainLeft s4 = 0" "cl_mainHeld s4 = 0" "cl_main s4 = 0"
    "cl_batch s4 = []" "cl_held s4 = 0"
    using closing_main_batch [of s3] s2(5,6) by (auto simp: s3_def)
  define s5 where "s5 = s4\<lparr>cl_batch := c_tasks s4, cl_held := strong (c_tasks s4), c_tasks := []\<rparr>"
  have "life_ok s5" using life_swap_ok [of s4] s4 by (simp add: s5_def closing_def life_inv_def)
  then have "closing s5" using s4 by (auto simp: closing_def s5_def life_inv_def owners_def)
  then obtain s6 where s6: "io_batch cbs wr s5 = Inr s6" "closing s6" "cl_batch s6 = []" "cl_held s6 = 0" "c_tasks s6 = []"
    "cl_main s6 = 0" "cl_mainLeft s6 = 0" "cl_mainHeld s6 = 0"
    using closing_io_batch [of s5] s4 by (auto simp: s5_def)
  then have "destroys s6 = 0" by (simp add: destroys_def coming_def)
  then have "\<not> c_inLoop s6" using s6(2) by (auto simp: closing_def life_inv_def life_ok_def split: if_splits)
  then have "owners s6 = 0" using s6 by (simp add: owners_def closing_def)
  then have "cl_freed s6" using s6(2) by (simp add: closing_def life_inv_def)
  then show ?thesis using s1 s2 s4 s6 by (simp add: next_batches_def s3_def [symmetric] s5_def [symmetric])
qed


section \<open>Properties\<close>


text \<open>
  C21: a connection that is closed, after any legal run, and of which user code holds no pointer is
  destroyed once both loops have finished the batch they are in, the main loop its next batch and
  then the I/O loop its next one.
\<close>

theorem conn_life_reclaimed:
  assumes "\<forall>t. life_cb_ok (msg t)" "life_cb_ok con" "cbs = life_cbs oneLoop msg con"
    and "life_start loop cbs writeComplete sockfd = Inr s0" "run_legal life_legal (life_step cbs) ops s0"
    and "rfold (life_step cbs) ops s0 = Inr s" "c_state s = kDisconnected" "cl_users s = 0"
  shows "\<exists>s'. next_batches cbs wr s = Inr s' \<and> cl_freed s'"
proof (rule closing_reclaimed)
  have "ok_or {LengthError} life_inv (rfold (life_step cbs) ops s0)"
    using assms(1-3) by (intro life_run_inv [OF _ assms(4,5)]) (simp add: life_cbs_life_cbs_ok)
  then show "closing s" using assms(6-8) by (simp add: closing_def)
qed

text \<open>
  C37: a functor bound to the bare \<open>this\<close> does not keep the connection alive. When the thread that holds
  the last pointer to a closed connection calls \<open>startRead\<close> or \<open>stopRead\<close>, or is in a call of \<open>send\<close>
  that found the connection still connected, and drops the pointer afterwards, the I/O loop runs the
  functor on a destroyed object.
\<close>

theorem late_functor_use_after_free:
  assumes "life_inv s" "coming s = []" "cl_users s = 1" "owners s = 1"
    and "op = UStartRead \<or> op = UStopRead \<or> op = UCall 0 \<and> cl_calls s = [SendPost data]"
  shows "rfold (life_step cbs) [op, UDrop, LSwap, LTask wr] s = Inl UseAfterFree"
proof -
  have fr: "\<not> cl_freed s" using life_invD(3) [OF assms(1)] assms(4) by simp
  have e: "\<not> c_inLoop s" "c_tasks s = []" "cl_held s = 0" "cl_main s = 0" "cl_mainHeld s = 0" "cl_batch s = []"
    using assms(2-4) by (auto simp: owners_def coming_def split: if_splits)
  have cl: "c_state s = kDisconnected" "\<not> ch_addedToLoop (c_chan s)" "\<not> ch_eventHandling (c_chan s)"
    using e assms(1) by (cases "c_state s"; simp add: life_inv_def life_ok_def open_state_def)+
  have late: "rfold (life_step cbs) [UDrop, LSwap, LTask wr] (queue_task t x) = Inl UseAfterFree"
    if "\<not> strong_task t" "x = s \<or> x = s\<lparr>cl_calls := []\<rparr>" for t x
    using that e fr cl assms(3)
    by (auto simp: life_release_def life_destruct_def conn_destroy_def owners_def queue_task_def strong_def life_use_def)
  from assms(5) obtain t x where "life_step cbs op s = Inr (queue_task t x)" "\<not> strong_task t" "x = s \<or> x = s\<lparr>cl_calls := []\<rparr>"
    using fr by (auto simp: life_use_def startRead_def stopRead_def user_next_def remove_nth_def)
  then show ?thesis using late [of t x] by (simp del: life_step.simps)
qed

text \<open>On another thread, a call of \<open>shutdown\<close> that nobody interrupts is \<open>shutdown\<close> of the theory \<open>TcpConnection\<close>.\<close>

lemma shutdown_split: "conn_shutdown False s = (if connected s then shutdown_tail s else s)"
  by (simp add: conn_shutdown_def connected_def shutdown_tail_def)

lemma shutdown_uninterrupted:
  assumes "connected s" "cl_calls s = []"
  shows "user_next 0 (user_next 0 (user_test ShutdownSet s)) = conn_shutdown False s"
  using assms by (simp add: user_next_def user_test_def connected_def conn_shutdown_def setState_def queue_task_def remove_nth_def)


definition hup_closed :: "conn_life \<Rightarrow> conn_life" where
  "hup_closed s = s\<lparr>c_state := kDisconnected, c_closes := c_closes s + 1, cl_main := cl_main s + 1,
     c_chan := (c_chan s)\<lparr>ch_revents := POLLHUP, ch_events := kNoneEvent, ch_addedToLoop := True, ch_eventHandling := False\<rparr>\<rparr>"

lemma hup_event:
  assumes "open_state s" "ch_closeCallback (c_chan s)" "\<not> cl_freed s"
  shows "life_step (life_cbs False msg con) (LEvent POLLHUP readv wr t) s = Inr (hup_closed s)"
proof -
  have "conn_handleEvent (life_cbs False msg con) readv wr True t (s\<lparr>c_chan := set_revents POLLHUP (c_chan s)\<rparr>) = Inr (hup_closed s)"
    using assms(1,2)
    by (auto simp: conn_handleEvent_def handleEvent_fold conn_callback_def handleClose_def life_cbs_def server_removeConnection_def
        set_revents_def setState_def conn_switch_def hup_closed_def open_state_def poll_bits)
  then show ?thesis using assms(3) by (simp add: life_use_def life_release_def owners_def hup_closed_def)
qed

lemmas life_eval = hup_closed_def life_use_def removeConnectionInLoop_def life_release_def owners_def strong_def queue_task_def
  run_task_def connectDestroyed_def isNoneEvent_def kNoneEvent_def life_destruct_def life_hasChannel_def conn_destroy_def

text \<open>
  C38: the test of the state in \<open>shutdown\<close> and what follows are not one step. When the I/O loop handles
  a hang-up between them, the closed connection becomes \<open>kDisconnecting\<close> again, and its destructor
  aborts.
\<close>

theorem shutdown_race_aborts:
  assumes "connected s" "c_inLoop s" "ch_closeCallback (c_chan s)" "\<not> cl_freed s" "cl_users s = 1" "owners s = 2"
    and "c_tasks s = []" "cl_batch s = []" "cl_mainLeft s = 0"
  shows "rbind (life_step (life_cbs False msg con) (LEvent POLLHUP readv wr t) s)
    (\<lambda>s1. rfold (life_step (life_cbs False msg con)) [MSwap, MTask, MEnd, LSwap, LTask w, LTask w, LEnd, UDrop] (shutdown_tail s1)) =
    Inl AssertFailed"
proof -
  have e: "cl_held s = 0" "cl_main s = 0" "cl_mainHeld s = 0" using assms(2,5,6) by (simp_all add: owners_def)
  have "life_step (life_cbs False msg con) (LEvent POLLHUP readv wr t) s = Inr (hup_closed s)"
    using assms(1,3,4) by (intro hup_event) (simp_all add: connected_def open_state_def)
  then show ?thesis
    using assms e by (simp del: life_step.simps(1) add: shutdown_tail_def setState_def shutdownInLoop_def isWriting_def life_eval)
qed

text \<open>
  Closing is never reported to the user. When the I/O loop comes to \<open>connectDestroyed\<close>, after any
  legal run, the connection is disconnected already, so that the call of the connection callback in
  it is not reached, whatever the callback is.
\<close>

theorem close_not_reported:
  assumes "\<forall>t. life_cb_ok (msg t)" "life_cb_ok con" "cbs = life_cbs oneLoop msg con"
    and "life_start loop cbs writeComplete sockfd = Inr s0" "run_legal life_legal (life_step cbs) ops s0"
    and "rfold (life_step cbs) ops s0 = Inr s" "cl_batch s = TaskConnectDestroyed # ts"
  shows "\<not> connected s \<and> life_step cbs (LTask wr) s = life_step (cbs\<lparr>on_connection := report\<rparr>) (LTask wr) s"
proof -
  have "ok_or {LengthError} life_inv (rfold (life_step cbs) ops s0)"
    using assms(1-3) by (intro life_run_inv [OF _ assms(4,5)]) (simp add: life_cbs_life_cbs_ok)
  then have ok: "life_ok s" using assms(6) by (simp add: life_inv_def)
  then have st: "c_state s = kDisconnected" "c_inLoop s"
    using assms(7) by (auto simp: life_ok_def destroys_def coming_def count_list_append split: if_splits)
  have "conn_inv (s\<lparr>cl_batch := ts\<rparr>)" using ok by (simp add: life_ok_def conn_inv_def)
  then have "connectDestroyed (cbs\<lparr>on_connection := report\<rparr>) (s\<lparr>cl_batch := ts\<rparr>) = connectDestroyed cbs (s\<lparr>cl_batch := ts\<rparr>)"
    using st by (simp add: connectDestroyed_ok)
  then show ?thesis using assms(7) st by (simp add: life_use_def run_task_def connected_def)
qed

section \<open>Witnesses\<close>

definition idle_life :: "conn_life conn_cbs" where
  "idle_life = life_cbs False (\<lambda>t s. Inr s) (\<lambda>s. Inr s)"

lemma idle_life_ok: "\<forall>t. life_cb_ok (\<lambda>s. Inr s)" "life_cb_ok (\<lambda>s. Inr s)" "life_cbs_ok idle_life"
  by (auto simp: idle_life_def life_cb_ok_def conn_frame_def intro!: life_cbs_life_cbs_ok)

text \<open>
  A sample run: a user takes a pointer, the peer hangs up, both loops do their part of the
  destruction, and the user drops the pointer.
\<close>

abbreviation hup :: life_op where
  "hup \<equiv> LEvent POLLHUP (\<lambda>n. Inl EAGAIN) (\<lambda>n. IoOk 0) 0"

abbreviation sample_run :: "life_op list" where
  "sample_run \<equiv> [UTake, hup, MSwap, MTask, MEnd, LSwap, LTask (IoOk 0), LEnd]"

lemma hup_legal: "open_state s \<Longrightarrow> life_legal hup s"
  by (simp add: readv_spec_def write_spec_def hup_and_read_def poll_bits)

lemma idle_hup:
  "connected s \<Longrightarrow> ch_closeCallback (c_chan s) \<Longrightarrow> \<not> cl_freed s \<Longrightarrow> life_step idle_life hup s = Inr (hup_closed s)"
  unfolding idle_life_def by (rule hup_event) (simp_all add: connected_def open_state_def)

definition sampled :: "conn_life \<Rightarrow> bool" where
  "sampled s \<longleftrightarrow> connected s \<and> c_inLoop s \<and> c_tasks s = [] \<and> cl_batch s = [] \<and> cl_held s = 0 \<and> cl_main s = 0 \<and> cl_mainLeft s = 0 \<and>
     cl_mainHeld s = 0 \<and> cl_users s = 0 \<and> cl_calls s = [] \<and> \<not> cl_freed s \<and> ch_closeCallback (c_chan s) \<and> \<not> ch_eventHandling (c_chan s)"

lemma idle_start:
  obtains s0 where "life_start 0 idle_life False 7 = Inr s0" "life_inv s0" "sampled s0"
proof -
  obtain c where c: "new_connection 0 7 False = Inr c" "c_state c = kConnecting" "c_tasks c = []" "\<not> ch_eventHandling (c_chan c)"
    "ch_closeCallback (c_chan c)"
    using new_connection_ok [of 0 7 False]
    by (auto simp: conn_ok_def new_connection_def rbind_Inr_iff setErrorCallback_def setCloseCallback_def
        setWriteCallback_def setReadCallback_def new_channel_def)
  then obtain s0 where "life_start 0 idle_life False 7 = Inr s0" "sampled s0"
    by (simp add: life_start_def connectEstablished_def idle_life_def life_cbs_def setState_def conn_switch_def chan_tie_def
        conn.defs conn_life.defs life_release_def owners_def connected_def sampled_def)
  then show ?thesis using that life_start_inv [OF idle_life_ok(3), of 0 False 7] by auto
qed

lemma sample_run_steps:
  assumes "sampled s0"
  shows "run_legal life_legal (life_step idle_life) sample_run s0"
    "\<exists>s. rfold (life_step idle_life) sample_run s0 = Inr s \<and> coming s = [] \<and> cl_users s = 1 \<and> owners s = 1"
    "run_legal life_legal (life_step idle_life) (sample_run @ [UDrop]) s0"
    "\<exists>s. rfold (life_step idle_life) (sample_run @ [UDrop]) s0 = Inr s \<and> cl_freed s"
    "run_legal life_legal (life_step idle_life) [UTake, hup, MSwap, MTask, UDrop] s0"
    "\<exists>s. rfold (life_step idle_life) [UTake, hup, MSwap, MTask, UDrop] s0 = Inr s \<and> c_state s = kDisconnected \<and> cl_users s = 0"
    "run_legal life_legal (life_step idle_life) [UTake, hup, MSwap, MTask, LSwap] s0"
    "\<exists>s. rfold (life_step idle_life) [UTake, hup, MSwap, MTask, LSwap] s0 = Inr s \<and> cl_batch s = [TaskConnectDestroyed]"
proof -
  note f = assms [unfolded sampled_def]
  have take: "life_step idle_life UTake s0 = Inr (s0\<lparr>cl_users := 1\<rparr>)" using f by (simp add: life_use_def)
  have hup: "life_step idle_life hup (s0\<lparr>cl_users := 1\<rparr>) = Inr (hup_closed (s0\<lparr>cl_users := 1\<rparr>))"
    using f by (intro idle_hup) (simp_all add: connected_def)
  have opn: "open_state s0" using f by (simp add: connected_def open_state_def)
  then have hl: "life_legal hup (s0\<lparr>cl_users := 1\<rparr>)" by (intro hup_legal) (simp add: open_state_def)
  note ev = f opn take hup hl
  show "run_legal life_legal (life_step idle_life) sample_run s0"
    "run_legal life_legal (life_step idle_life) (sample_run @ [UDrop]) s0"
    "run_legal life_legal (life_step idle_life) [UTake, hup, MSwap, MTask, UDrop] s0"
    "run_legal life_legal (life_step idle_life) [UTake, hup, MSwap, MTask, LSwap] s0"
    using ev by (simp_all del: life_step.simps(1) life_legal.simps(1) add: life_eval)
  show "\<exists>s. rfold (life_step idle_life) sample_run s0 = Inr s \<and> coming s = [] \<and> cl_users s = 1 \<and> owners s = 1"
    "\<exists>s. rfold (life_step idle_life) (sample_run @ [UDrop]) s0 = Inr s \<and> cl_freed s"
    "\<exists>s. rfold (life_step idle_life) [UTake, hup, MSwap, MTask, UDrop] s0 = Inr s \<and> c_state s = kDisconnected \<and> cl_users s = 0"
    "\<exists>s. rfold (life_step idle_life) [UTake, hup, MSwap, MTask, LSwap] s0 = Inr s \<and> cl_batch s = [TaskConnectDestroyed]"
    using ev by (simp_all del: life_step.simps(1) add: life_eval coming_def)
qed


theorem conn_life_reclaimed_witness:
  "\<exists>s0 s s'. life_start 0 idle_life False 7 = Inr s0 \<and> rfold (life_step idle_life) [UTake, hup, MSwap, MTask, UDrop] s0 = Inr s \<and>
     next_batches idle_life (IoOk 0) s = Inr s' \<and> cl_freed s'"
proof -
  obtain s0 where s0: "life_start 0 idle_life False 7 = Inr s0" "sampled s0" using idle_start by metis
  obtain s where s: "rfold (life_step idle_life) [UTake, hup, MSwap, MTask, UDrop] s0 = Inr s" "c_state s = kDisconnected" "cl_users s = 0"
    using sample_run_steps(6) [OF s0(2)] by blast
  show ?thesis
    using conn_life_reclaimed [OF idle_life_ok(1,2) idle_life_def s0(1) sample_run_steps(5) [OF s0(2)] s, of "IoOk 0"] s0(1) s(1) by blast
qed

theorem late_functor_use_after_free_witness:
  "\<exists>s0 s. life_start 0 idle_life False 7 = Inr s0 \<and> rfold (life_step idle_life) sample_run s0 = Inr s \<and>
     rfold (life_step idle_life) [UStartRead, UDrop, LSwap, LTask (IoOk 0)] s = Inl UseAfterFree"
proof -
  obtain s0 where s0: "life_start 0 idle_life False 7 = Inr s0" "life_inv s0" "sampled s0" using idle_start by metis
  obtain s where s: "rfold (life_step idle_life) sample_run s0 = Inr s" "coming s = []" "cl_users s = 1" "owners s = 1"
    using sample_run_steps(2) [OF s0(3)] by blast
  have "life_inv s" using life_run_inv [OF idle_life_ok(3) s0(1) sample_run_steps(1) [OF s0(3)]] s(1) by simp
  from late_functor_use_after_free [OF this s(2-4) disjI1 [OF refl], of idle_life "IoOk 0"] s0(1) s(1) show ?thesis by blast
qed

theorem shutdown_race_aborts_witness:
  "\<exists>s0 s. life_start 0 idle_life False 7 = Inr s0 \<and> life_step idle_life UTake s0 = Inr s \<and>
     rbind (life_step (life_cbs False (\<lambda>t s. Inr s) (\<lambda>s. Inr s)) hup s)
       (\<lambda>s1. rfold (life_step (life_cbs False (\<lambda>t s. Inr s) (\<lambda>s. Inr s)))
          [MSwap, MTask, MEnd, LSwap, LTask (IoOk 0), LTask (IoOk 0), LEnd, UDrop] (shutdown_tail s1)) = Inl AssertFailed"
proof -
  obtain s0 where s0: "life_start 0 idle_life False 7 = Inr s0" "sampled s0" using idle_start by metis
  let ?s = "s0\<lparr>cl_users := 1\<rparr>"
  have "life_step idle_life UTake s0 = Inr ?s" using s0(2) by (simp add: sampled_def life_use_def)
  moreover have "connected ?s" "c_inLoop ?s" "ch_closeCallback (c_chan ?s)" "\<not> cl_freed ?s" "cl_users ?s = 1" "owners ?s = 2"
     "c_tasks ?s = []" "cl_batch ?s = []" "cl_mainLeft ?s = 0"
    using s0(2) by (simp_all add: sampled_def connected_def owners_def)
  note shutdown_race_aborts [OF this]
  ultimately show ?thesis using s0(1) by blast
qed

theorem close_not_reported_witness:
  "\<exists>s0 s. life_start 0 idle_life False 7 = Inr s0 \<and> rfold (life_step idle_life) [UTake, hup, MSwap, MTask, LSwap] s0 = Inr s \<and>
     \<not> connected s \<and> life_step idle_life (LTask (IoOk 0)) s = life_step (idle_life\<lparr>on_connection := (\<lambda>s. Inl Aborts)\<rparr>) (LTask (IoOk 0)) s"
proof -
  obtain s0 where s0: "life_start 0 idle_life False 7 = Inr s0" "sampled s0" using idle_start by metis
  obtain s where s: "rfold (life_step idle_life) [UTake, hup, MSwap, MTask, LSwap] s0 = Inr s" "cl_batch s = [TaskConnectDestroyed]"
    using sample_run_steps(8) [OF s0(2)] by blast
  show ?thesis
    using close_not_reported [OF idle_life_ok(1,2) idle_life_def s0(1) sample_run_steps(7) [OF s0(2)] s] s0(1) s(1) by blast
qed

end
