(* ===== verification/Exceptions.thy ===== *)
theory Exceptions
  imports Prelude
begin

text \<open>
  \<open>class Exception\<close> of \<open>base/Exception.h\<close> and \<open>base/Exception.cc\<close>, which keeps the call stack of the place
  where it is made, and the report that \<open>Thread::runInThread\<close> and \<open>ThreadPool::runInThread\<close> write when an
  exception leaves the function they run. The frames that \<open>backtrace\<close> finds and their symbols, or none
  when there is no memory for them, are a parameter.
\<close>

record djx_exception =
  ex_message :: string
  ex_stack :: string

text \<open>\<open>backtrace n\<close> is the answer of \<open>backtrace_symbols\<close> for at most \<open>n\<close> frames.\<close>

type_synonym backtrace = "nat \<Rightarrow> string list option"

definition backtrace_spec :: "backtrace \<Rightarrow> bool" where
  "backtrace_spec bt \<longleftrightarrow> (\<forall>n ss. bt n = Some ss \<longrightarrow> length ss \<le> n \<and> (\<forall>s \<in> set ss. CHR 0x00 \<notin> set s))"

definition fillStackTrace :: "backtrace \<Rightarrow> djx_exception \<Rightarrow> djx_exception" where
  "fillStackTrace bt e =
     (case bt 200 of
        None \<Rightarrow> e
      | Some strings \<Rightarrow> e\<lparr>ex_stack := fold (\<lambda>s stack. stack @ s @ [CHR 0x0A]) strings (ex_stack e)\<rparr>)"

definition new_Exception :: "backtrace \<Rightarrow> string \<Rightarrow> djx_exception" where
  "new_Exception bt what = fillStackTrace bt \<lparr>ex_message = what, ex_stack = []\<rparr>"

definition ex_what :: "djx_exception \<Rightarrow> string" where
  "ex_what e = c_str (ex_message e)"

definition ex_stackTrace :: "djx_exception \<Rightarrow> string" where
  "ex_stackTrace e = c_str (ex_stack e)"

text \<open>What a function of a thread may throw; only the text of a standard exception is known.\<close>

datatype thrown = ThrownDjx djx_exception | ThrownStd string | ThrownOther

text \<open>The text on the error output and the end of the process: \<open>abort\<close>, or \<open>std::terminate\<close> after \<open>throw\<close>.\<close>

definition catch_in_thread :: "int \<Rightarrow> thrown \<Rightarrow> string \<times> fault" where
  "catch_in_thread tid x =
     (case x of
        ThrownDjx e \<Rightarrow>
          (''Exception caught in Thread '' @ dec_int tid @ [CHR 0x0A] @ ''reason: '' @ ex_what e @ [CHR 0x0A]
           @ ''stack trace: '' @ ex_stackTrace e @ [CHR 0x0A], Aborts)
      | ThrownStd what \<Rightarrow>
          (''exception caught in Thread '' @ dec_int tid @ [CHR 0x0A] @ ''reason: '' @ c_str what @ [CHR 0x0A], Aborts)
      | ThrownOther \<Rightarrow> (''unknown exception caught in Thread '' @ dec_int tid @ [CHR 0x0A], Aborts))"

section \<open>Reading a trace back\<close>

fun trace_lines :: "string \<Rightarrow> string list" where
  "trace_lines [] = []"
| "trace_lines (c # cs) =
     (if c = CHR 0x0A then [] # trace_lines cs
      else case trace_lines cs of [] \<Rightarrow> [[c]] | l # ls \<Rightarrow> (c # l) # ls)"

lemma trace_lines_line: "CHR 0x0A \<notin> set l \<Longrightarrow> trace_lines (l @ CHR 0x0A # rest) = l # trace_lines rest"
  by (induction l) auto

lemma trace_lines_concat: "\<forall>l \<in> set ls. CHR 0x0A \<notin> set l \<Longrightarrow> trace_lines (concat (map (\<lambda>s. s @ [CHR 0x0A]) ls)) = ls"
  by (induction ls) (simp_all add: trace_lines_line)

lemma stack_concat: "fold (\<lambda>s stack. stack @ s @ [CHR 0x0A]) ss stack = stack @ concat (map (\<lambda>s. s @ [CHR 0x0A]) ss)"
  by (induction ss arbitrary: stack) auto

text \<open>
  The trace of a new exception is its frames, innermost first, one per line and at most 200 of
  them, and none when there was no memory for their symbols.
\<close>

theorem stack_trace_frames:
  assumes "backtrace_spec bt" "\<forall>ss s. bt 200 = Some ss \<longrightarrow> s \<in> set ss \<longrightarrow> CHR 0x0A \<notin> set s"
  shows "trace_lines (ex_stackTrace (new_Exception bt what)) = (case bt 200 of None \<Rightarrow> [] | Some ss \<Rightarrow> ss) \<and>
    length (trace_lines (ex_stackTrace (new_Exception bt what))) \<le> 200"
proof (cases "bt 200")
  case None
  then show ?thesis by (simp add: new_Exception_def fillStackTrace_def ex_stackTrace_def c_str_def)
next
  case (Some ss)
  have nul: "\<forall>s \<in> set ss. CHR 0x00 \<notin> set s" "length ss \<le> 200" and nl: "\<forall>s \<in> set ss. CHR 0x0A \<notin> set s"
    using assms Some by (auto simp: backtrace_spec_def)
  have "CHR 0x00 \<notin> set (concat (map (\<lambda>s. s @ [CHR 0x0A]) ss))" using nul(1) by auto
  then have "ex_stackTrace (new_Exception bt what) = concat (map (\<lambda>s. s @ [CHR 0x0A]) ss)"
    using Some by (simp add: new_Exception_def fillStackTrace_def ex_stackTrace_def stack_concat c_str_id)
  then show ?thesis using trace_lines_concat [OF nl] nul(2) Some by simp
qed

theorem stack_trace_frames_witness:
  "trace_lines (ex_stackTrace (new_Exception (\<lambda>n. Some (take n [''main'', ''start''])) ''test'')) = [''main'', ''start'']"
  using stack_trace_frames [of "\<lambda>n. Some (take n [''main'', ''start''])" "''test''"]
  by (simp add: backtrace_spec_def take_Cons' split: if_splits)

end
