(* ===== verification/Spec2Isabelle.thy ===== *)
theory Spec2Isabelle
  imports NetBuffer Http TimerQueue Epoller EventLoop TcpConnection HttpServer LogStream LogFile AsyncLogging
    Threads ThreadPool Acceptor TcpServer FileServer Logging InetAddress LoopTimers Reactor Sync Sockets LogPipeline
    ConnLife Exceptions
begin

text \<open>
  Verification of Dserver, a C++11 network library for Linux (one event loop per thread, epoll,
  asynchronous logging) with an HTTP server and a file server built on it. Paths below are
  relative to \<open>src/src/\<close>.

  \<^bold>\<open>The program.\<close> A \<open>TcpServer\<close> starts a pool of threads, each with an \<open>EventLoop\<close>. A loop polls its
  \<open>EPollPoller\<close>, dispatches the ready \<open>Channel\<close>s, then runs the functors other threads queued. A
  channel belongs to the \<open>TimerQueue\<close> (timerfd), the wakeup descriptor, an \<open>Acceptor\<close> (one listening
  socket per loop) or a \<open>TcpConnection\<close>, which owns an input and an output \<open>Buffer\<close> and calls the
  user back. \<open>HttpServer\<close> parses requests out of the input buffer and writes responses to the output
  buffer. Log statements (\<open>Logger\<close>, \<open>LogStream\<close>) hand lines to \<open>AsyncLogging\<close>, whose thread appends
  them to a \<open>LogFile\<close>. \<open>ThreadPool\<close> runs computations outside the loops.

  \<^bold>\<open>How the code is modelled.\<close> A class is a \<open>record\<close>, a method a function on it; a method that can fail
  to return gives \<open>'a res = fault + 'a\<close>, where the fault says how (failed assertion, access out of
  bounds, use of a deleted object, exception, fatal log, abort). Sizes are \<open>nat\<close> with the wrap-around
  of \<open>size_t\<close> written out (\<open>usub\<close>, \<open>uadd\<close>), event masks and addresses are words. A loop whose end
  depends on its input is a \<open>partial_function (option)\<close>, where \<open>None\<close> means that it never ends:
  \<open>parseRequest\<close>, the accept loops, the message loop of the file server. No definition has fuel; the
  theorems say when a loop returns. Answers of the kernel and of user callbacks are arguments, and
  what the manual pages promise of them is a named hypothesis (\<open>readv_spec\<close>, \<open>write_spec\<close>,
  \<open>epoll_spec\<close>, \<open>kernel_spec\<close>, \<open>cbs_ok\<close>, \<open>callback_fits\<close>). A critical section is one step, by the contract of
  \<open>pthread\<close> mutexes, and threads interleave between steps. Where the code leaves a rule of use to its
  callers, the operations of a machine are restricted to it (\<open>buffer_legal\<close>, \<open>pool_legal\<close>, \<open>life_legal\<close>,
  \<open>lt_legal\<close>), and theorems beside the safety theorem show what breaking the rule does.

  \<^bold>\<open>Library.\<close>
  \<^item> \<open>Prelude\<close>: faults and results, \<open>size_t\<close> arithmetic, checked memory, searching, decimal printing.
  \<^item> \<open>SafeRun\<close>: the locales \<open>safe_machine\<close> (every legal operation keeps an invariant or stops with a
    named fault, hence so does every run) and \<open>refining_machine\<close> (which also follows an abstract
    specification); interpreted for the buffer, the poller, the timer queue, the connection and its life across threads, the log stream,
    asynchronous logging, logging as a whole, latch, thread, thread pool and I/O threads.
  \<^item> \<open>ByteQueue\<close>: the locale of a first-in first-out queue of bytes with its client lemmas;
    interpreted by \<open>NetBuffer\<close>.
  \<^item> \<open>StdMap\<close>: \<open>std::map\<close> as a sorted association list, and the locale \<open>key_value\<close>.

  \<^bold>\<open>Network core.\<close>
  \<^item> \<open>NetBuffer\<close> (\<open>net/Buffer.h\<close>, \<open>net/Buffer.cc\<close>): the buffer with its three indices, growing and
    moving, \<open>readFd\<close>. It is a byte queue; with sizes up to that of the largest vector no call reaches outside its memory
    and the indices stay in order, except that \<open>swap\<close>, and so \<open>shrink\<close>, exchanges the wrong index; appending
    succeeds up to the maximum size, \<open>readFd\<close> appends what the kernel delivers.
  \<^item> \<open>Timestamp\<close> (\<open>base/Timestamp\<close>) and \<open>TimerQueue\<close> (\<open>net/Timer\<close>, \<open>net/TimerQueue\<close>): timers in a heap.
    Every run keeps the two sets and the heap consistent with the timerfd armed in time; a firing
    runs exactly what is due. Times are integers; \<open>addTime64\<close> and \<open>howMuchTimeFromNow64\<close> are the 64-bit
    computations of the code, which agree with them as long as they do not overflow.
  \<^item> \<open>Channel\<close> (\<open>net/Channel\<close>) and \<open>Epoller\<close> (\<open>net/Epoller\<close>): the interest list of the kernel is kept
    equal to the bookkeeping; \<open>handleEvent\<close> as a fold over the callbacks the events ask for.
  \<^item> \<open>EventLoop\<close> (\<open>net/EventLoop\<close>): an \<open>inductive\<close> step relation of the loop thread and the threads that
    queue functors or quit, and of its own thread outside \<open>loop\<close>: functors run once and in order, no
    wake-up is lost, except for functors its own thread queued outside \<open>loop\<close>.
  \<^item> \<open>LoopTimers\<close> (\<open>EventLoop::runAt\<close> and its kin, \<open>TimerQueue::addTimer\<close>, \<open>cancel\<close>): timers asked for by any
    thread: none is lost or touched after deletion, as long as the id a caller gets back is read while
    the timer lives, which the code does not ensure.
  \<^item> \<open>Reactor\<close> (\<open>net/EventLoop\<close> again): a loop's constructor and destructor with its poller and timer
    queue, and the dispatch of one poll's events while callbacks remove and destroy channels.
  \<^item> \<open>TcpConnection\<close> (\<open>net/TcpConnection\<close>): the state machine and the output under partial writes.
  \<^item> \<open>ConnLife\<close> (\<open>TcpServer::removeConnection\<close> and what follows it): a connection between its I/O loop, the
    main loop and user threads, owned by shared pointers: it is used only while it is owned, it is
    destroyed when the last owner goes and after it was closed that comes within a batch of each loop; the functors bound to the bare
    \<open>this\<close> and \<open>shutdown\<close> of another thread break this.
  \<^item> \<open>Acceptor\<close> (\<open>net/Acceptor\<close>): the accept loop and its reserve descriptor.
  \<^item> \<open>TcpServer\<close> (\<open>net/EventLoopThread\<close>, \<open>net/EventLoopThreadPool\<close>, \<open>net/TcpServer\<close>): the hand-over of a
    loop to its creator, starting one acceptor per loop, new connections.
  \<^item> \<open>InetAddress\<close> (\<open>net/Endian.h\<close>, \<open>net/InetAddress\<close>, the conversions of \<open>net/SocketOps.cc\<close>) and \<open>Sockets\<close>
    (\<open>net/Socket\<close>, the system calls of \<open>net/SocketOps.cc\<close>): which calls are made and in which order; the
    sockets of all loops get the one address because \<open>SO_REUSEPORT\<close> is set before \<open>bind\<close>.

  \<^bold>\<open>Servers.\<close>
  \<^item> \<open>Http\<close> (\<open>net/http/HttpRequest.h\<close>, \<open>HttpContext\<close>, \<open>HttpResponse\<close>): the incremental parser refines
    \<open>parse_spec\<close> over the readable bytes; printing then parsing is the identity; splitting the input
    makes no difference; where the parser does not return, and where it asserts.
  \<^item> \<open>HttpServer\<close> (\<open>net/http/HttpServer\<close>): what a message does to a connection.
  \<^item> \<open>FileServer\<close> (\<open>fileServer/fileServer.cc\<close>): upload and download with passwords, and the inputs
    that stop the server.

  \<^bold>\<open>Base.\<close>
  \<^item> \<open>Sync\<close> (\<open>base/Atomic.h\<close>, the deadline of \<open>base/Condition.cc\<close>): numbers drawn from an atomic integer are
    distinct up to its width.
  \<^item> \<open>LogStream\<close> (\<open>base/LogStream\<close>): printing integers, fixed buffers; \<open>Logging\<close> (\<open>base/Logging\<close>,
    \<open>base/CurrentThread\<close>): a log statement is one whole line.
  \<^item> \<open>LogFile\<close> (\<open>base/FileUtil\<close>, \<open>base/LogFile\<close>) and \<open>AsyncLogging\<close> (\<open>base/AsyncLogging\<close>): lines go to the
    files whole and in order, in every interleaving of the logging threads, and are flushed there.
  \<^item> \<open>LogPipeline\<close> composes them: statements of several threads, each in several steps, refine a text to
    which every enabled statement adds its line when it ends, as long as the logging thread keeps up;
    what a fatal statement leaves behind.
  \<^item> \<open>Threads\<close> (\<open>base/CountDownLatch\<close>, \<open>base/Thread\<close>) and \<open>ThreadPool\<close> (\<open>base/ThreadPool\<close>): no task or
    wake-up is lost, \<open>stop\<close> with its joins ends, and the ways a pool must not be used.
  \<^item> \<open>Exceptions\<close> (\<open>base/Exception\<close>, the handlers of \<open>Thread::runInThread\<close> and \<open>ThreadPool::runInThread\<close>): the
    stack trace of an exception and the report of one that no function caught.

  This theory composes them: readable events of a connection through \<open>readFd\<close>, the parser, the
  callback and the output buffer.

  \<^bold>\<open>Not modelled.\<close> \<open>base/Mutex.h\<close> and \<open>base/Condition.h\<close> only call \<open>pthread\<close>. In \<open>TcpConnection\<close> the close callback
  goes straight to \<open>removeConnectionInLoop\<close>; the way through the main loop is in \<open>ConnLife\<close>. In \<open>Acceptor\<close> a
  log statement leaves \<open>errno\<close> alone. \<open>FileServer\<close> follows one connection with the password map and the
  files it sees; the six threads of the program share them without a lock. \<open>read\<close>, \<open>readv\<close> and \<open>write\<close> of \<open>net/SocketOps.cc\<close> pass one call to the kernel and are
  arguments where they are used. Durations given as a \<open>double\<close> enter as microseconds or nanoseconds
  after the cast, and what \<open>%.12g\<close> prints for a \<open>double\<close> is an argument. \<open>Logger::setFlush\<close> has no caller.
  \<open>Fmt\<close> of \<open>base/LogStream.h\<close> has no constructor;
  \<open>base/BlockingQueue.h\<close> is commented out; \<open>base/tests\<close>, \<open>net/test\<close> and \<open>net/http/tests\<close> are test
  programs. What log statements inside the other components print is not part of their models.
\<close>

section \<open>A request from the socket to the response\<close>

text \<open>
  One readable event of the connection's channel: the kernel hands over \<open>piece\<close> (at most what
  the vectors of \<open>readFd\<close> hold) at the poll return time \<open>t\<close>.
\<close>

definition http_event :: "HttpCallback \<Rightarrow> (nat \<Rightarrow> io_result) \<Rightarrow> Timestamp \<times> string \<Rightarrow> http_conn \<Rightarrow> http_conn res" where
  "http_event cb wr ev = conn_handleRead (http_cbs cb wr) (\<lambda>capacity. Inr (take capacity (snd ev))) (fst ev)"

definition piece_ok :: "Timestamp \<times> string \<Rightarrow> bool" where
  "piece_ok ev \<longleftrightarrow> snd ev \<noteq> [] \<and> length (snd ev) \<le> 65536"

lemma http_event_reads:
  assumes "buffer_wf (c_in s)" "piece_ok (t, x)"
  shows "http_event cb wr (t, x) s = Inl LengthError \<or>
    (\<exists>b. buffer_wf b \<and> readable b = readable (c_in s) @ x \<and> http_event cb wr (t, x) s = onMessage cb wr t (s\<lparr>c_in := b\<rparr>))"
proof -
  let ?rd = "(\<lambda>capacity. Inr (take capacity x)) :: readv_fun"
  have spec: "readv_spec ?rd" by (auto simp: readv_spec_def)
  have "length x \<le> writableBytes (c_in s) + (if writableBytes (c_in s) < 65536 then 65536 else 0)"
    using assms(2) by (auto simp: piece_ok_def)
  then have "?rd (writableBytes (c_in s) + (if writableBytes (c_in s) < 65536 then 65536 else 0)) = Inr x" by simp
  from readFd_result [OF assms(1) spec this] assms(2) show ?thesis
    by (auto simp: http_event_def conn_handleRead_def http_cbs_def piece_ok_def)
qed

text \<open>While \<open>r\<close> is on its way: what is still to come completes it, whenever it comes.\<close>

definition request_due :: "HttpRequest \<Rightarrow> Timestamp set \<Rightarrow> string \<Rightarrow> http_conn \<Rightarrow> bool" where
  "request_due r T rest s \<longleftrightarrow> conn_ok s \<and> c_state s = kConnected \<and> ctx_fresh (hc_context s) \<and>
     (\<forall>t. \<exists>t' \<in> insert t T. parse_spec t (hc_context s) (readable (c_in s) @ rest) =
        Inr (True, \<lparr>ctx_state = kGotAll, ctx_request = r\<lparr>req_receiveTime := t'\<rparr>\<rparr>, []))"

lemma request_due_input:
  "request_due r T (x @ rest) s \<Longrightarrow> buffer_wf b \<Longrightarrow> readable b = readable (c_in s) @ x \<Longrightarrow> request_due r T rest (s\<lparr>c_in := b\<rparr>)"
  using conn_ok_input [of s b "hc_context s"] by (simp add: request_due_def)

lemma request_due_waits:
  assumes "request_due r T rest s" "rest \<noteq> []"
  obtains s1 where "onMessage cb wr t s = Inr s1" "request_due r (insert t T) rest s1"
    "c_wire s1 = c_wire s" "c_out s1 = c_out s"
proof -
  note due = assms(1) [unfolded request_due_def]
  then have wf: "buffer_wf (c_in s)" and fr: "ctx_fresh (hc_context s)" by (simp_all add: conn_ok_def conn_inv_def)
  from due obtain t0 where t0: "t0 \<in> insert t T"
    "parse_spec t (hc_context s) (readable (c_in s) @ rest) = Inr (True, \<lparr>ctx_state = kGotAll, ctx_request = r\<lparr>req_receiveTime := t0\<rparr>\<rparr>, [])"
    by blast
  from parse_spec_prefix [OF t0(2) assms(2) fr] obtain c1 left where c1:
    "parse_spec t (hc_context s) (readable (c_in s)) = Inr (True, c1, left)" "ctx_fresh c1" "\<not> gotAll c1"
    "parse_spec t c1 (left @ rest) = Inr (True, \<lparr>ctx_state = kGotAll, ctx_request = r\<lparr>req_receiveTime := t0\<rparr>\<rparr>, [])"
    by blast
  then obtain b1 where b1: "parseRequest t (hc_context s) (c_in s) = Some (Inr (True, c1, b1))" "buffer_wf b1" "readable b1 = left"
    using parse_live [OF wf ctx_fresh_live [OF fr], of t] by auto
  let ?s1 = "s\<lparr>c_in := b1, hc_context := c1\<rparr>"
  have "onMessage cb wr t s = Inr ?s1"
    unfolding onMessage_after_parse [OF b1(1)] using c1(3) by (simp add: after_parse_def)
  moreover have "\<exists>t2 \<in> insert t' (insert t T). parse_spec t' c1 (left @ rest) =
      Inr (True, \<lparr>ctx_state = kGotAll, ctx_request = r\<lparr>req_receiveTime := t2\<rparr>\<rparr>, [])" for t'
  proof (cases "ctx_state c1 = kExpectRequestLine")
    case True
    then have "c1 = hc_context s" "left = readable (c_in s)" using parse_spec_no_line [OF c1(1)] by simp_all
    then show ?thesis using due by blast
  next
    case False
    with c1(2) have "ctx_state c1 = kExpectHeaders" by (auto simp: ctx_fresh_def)
    from parse_spec_time [OF this, of t' _ t] c1(4) t0(1) show ?thesis by auto
  qed
  ultimately show thesis
    using that [of ?s1] due conn_ok_input [OF _ b1(2), of s c1] b1(3) c1(2) by (simp add: request_due_def)
qed

lemma http_events_answer:
  assumes "callback_fits cb" "\<And>n. write_spec n (wr n)"
  shows "request_due r T (concat (map snd evs)) s \<Longrightarrow> list_all piece_ok evs \<Longrightarrow> evs \<noteq> [] \<Longrightarrow>
    ok_or {LengthError} (\<lambda>s'. readable (c_in s') = [] \<and>
       (\<exists>t \<in> T \<union> set (map fst evs). answered wr (cb (r\<lparr>req_receiveTime := t\<rparr>) (new_HttpResponse (wants_close r))) s s'))
     (rfold (http_event cb wr) evs s)"
proof (induction evs arbitrary: T s)
  case (Cons ev evs)
  obtain t x where ev: "ev = (t, x)" by fastforce
  have wf: "buffer_wf (c_in s)" using Cons.prems(1) by (simp add: request_due_def conn_ok_def conn_inv_def)
  show ?case
  proof (cases "http_event cb wr (t, x) s = Inl LengthError")
    case True
    then show ?thesis by (simp add: ev)
  next
    case False
    with http_event_reads [OF wf, of t x cb wr] Cons.prems(2) obtain b where b: "buffer_wf b" "readable b = readable (c_in s) @ x"
      "http_event cb wr (t, x) s = onMessage cb wr t (s\<lparr>c_in := b\<rparr>)" by (auto simp: ev)
    let ?s1 = "s\<lparr>c_in := b\<rparr>"
    have due: "request_due r T (concat (map snd evs)) ?s1"
      by (rule request_due_input [of r T x]) (use Cons.prems(1) b in \<open>simp_all add: ev\<close>)
    show ?thesis
    proof (cases "evs = []")
      case True
      have cl: "wants_close (r\<lparr>req_receiveTime := t'\<rparr>) = wants_close r" for t'
        by (simp add: wants_close_def getHeader_def)
      from due obtain t' where t': "t' \<in> insert t T" "parse_spec t (hc_context ?s1) (readable (c_in ?s1)) =
          Inr (True, \<lparr>ctx_state = kGotAll, ctx_request = r\<lparr>req_receiveTime := t'\<rparr>\<rparr>, [])"
        unfolding request_due_def True by auto
      have "conn_ok ?s1" "c_state ?s1 = kConnected" "ctx_live (hc_context ?s1)"
        using due ctx_fresh_live by (auto simp: request_due_def)
      from onMessage_answers [OF this assms t'(2)] show ?thesis
        using t'(1) unfolding True ev rfold.simps b(3) cl
        by (cases "onMessage cb wr t ?s1") (auto simp: answered_def)
    next
      case False
      have "concat (map snd evs) \<noteq> []" using False Cons.prems(2) by (cases evs) (auto simp: piece_ok_def)
      from request_due_waits [OF due this, of cb wr t] obtain s2 where s2: "onMessage cb wr t ?s1 = Inr s2"
        "request_due r (insert t T) (concat (map snd evs)) s2" "c_wire s2 = c_wire s" "c_out s2 = c_out s" by auto
      from Cons.IH [OF s2(2) _ False] Cons.prems(2) show ?thesis
        unfolding ev rfold.simps b(3) s2(1) by (auto simp: answered_def s2(3,4) elim!: ok_or_mono)
    qed
  qed
qed simp

text \<open>
  C2: a well-formed request that reaches an idle connection in any pieces, over any number of
  readable events, is answered exactly once, with the last piece: the callback gets exactly that
  request (stamped with the time of one of the events), all the bytes of its response are sent
  behind everything sent before (or none, only if the kernel reports a broken connection), the
  input is used up and the connection ends up shut down or ready for the next request as the
  response says. The only fault is a buffer beyond its maximum size.
\<close>

theorem http_request_answered:
  assumes "conn_ok s" "c_state s = kConnected" "hc_context s = new_HttpContext" "readable (c_in s) = []"
    and "callback_fits cb" "\<forall>n. write_spec n (wr n)" "request_ok r"
    and "concat (map snd evs) = render_request r" "list_all piece_ok evs"
  shows "ok_or {LengthError} (\<lambda>s'. readable (c_in s') = [] \<and>
       (\<exists>t \<in> set (map fst evs). answered wr (cb (r\<lparr>req_receiveTime := t\<rparr>) (new_HttpResponse (wants_close r))) s s'))
     (rfold (http_event cb wr) evs s)"
proof -
  have "parse_spec t new_HttpContext (render_request r) =
      Inr (True, \<lparr>ctx_state = kGotAll, ctx_request = r\<lparr>req_receiveTime := t\<rparr>\<rparr>, [])" for t
    using parse_spec_render [of "r\<lparr>req_receiveTime := t\<rparr>" "[]"] assms(7)
    by (simp add: request_ok_def render_request_def render_line_def)
  then have due: "request_due r {} (concat (map snd evs)) s"
    using assms(1-4,8) by (auto simp: request_due_def ctx_fresh_def new_HttpContext_def new_HttpRequest_def)
  have "evs \<noteq> []" using assms(8) by (auto simp: render_request_def kCRLF_def)
  from http_events_answer [OF assms(5) _ due assms(9) this, of wr] assms(6) show ?thesis by simp
qed

theorem http_request_answered_witness:
  "ok_or {LengthError} (\<lambda>s'. readable (c_in s') = [] \<and> c_state s' = kDisconnecting)
     (rfold (http_event defaultHttpCallback (\<lambda>n. IoOk n))
        [(5, ''GET / HT''), (6, ''TP/1.1'' @ kCRLF), (7, kCRLF)] (http_sample []))"
proof -
  let ?evs = "[(5, ''GET / HT''), (6, ''TP/1.1'' @ kCRLF), (7, kCRLF)] :: (Timestamp \<times> string) list"
  let ?s = "http_sample []"
  have len: "length ([]::string) + 8 \<le> vec_max" by (simp add: vec_max_def)
  have st: "c_state ?s = kConnected" "hc_context ?s = new_HttpContext" "readable (c_in ?s) = []"
    using len by (simp_all add: http_sample_def buffer_of_ok)
  have wr: "\<forall>n. write_spec n (IoOk n)" by (simp add: write_spec_def)
  have rq: "request_ok sample_request" by (simp add: request_ok_def sample_request_def map_ok_def)
  have cat: "concat (map snd ?evs) = render_request sample_request"
    by (simp add: render_request_def render_line_def sample_request_def kCRLF_def)
  have "list_all piece_ok ?evs" by (simp add: piece_ok_def kCRLF_def)
  from http_request_answered [OF http_sample_ok [OF len] st default_fits wr rq cat this] show ?thesis
    by (rule ok_or_mono) (auto simp: answered_def defaultHttpCallback_def setCloseConnection_def)
qed

end
